(* ===== verification/Homedns_Prelude.thy ===== *)
theory Homedns_Prelude
  imports Main "HOL-Library.List_Lexorder" "HOL-Library.Char_ord" "HOL-Library.Word"
begin

text \<open>
  The prelude of the development: the collections that carry the component proofs
  (\<open>go_eval\<close> for unfolding the executable models on concrete inputs, \<open>go_str\<close> for
  rewriting with the string operations, \<open>step_simps\<close> for the step relations), the
  generic list facts several components use, the result type of fallible Go functions,
  and reachability of a step relation with the interface of an inductive invariant.

  A Go string is a byte sequence, and so is HOL's \<open>string\<close> (a \<open>char\<close> is one byte);
  the order on strings is the bytewise lexicographic order of \<open>List_Lexorder\<close> over
  \<open>Char_ord\<close>, which is Go's \<open><\<close> on strings.
\<close>

named_theorems go_eval \<open>definitions to unfold when a model is evaluated on a concrete input\<close>
named_theorems go_str \<open>rewriting with the string operations\<close>
named_theorems step_simps \<open>inversion rules of the step relations\<close>

type_synonym ('e, 'a) result = "'e + 'a"

abbreviation Err :: "'e \<Rightarrow> ('e, 'a) result" where "Err \<equiv> Inl"

abbreviation Ok :: "'a \<Rightarrow> ('e, 'a) result" where "Ok \<equiv> Inr"

text \<open>The numeric value of a byte.\<close>

definition byte :: "char \<Rightarrow> nat" where
  "byte c = of_char c"

text \<open>Reachable states of a step relation.\<close>

inductive reach :: "('s \<Rightarrow> bool) \<Rightarrow> ('s \<Rightarrow> 's \<Rightarrow> bool) \<Rightarrow> 's \<Rightarrow> bool"
  for init :: "'s \<Rightarrow> bool" and step :: "'s \<Rightarrow> 's \<Rightarrow> bool" where
  reach_init: "init s \<Longrightarrow> reach init step s"
| reach_step: "reach init step s \<Longrightarrow> step s t \<Longrightarrow> reach init step t"

text \<open>
  The contract of an inductive invariant: it holds at the start and every step keeps it.
  Every state machine of the development interprets this locale on its own relation.
\<close>

locale inductive_invariant =
  fixes init :: "'s \<Rightarrow> bool"
    and step :: "'s \<Rightarrow> 's \<Rightarrow> bool"
    and invar :: "'s \<Rightarrow> bool"
  assumes invar_init: "init s \<Longrightarrow> invar s"
    and invar_step: "invar s \<Longrightarrow> step s t \<Longrightarrow> invar t"
begin

lemma reachable_invar: "reach init step s \<Longrightarrow> invar s"
  by (induction rule: reach.induct) (auto intro: invar_init invar_step)

lemma steps_invar: "step\<^sup>*\<^sup>* s t \<Longrightarrow> invar s \<Longrightarrow> invar t"
  by (induction rule: rtranclp_induct) (auto intro: invar_step)

end

subsection \<open>Generic facts\<close>

lemma reach_steps:
  assumes "step\<^sup>*\<^sup>* s t" and "reach init step s"
  shows "reach init step t"
  using assms by (induction rule: rtranclp_induct) (auto intro: reach_step)

lemma byte_less_256 [simp]: "byte c < 256"
  by (simp add: byte_def)

lemma byte_inject [simp]: "byte c = byte d \<longleftrightarrow> c = d"
  by (simp add: byte_def)

lemma char_of_byte [simp]: "char_of (byte c) = c"
  by (simp add: byte_def)

lemma less_char_byte: "c < d \<longleftrightarrow> byte c < byte d"
  by (simp add: less_char_def byte_def)

lemma less_eq_char_byte: "c \<le> d \<longleftrightarrow> byte c \<le> byte d"
  by (simp add: less_eq_char_def byte_def)

lemma sorted_nth_less:
  "sorted xs \<Longrightarrow> i < j \<Longrightarrow> j < length xs \<Longrightarrow> xs ! i \<le> xs ! j"
  by (simp add: sorted_nth_mono)

lemma sorted_remdups_adj_distinct:
  "sorted xs \<Longrightarrow> distinct (remdups_adj (xs :: 'a :: linorder list))"
proof (induction xs rule: remdups_adj.induct)
  case (3 x y xs)
  show ?case
  proof (cases "x = y")
    case True
    with 3 show ?thesis by simp
  next
    case False
    with 3 have "distinct (remdups_adj (y # xs))" and "x < y" by auto
    moreover have "x \<notin> set (y # xs)" using 3(3) \<open>x < y\<close> by auto
    ultimately show ?thesis using False by simp
  qed
qed simp_all

lemma sum_list_map_update:
  "i < length xs \<Longrightarrow> sum_list (map f (xs[i := y])) + f (xs ! i) = sum_list (map f xs) + f y"
  for f :: "'b \<Rightarrow> nat"
  by (induction xs arbitrary: i) (auto simp: less_Suc_eq_0_disj)

lemma filter_sorted: "sorted xs \<Longrightarrow> sorted (filter P (xs :: 'a :: linorder list))"
  by (rule sorted_wrt_filter)

end
