(* ===== verification/Go_Strings.thy ===== *)
theory Go_Strings
  imports Homedns_Prelude
begin

text \<open>
  The part of Go's \<open>strings\<close>, \<open>sort\<close> and \<open>unicode/utf8\<close> packages the program calls:
  byte search, prefix and suffix trimming, lower-casing, white-space trimming and
  splitting (over UTF-8 decoded runes, as the library does), and binary search in a
  sorted slice of strings. Slices \<open>s[:i]\<close> and \<open>s[i:]\<close> are \<open>take i s\<close> and
  \<open>drop i s\<close>; an index of \<open>-1\<close> is \<open>None\<close>.

  The only part taken as a parameter is the table of Unicode lower-case mappings of runes
  outside ASCII (\<open>ul\<close>, data the library generates from the Unicode database); every
  theorem holds for each such table.
\<close>

subsection \<open>Searching and trimming\<close>

primrec index_byte :: "char \<Rightarrow> string \<Rightarrow> nat option" where
  "index_byte c [] = None"
| "index_byte c (x # xs) = (if x = c then Some 0 else map_option Suc (index_byte c xs))"

fun has_prefix :: "string \<Rightarrow> string \<Rightarrow> bool" where
  "has_prefix s [] = True"
| "has_prefix [] (p # ps) = False"
| "has_prefix (x # xs) (p # ps) = (x = p \<and> has_prefix xs ps)"

definition trim_prefix :: "string \<Rightarrow> string \<Rightarrow> string" where
  "trim_prefix s p = (if has_prefix s p then drop (length p) s else s)"

definition has_suffix :: "string \<Rightarrow> string \<Rightarrow> bool" where
  "has_suffix s p = has_prefix (rev s) (rev p)"

definition trim_suffix :: "string \<Rightarrow> string \<Rightarrow> string" where
  "trim_suffix s p = (if has_suffix s p then take (length s - length p) s else s)"

fun contains_str :: "string \<Rightarrow> string \<Rightarrow> bool" where
  "contains_str [] p = (p = [])"
| "contains_str (x # xs) p = (has_prefix (x # xs) p \<or> contains_str xs p)"

subsection \<open>Runes\<close>

definition rune_error :: nat where
  "rune_error = 65533"

text \<open>
  \<open>utf8.DecodeRuneInString\<close>: the rune at the front of the string and its width; a byte
  that starts no valid encoding is the error rune of width 1. The bounds on the second
  byte exclude overlong forms, surrogates and values beyond U+10FFFF.
\<close>

definition cont :: "nat \<Rightarrow> nat \<Rightarrow> nat \<Rightarrow> bool" where
  "cont lo hi b \<longleftrightarrow> lo \<le> b \<and> b \<le> hi"

definition second_range :: "nat \<Rightarrow> nat \<times> nat" where
  "second_range b0 =
     (if b0 = 224 then (160, 191) else if b0 = 237 then (128, 159)
      else if b0 = 240 then (144, 191) else if b0 = 244 then (128, 143) else (128, 191))"

definition decode_rune :: "string \<Rightarrow> nat \<times> nat" where
  "decode_rune s = (case map byte (take 4 s) of
      [] \<Rightarrow> (rune_error, 0)
    | b0 # bs \<Rightarrow>
       (if b0 < 128 then (b0, 1)
        else case second_range b0 of (lo, hi) \<Rightarrow>
          if 194 \<le> b0 \<and> b0 \<le> 223 \<and> 1 \<le> length bs \<and> cont lo hi (bs ! 0)
          then ((b0 - 192) * 64 + (bs ! 0 - 128), 2)
          else if 224 \<le> b0 \<and> b0 \<le> 239 \<and> 2 \<le> length bs \<and> cont lo hi (bs ! 0) \<and>
                  cont 128 191 (bs ! 1)
          then ((b0 - 224) * 4096 + (bs ! 0 - 128) * 64 + (bs ! 1 - 128), 3)
          else if 240 \<le> b0 \<and> b0 \<le> 244 \<and> 3 \<le> length bs \<and> cont lo hi (bs ! 0) \<and>
                  cont 128 191 (bs ! 1) \<and> cont 128 191 (bs ! 2)
          then ((b0 - 240) * 262144 + (bs ! 0 - 128) * 4096 + (bs ! 1 - 128) * 64
                + (bs ! 2 - 128), 4)
          else (rune_error, 1)))"

text \<open>The runes of a string, each with the bytes it was decoded from.\<close>

function runes :: "string \<Rightarrow> (nat \<times> string) list" where
  "runes s =
     (if s = [] then []
      else let w = max 1 (snd (decode_rune s))
           in (fst (decode_rune s), take w s) # runes (drop w s))"
  by pat_completeness auto
termination
  by (relation "measure length") auto

declare runes.simps [simp del]

text \<open>\<open>utf8.EncodeRune\<close>; surrogates and values beyond the last code point become U+FFFD.\<close>

definition encode_rune :: "nat \<Rightarrow> string" where
  "encode_rune r =
     (let r = (if 1114111 < r \<or> (55296 \<le> r \<and> r \<le> 57343) then rune_error else r)
      in if r < 128 then [char_of r]
         else if r < 2048 then [char_of (192 + r div 64), char_of (128 + r mod 64)]
         else if r < 65536 then
           [char_of (224 + r div 4096), char_of (128 + r div 64 mod 64), char_of (128 + r mod 64)]
         else [char_of (240 + r div 262144), char_of (128 + r div 4096 mod 64),
               char_of (128 + r div 64 mod 64), char_of (128 + r mod 64)])"

subsection \<open>Lower case\<close>

definition is_ascii :: "string \<Rightarrow> bool" where
  "is_ascii s = list_all (\<lambda>c. byte c < 128) s"

definition lower_byte :: "char \<Rightarrow> char" where
  "lower_byte c = (if CHR ''A'' \<le> c \<and> c \<le> CHR ''Z'' then char_of (byte c + 32) else c)"

text \<open>\<open>unicode.ToLower\<close>, with the mapping of the non-ASCII runes as the parameter.\<close>

definition rune_to_lower :: "(nat \<Rightarrow> nat) \<Rightarrow> nat \<Rightarrow> nat" where
  "rune_to_lower ul r = (if r < 128 then (if 65 \<le> r \<and> r \<le> 90 then r + 32 else r) else ul r)"

definition to_lower :: "(nat \<Rightarrow> nat) \<Rightarrow> string \<Rightarrow> string" where
  "to_lower ul s =
     (if is_ascii s then map lower_byte s
      else concat (map (\<lambda>(r, _). encode_rune (rune_to_lower ul r)) (runes s)))"

subsection \<open>White space\<close>

text \<open>\<open>unicode.IsSpace\<close>: the six ASCII spaces, NEL, NBSP and the wider White\_Space runes.\<close>

definition is_space :: "nat \<Rightarrow> bool" where
  "is_space r \<longleftrightarrow>
     r = 9 \<or> r = 10 \<or> r = 11 \<or> r = 12 \<or> r = 13 \<or> r = 32 \<or> r = 133 \<or> r = 160 \<or> r = 5760 \<or>
     8192 \<le> r \<and> r \<le> 8202 \<or> r = 8232 \<or> r = 8233 \<or> r = 8239 \<or> r = 8287 \<or> r = 12288"

abbreviation space_rune :: "nat \<times> string \<Rightarrow> bool" where
  "space_rune rb \<equiv> is_space (fst rb)"

definition trim_space :: "string \<Rightarrow> string" where
  "trim_space s =
     concat (map snd (rev (dropWhile space_rune (rev (dropWhile space_rune (runes s))))))"

text \<open>\<open>strings.Fields\<close>: the second argument is the field being collected.\<close>

fun fields_loop :: "(nat \<times> string) list \<Rightarrow> string \<Rightarrow> string list" where
  "fields_loop [] cur = (if cur = [] then [] else [cur])"
| "fields_loop ((r, bs) # rest) cur =
     (if is_space r then (if cur = [] then fields_loop rest [] else cur # fields_loop rest [])
      else fields_loop rest (cur @ bs))"

definition str_fields :: "string \<Rightarrow> string list" where
  "str_fields s = fields_loop (runes s) []"

subsection \<open>Sorted slices of strings\<close>

text \<open>\<open>sort.SearchStrings\<close>: the loop over \<open>i\<close> and \<open>j\<close>.\<close>

function search_loop :: "string list \<Rightarrow> string \<Rightarrow> nat \<Rightarrow> nat \<Rightarrow> nat" where
  "search_loop a x i j =
     (if i < j
      then (let h = (i + j) div 2
            in if a ! h < x then search_loop a x (h + 1) j else search_loop a x i h)
      else i)"
  by pat_completeness auto
termination
  by (relation "measure (\<lambda>(a, x, i, j). j - i)") auto

declare search_loop.simps [simp del]

definition search_strings :: "string list \<Rightarrow> string \<Rightarrow> nat" where
  "search_strings a x = search_loop a x 0 (length a)"

subsection \<open>Facts: searching and trimming\<close>

lemma index_byte_None [go_str]: "index_byte c s = None \<longleftrightarrow> c \<notin> set s"
  by (induction s) auto

lemma index_byte_SomeD:
  "index_byte c s = Some i \<Longrightarrow>
     i < length s \<and> s = take i s @ c # drop (Suc i) s \<and> c \<notin> set (take i s)"
proof (induction s arbitrary: i)
  case (Cons x xs)
  show ?case
  proof (cases "x = c")
    case False
    with Cons.prems obtain k where "index_byte c xs = Some k" "i = Suc k" by auto
    with Cons.IH False show ?thesis by auto
  qed (use Cons.prems in auto)
qed simp

lemma index_byte_append [simp]: "c \<notin> set p \<Longrightarrow> index_byte c (p @ c # q) = Some (length p)"
  by (induction p) auto

lemma has_prefix_iff: "has_prefix s p \<longleftrightarrow> (\<exists>t. s = p @ t)"
  by (induction s p rule: has_prefix.induct) auto

lemma has_suffix_iff: "has_suffix s p \<longleftrightarrow> (\<exists>t. s = t @ p)"
  unfolding has_suffix_def has_prefix_iff by (metis rev_append rev_rev_ident)

lemma trim_prefix_append [simp]: "trim_prefix (p @ s) p = s"
  by (auto simp: trim_prefix_def has_prefix_iff)

lemma trim_prefix_id: "\<not> has_prefix s p \<Longrightarrow> trim_prefix s p = s"
  by (simp add: trim_prefix_def)

lemma trim_suffix_append [simp]: "trim_suffix (s @ p) p = s"
  by (auto simp: trim_suffix_def has_suffix_iff)

lemma trim_suffix_id: "\<not> has_suffix s p \<Longrightarrow> trim_suffix s p = s"
  by (simp add: trim_suffix_def)

lemma trim_prefix_cases: "trim_prefix s p = s \<or> s = p @ trim_prefix s p"
  by (auto simp: trim_prefix_def has_prefix_iff)

lemma trim_suffix_cases: "trim_suffix s p = s \<or> s = trim_suffix s p @ p"
  by (auto simp: trim_suffix_def has_suffix_iff)

lemma contains_str_single [simp]: "contains_str s [c] \<longleftrightarrow> c \<in> set s"
  by (induction s) auto

subsection \<open>Facts: runes of plain words\<close>

text \<open>
  A word is plain when all its bytes are ASCII and none is a space: what the entries of a
  list consist of. On plain words the rune-based operations are the obvious byte ones.
\<close>

definition plain :: "string \<Rightarrow> bool" where
  "plain s = list_all (\<lambda>c. byte c < 128 \<and> \<not> is_space (byte c)) s"

lemma plain_simps [simp]:
  "plain []" "plain (c # s) \<longleftrightarrow> byte c < 128 \<and> \<not> is_space (byte c) \<and> plain s"
  "plain (s @ t) \<longleftrightarrow> plain s \<and> plain t"
  by (auto simp: plain_def)

lemma runes_Nil [simp]: "runes [] = []"
  by (simp add: runes.simps)

lemma decode_rune_ascii [simp]: "byte c < 128 \<Longrightarrow> decode_rune (c # s) = (byte c, 1)"
  by (simp add: decode_rune_def)

lemma runes_ascii_Cons [simp]:
  "byte c < 128 \<Longrightarrow> runes (c # s) = (byte c, [c]) # runes s"
  by (subst runes.simps) simp

lemma concat_runes: "concat (map snd (runes s)) = s"
proof (induction s rule: runes.induct)
  case (1 s)
  show ?case
  proof (cases "s = []")
    case False
    with 1 show ?thesis by (subst runes.simps) (simp add: Let_def)
  qed simp
qed

lemma runes_plain_append:
  "plain w \<Longrightarrow> runes (w @ s) = map (\<lambda>c. (byte c, [c])) w @ runes s"
  by (induction w) auto

lemma runes_plain: "plain w \<Longrightarrow> runes w = map (\<lambda>c. (byte c, [c])) w"
  using runes_plain_append [of w "[]"] by simp

lemma dropWhile_space_plain:
  "plain w \<Longrightarrow> dropWhile space_rune (map (\<lambda>c. (byte c, [c])) w) = map (\<lambda>c. (byte c, [c])) w"
  by (cases w) auto

lemma plain_rev [simp]: "plain (rev w) = plain w"
  by (simp add: plain_def)

lemma trim_space_plain [simp]: "plain w \<Longrightarrow> trim_space w = w"
proof -
  assume w: "plain w"
  have "concat (map snd (map (\<lambda>c. (byte c, [c])) w)) = w" for w :: string
    by (induction w) auto
  with w dropWhile_space_plain [OF w] dropWhile_space_plain [of "rev w"] show ?thesis
    unfolding trim_space_def runes_plain [OF w] by (simp add: rev_map)
qed

lemma fields_loop_plain:
  "plain w \<Longrightarrow> fields_loop (map (\<lambda>c. (byte c, [c])) w @ rest) cur = fields_loop rest (cur @ w)"
  by (induction w arbitrary: cur) auto

lemma str_fields_plain [simp]: "plain w \<Longrightarrow> w \<noteq> [] \<Longrightarrow> str_fields w = [w]"
  using fields_loop_plain [of w "[]" "[]"] by (simp add: str_fields_def runes_plain)

lemma str_fields_plain_space:
  assumes "plain w" "w \<noteq> []"
  shows "str_fields (w @ CHR '' '' # s) = w # str_fields s"
  using assms fields_loop_plain [of w "(32, '' '') # runes s" "[]"]
  by (simp add: str_fields_def runes_plain_append is_space_def byte_def)

lemma str_fields_eq_Nil_iff: "str_fields s = [] \<longleftrightarrow> list_all space_rune (runes s)"
proof -
  have ne: "list_all (\<lambda>(r, bs). bs \<noteq> []) (runes s)"
  proof (induction s rule: runes.induct)
    case (1 s)
    then show ?case by (subst runes.simps) (auto simp: Let_def)
  qed
  have "fields_loop rs cur = [] \<longleftrightarrow> cur = [] \<and> list_all space_rune rs"
    if "list_all (\<lambda>(r, bs). bs \<noteq> []) rs" for rs :: "(nat \<times> string) list" and cur
    using that by (induction rs cur rule: fields_loop.induct) auto
  from this [OF ne, of "[]"] show ?thesis by (simp add: str_fields_def)
qed

subsection \<open>Facts: lower case\<close>

lemma lower_byte_ascii: "byte c < 128 \<Longrightarrow> byte (lower_byte c) < 128"
  by (auto simp: lower_byte_def less_eq_char_byte byte_def)

lemma lower_byte_idem [simp]: "lower_byte (lower_byte c) = lower_byte c"
proof (cases "CHR ''A'' \<le> c \<and> c \<le> CHR ''Z''")
  case True
  then have "65 \<le> byte c" "byte c \<le> 90" by (auto simp: less_eq_char_byte byte_def)
  then have "byte (char_of (byte c + 32)) = byte c + 32" by (simp add: byte_def)
  with True \<open>65 \<le> byte c\<close> have "\<not> char_of (byte c + 32) \<le> CHR ''Z''"
    by (simp add: less_eq_char_byte) (simp add: byte_def)
  with True show ?thesis by (simp add: lower_byte_def)
next
  case False
  then have "lower_byte c = c" by (auto simp: lower_byte_def)
  then show ?thesis by simp
qed

lemma to_lower_ascii: "is_ascii s \<Longrightarrow> to_lower ul s = map lower_byte s"
  by (simp add: to_lower_def)

lemma to_lower_idem_ascii: "is_ascii s \<Longrightarrow> to_lower ul (to_lower ul s) = to_lower ul s"
  by (simp add: to_lower_def is_ascii_def list_all_iff lower_byte_ascii)

subsection \<open>Facts: binary search\<close>

lemma search_loop_correct:
  assumes "sorted a"
  shows "i \<le> j \<Longrightarrow> j \<le> length a \<Longrightarrow> (\<And>k. k < i \<Longrightarrow> a ! k < x) \<Longrightarrow>
    (\<And>k. j \<le> k \<Longrightarrow> k < length a \<Longrightarrow> x \<le> a ! k) \<Longrightarrow>
    search_loop a x i j \<le> length a \<and> (\<forall>k. k < search_loop a x i j \<longrightarrow> a ! k < x) \<and>
    (\<forall>k. search_loop a x i j \<le> k \<longrightarrow> k < length a \<longrightarrow> x \<le> a ! k)"
proof (induction "j - i" arbitrary: i j rule: less_induct)
  case less
  show ?case
  proof (cases "i < j")
    case True
    let ?h = "(i + j) div 2"
    have h: "i \<le> ?h" "?h < j" using True by auto
    have mono: "a ! k \<le> a ! l" if "k \<le> l" "l < length a" for k l
      using assms that by (rule sorted_nth_mono)
    show ?thesis
    proof (cases "a ! ?h < x")
      case lt: True
      have eq: "search_loop a x i j = search_loop a x (?h + 1) j"
        using True lt by (subst search_loop.simps) (simp add: Let_def)
      have below: "a ! k < x" if "k < ?h + 1" for k
      proof -
        have "a ! k \<le> a ! ?h" by (rule mono) (use that h less.prems(2) in linarith)+
        with lt show ?thesis by simp
      qed
      have "?h + 1 \<le> j" "j - (?h + 1) < j - i" using h by linarith+
      from less.hyps [OF this(2,1) less.prems(2) below less.prems(4)]
      show ?thesis unfolding eq .
    next
      case ge: False
      have eq: "search_loop a x i j = search_loop a x i ?h"
        using True ge by (subst search_loop.simps) (simp add: Let_def)
      have above: "x \<le> a ! k" if "?h \<le> k" "k < length a" for k
        using mono [OF that] ge by simp
      have "?h \<le> length a" "?h - i < j - i" using h less.prems(2) by linarith+
      from less.hyps [OF this(2) h(1) this(1) less.prems(3) above]
      show ?thesis unfolding eq .
    qed
  next
    case False
    then have "search_loop a x i j = i" by (subst search_loop.simps) simp
    with less.prems False show ?thesis by simp
  qed
qed

lemma search_strings_correct:
  assumes "sorted a"
  shows "search_strings a x \<le> length a \<and> (\<forall>k. k < search_strings a x \<longrightarrow> a ! k < x) \<and>
    (\<forall>k. search_strings a x \<le> k \<longrightarrow> k < length a \<longrightarrow> x \<le> a ! k)"
  unfolding search_strings_def by (rule search_loop_correct [OF assms]) simp_all

lemma search_strings_member:
  assumes "sorted a"
  shows "search_strings a x < length a \<and> a ! search_strings a x = x \<longleftrightarrow> x \<in> set a"
proof
  let ?i = "search_strings a x"
  assume "x \<in> set a"
  then obtain k where k: "k < length a" "a ! k = x" by (auto simp: in_set_conv_nth)
  have ge: "?i \<le> k"
  proof (rule ccontr)
    assume "\<not> ?i \<le> k"
    then have "a ! k < x" using search_strings_correct [OF assms, of x] by auto
    with k show False by simp
  qed
  have "x \<le> a ! ?i" using search_strings_correct [OF assms, of x] ge k by auto
  moreover have "a ! ?i \<le> x" using sorted_nth_mono [OF assms ge k(1)] k(2) by simp
  ultimately show "?i < length a \<and> a ! ?i = x" using ge k by simp
qed (auto simp: in_set_conv_nth)

end
