(* ===== verification/Go_Netip.thy ===== *)
theory Go_Netip
  imports Go_Strings
begin

text \<open>
  The part of Go's \<open>net/netip\<close>, \<open>net\<close> and \<open>strconv\<close> packages the program calls: parsing
  and printing of IP literals, splitting and joining of \<open>host:port\<close>, and decimal integers.
  Errors carry no information the program looks at, so a failed parse is \<open>None\<close>.
\<close>

subsection \<open>Decimal integers\<close>

definition is_digit :: "char \<Rightarrow> bool" where
  "is_digit c \<longleftrightarrow> CHR ''0'' \<le> c \<and> c \<le> CHR ''9''"

definition digit_val :: "char \<Rightarrow> nat" where
  "digit_val c = byte c - 48"

fun dec_value :: "nat \<Rightarrow> string \<Rightarrow> nat" where
  "dec_value n [] = n"
| "dec_value n (c # cs) = dec_value (n * 10 + digit_val c) cs"

text \<open>\<open>strconv.Atoi\<close>: an optional sign, at least one digit, the range of a 64-bit int.\<close>

definition atoi :: "string \<Rightarrow> int option" where
  "atoi s =
     (let neg = has_prefix s ''-'';
          ds = (if has_prefix s ''-'' \<or> has_prefix s ''+'' then tl s else s);
          n = (if neg then - int (dec_value 0 ds) else int (dec_value 0 ds))
      in if ds = [] \<or> \<not> list_all is_digit ds then None
         else if n < - (2 ^ 63) \<or> 2 ^ 63 \<le> n then None
         else Some n)"

text \<open>\<open>strconv.Itoa\<close> on non-negative values.\<close>

fun itoa :: "nat \<Rightarrow> string" where
  "itoa n = (if n < 10 then [char_of (48 + n)] else itoa (n div 10) @ [char_of (48 + n mod 10)])"

declare itoa.simps [simp del]

subsection \<open>IP literals\<close>

datatype addr = V4 "nat list" | V6 "nat list" string

text \<open>
  \<open>parseIPv4Fields\<close>: \<open>prev\<close> is the byte before the current one, \<open>fs\<close> the octets
  stored so far, \<open>v\<close> and \<open>digLen\<close> the value and length of the current one.
\<close>

fun parse_v4_loop :: "string \<Rightarrow> char option \<Rightarrow> nat list \<Rightarrow> nat \<Rightarrow> nat \<Rightarrow> nat list option" where
  "parse_v4_loop [] prev fs v digLen = (if length fs < 3 then None else Some (fs @ [v]))"
| "parse_v4_loop (c # cs) prev fs v digLen =
     (if is_digit c then
        (if digLen = 1 \<and> v = 0 then None
         else let v' = v * 10 + digit_val c
              in if 255 < v' then None else parse_v4_loop cs (Some c) fs v' (digLen + 1))
      else if c = CHR ''.'' then
        (if prev = None \<or> cs = [] \<or> prev = Some CHR ''.'' then None
         else if length fs = 3 then None
         else parse_v4_loop cs (Some c) (fs @ [v]) 0 0)
      else None)"

definition parse_v4 :: "string \<Rightarrow> nat list option" where
  "parse_v4 s = parse_v4_loop s None [] 0 0"

definition hex_val :: "char \<Rightarrow> nat option" where
  "hex_val c =
     (if is_digit c then Some (digit_val c)
      else if CHR ''a'' \<le> c \<and> c \<le> CHR ''f'' then Some (byte c - 97 + 10)
      else if CHR ''A'' \<le> c \<and> c \<le> CHR ''F'' then Some (byte c - 65 + 10)
      else None)"

text \<open>The hexadecimal digits of one group: how many, their value, and what follows.\<close>

fun hex_group :: "string \<Rightarrow> nat \<Rightarrow> nat \<Rightarrow> (nat \<times> nat \<times> string) option" where
  "hex_group [] off acc = Some (off, acc, [])"
| "hex_group (c # cs) off acc =
     (case hex_val c of
        None \<Rightarrow> Some (off, acc, c # cs)
      | Some d \<Rightarrow> if 3 < off then None else hex_group cs (off + 1) (acc * 16 + d))"

text \<open>The loop of \<open>parseIPv6\<close>: \<open>ip\<close> holds the bytes stored so far.\<close>

function parse_v6_loop ::
  "string \<Rightarrow> nat list \<Rightarrow> nat option \<Rightarrow> (string \<times> nat list \<times> nat option) option" where
  "parse_v6_loop s ip ell =
     (if 16 \<le> length ip then Some (s, ip, ell)
      else case hex_group s 0 0 of
        None \<Rightarrow> None
      | Some (off, acc, rest) \<Rightarrow>
          if off = 0 then None
          else if has_prefix rest ''.'' then
            (if ell = None \<and> length ip \<noteq> 12 then None
             else if 16 < length ip + 4 then None
             else case parse_v4 s of None \<Rightarrow> None | Some fs \<Rightarrow> Some ([], ip @ fs, ell))
          else let ip' = ip @ [acc div 256, acc mod 256] in
            (case rest of
               [] \<Rightarrow> Some ([], ip', ell)
             | c # rest' \<Rightarrow>
                 if c \<noteq> CHR '':'' then None
                 else if rest' = [] then None
                 else if has_prefix rest' '':'' then
                   (if ell \<noteq> None then None
                    else if tl rest' = [] then Some ([], ip', Some (length ip'))
                    else parse_v6_loop (tl rest') ip' (Some (length ip')))
                 else parse_v6_loop rest' ip' ell))"
  by pat_completeness auto
termination
  by (relation "measure (\<lambda>(s, ip, ell). 16 - length ip)") auto

declare parse_v6_loop.simps [simp del]

text \<open>What \<open>parseIPv6\<close> does after its loop: the whole input used, the ellipsis expanded.\<close>

definition expand_v6 :: "string \<Rightarrow> nat list \<Rightarrow> nat option \<Rightarrow> nat list option" where
  "expand_v6 s ip ell =
     (if s \<noteq> [] then None
      else if length ip < 16 then
        (case ell of
           None \<Rightarrow> None
         | Some e \<Rightarrow> Some (take e ip @ replicate (16 - length ip) 0 @ drop e ip))
      else if ell \<noteq> None then None
      else Some ip)"

definition parse_v6 :: "string \<Rightarrow> addr option" where
  "parse_v6 inp =
     (let (s, zone, zone_ok) =
        (case index_byte CHR ''%'' inp of
           None \<Rightarrow> (inp, [], True)
         | Some i \<Rightarrow> (take i inp, drop (i + 1) inp, drop (i + 1) inp \<noteq> []));
          (s', ell) = (if has_prefix s ''::'' then (drop 2 s, Some 0) else (s, None))
      in if \<not> zone_ok then None
         else if ell \<noteq> None \<and> s' = [] then Some (V6 (replicate 16 0) zone)
         else case parse_v6_loop s' [] ell of
             None \<Rightarrow> None
           | Some (rest, ip, ell') \<Rightarrow>
               map_option (\<lambda>bs. V6 bs zone) (expand_v6 rest ip ell'))"

text \<open>\<open>netip.ParseAddr\<close>: the first of the bytes \<open>. : %\<close> decides.\<close>

fun parse_addr_scan :: "string \<Rightarrow> string \<Rightarrow> addr option" where
  "parse_addr_scan s [] = None"
| "parse_addr_scan s (c # cs) =
     (if c = CHR ''.'' then map_option V4 (parse_v4 s)
      else if c = CHR '':'' then parse_v6 s
      else if c = CHR ''%'' then None
      else parse_addr_scan s cs)"

definition parse_addr :: "string \<Rightarrow> addr option" where
  "parse_addr s = parse_addr_scan s s"

subsection \<open>Printing IP literals\<close>

definition string4 :: "nat list \<Rightarrow> string" where
  "string4 bs = itoa (bs ! 0) @ ''.'' @ itoa (bs ! 1) @ ''.'' @ itoa (bs ! 2) @ ''.'' @ itoa (bs ! 3)"

definition hex_digit :: "nat \<Rightarrow> char" where
  "hex_digit n = (if n < 10 then char_of (48 + n) else char_of (87 + n))"

fun append_hex :: "nat \<Rightarrow> string" where
  "append_hex n = (if n < 16 then [hex_digit n] else append_hex (n div 16) @ [hex_digit (n mod 16)])"

declare append_hex.simps [simp del]

definition group16 :: "nat list \<Rightarrow> nat \<Rightarrow> nat" where
  "group16 bs i = bs ! (2 * i) * 256 + bs ! (2 * i + 1)"

text \<open>The longest run of at least two zero groups, the first one on a tie.\<close>

definition zero_run :: "nat list \<Rightarrow> nat \<Rightarrow> nat" where
  "zero_run bs i = length (takeWhile (\<lambda>j. group16 bs j = 0) [i..<8])"

definition best_run :: "nat list \<Rightarrow> (nat \<times> nat) option" where
  "best_run bs =
     foldl (\<lambda>best i. let l = zero_run bs i
                     in if 2 \<le> l \<and> (case best of None \<Rightarrow> True | Some (b, e) \<Rightarrow> e - b < l)
                        then Some (i, i + l) else best) None [0..<8]"

fun join_colon :: "string list \<Rightarrow> string" where
  "join_colon [] = []"
| "join_colon [g] = g"
| "join_colon (g # gs) = g @ '':'' @ join_colon gs"

definition string6 :: "nat list \<Rightarrow> string" where
  "string6 bs =
     (let gs = map (\<lambda>i. append_hex (group16 bs i)) [0..<8]
      in case best_run bs of
           None \<Rightarrow> join_colon gs
         | Some (b, e) \<Rightarrow> join_colon (take b gs) @ ''::'' @ join_colon (drop e gs))"

definition zone_suffix :: "string \<Rightarrow> string" where
  "zone_suffix z = (if z = [] then [] else ''%'' @ z)"

fun addr_string :: "addr \<Rightarrow> string" where
  "addr_string (V4 bs) = string4 bs"
| "addr_string (V6 bs z) =
     (if take 12 bs = replicate 10 0 @ [255, 255]
      then ''::ffff:'' @ string4 (drop 12 bs) @ zone_suffix z
      else string6 bs @ zone_suffix z)"

subsection \<open>IP addresses of package net\<close>

text \<open>\<open>net.ParseIP\<close>: the 16-byte form, \<open>nil\<close> for a zone; \<open>IP.Equal\<close> on two of them.\<close>

definition parse_ip :: "string \<Rightarrow> nat list option" where
  "parse_ip s =
     (case parse_addr s of
        None \<Rightarrow> None
      | Some (V4 bs) \<Rightarrow> Some (replicate 10 0 @ [255, 255] @ bs)
      | Some (V6 bs z) \<Rightarrow> if z = [] then Some bs else None)"

subsection \<open>host:port\<close>

definition last_index_byte :: "char \<Rightarrow> string \<Rightarrow> nat option" where
  "last_index_byte c s = map_option (\<lambda>i. length s - 1 - i) (index_byte c (rev s))"

definition split_host_port :: "string \<Rightarrow> (string \<times> string) option" where
  "split_host_port hp =
     (case last_index_byte CHR '':'' hp of
        None \<Rightarrow> None
      | Some i \<Rightarrow>
         (let parts =
            (if has_prefix hp ''['' then
               (case index_byte CHR '']'' hp of
                  None \<Rightarrow> None
                | Some e \<Rightarrow>
                    if e + 1 = length hp then None
                    else if e + 1 = i then Some (drop 1 (take e hp), 1, e + 1)
                    else None)
             else if CHR '':'' \<in> set (take i hp) then None
             else Some (take i hp, 0, 0))
          in case parts of
               None \<Rightarrow> None
             | Some (host, j, k) \<Rightarrow>
                 if CHR ''['' \<in> set (drop j hp) then None
                 else if CHR '']'' \<in> set (drop k hp) then None
                 else Some (host, drop (i + 1) hp)))"

definition join_host_port :: "string \<Rightarrow> string \<Rightarrow> string" where
  "join_host_port host port =
     (if CHR '':'' \<in> set host then ''['' @ host @ '']:'' @ port else host @ '':'' @ port)"

lemmas netip_defs [go_eval] =
  is_digit_def digit_val_def atoi_def parse_v4_def hex_val_def expand_v6_def parse_v6_def
  parse_addr_def parse_ip_def last_index_byte_def split_host_port_def join_host_port_def
  parse_v6_loop.simps

subsection \<open>Facts: decimal integers\<close>

lemma byte_char_of [simp]: "n < 256 \<Longrightarrow> byte (char_of n) = n"
  by (simp add: byte_def)

lemma dec_digit [simp]:
  "k < 10 \<Longrightarrow> is_digit (char_of (48 + k))" "k < 10 \<Longrightarrow> digit_val (char_of (48 + k)) = k"
  by (auto simp: is_digit_def digit_val_def less_eq_char_byte) (simp_all add: byte_def)

lemma itoa_digits: "list_all is_digit (itoa n) \<and> itoa n \<noteq> []"
proof (induction n rule: itoa.induct)
  case (1 n)
  then show ?case by (subst (1 2) itoa.simps) (auto simp: itoa.simps [of n])
qed

lemma dec_value_append: "dec_value n (xs @ ys) = dec_value (dec_value n xs) ys"
  by (induction n xs rule: dec_value.induct) auto

lemma dec_value_itoa [simp]: "dec_value 0 (itoa n) = n"
proof (induction n rule: itoa.induct)
  case (1 n)
  then show ?case by (cases "n < 10") (simp_all add: itoa.simps [of n] dec_value_append)
qed

lemma not_digit [simp]:
  "\<not> is_digit CHR ''-''" "\<not> is_digit CHR ''+''" "\<not> is_digit CHR ''.''" "\<not> is_digit CHR '':''"
  "\<not> is_digit CHR ''%''" "\<not> is_digit CHR ''[''" "\<not> is_digit CHR '']''"
  by (simp_all add: is_digit_def)

lemma itoa_nonmember: "\<not> is_digit c \<Longrightarrow> c \<notin> set (itoa n)"
  using itoa_digits [of n] by (auto simp: list_all_iff)

lemma itoa_no_sign: "\<not> is_digit c \<Longrightarrow> \<not> has_prefix (itoa n) [c]"
  using itoa_nonmember [of c n] by (auto simp: has_prefix_iff)

lemma atoi_itoa:
  assumes "n < 2 ^ 63"
  shows "atoi (itoa n) = Some (int n)"
proof -
  have "\<not> has_prefix (itoa n) ''-''" "\<not> has_prefix (itoa n) ''+''" by (simp_all add: itoa_no_sign)
  moreover have "int n < 2 ^ 63" using assms by (simp add: nat_less_iff)
  moreover have "\<not> int n < - (2 ^ 63)" by simp
  ultimately show ?thesis
    unfolding atoi_def Let_def using itoa_digits [of n] by simp
qed

subsection \<open>Facts: IPv4 literals print and parse back\<close>

lemma itoa_octet:
  assumes "n \<le> 255"
  obtains "n < 10" "itoa n = [char_of (48 + n)]"
  | a b where "0 < a" "a < 10" "b < 10" "n = a * 10 + b" "itoa n = [char_of (48 + a), char_of (48 + b)]"
  | a b c where "0 < a" "a < 10" "b < 10" "c < 10" "n = (a * 10 + b) * 10 + c"
      "itoa n = [char_of (48 + a), char_of (48 + b), char_of (48 + c)]"
proof -
  consider "n < 10" | "10 \<le> n" "n < 100" | "100 \<le> n" using assms by linarith
  then show thesis
  proof cases
    case 1
    then show thesis by (intro that(1)) (simp_all add: itoa.simps [of n])
  next
    case 2
    then show thesis
      by (intro that(2) [of "n div 10" "n mod 10"])
        (auto simp: itoa.simps [of n] itoa.simps [of "n div 10"])
  next
    case 3
    then have "n div 10 div 10 < 10" "10 \<le> n div 10" "0 < n div 10 div 10" using assms by auto
    then show thesis using 3
      by (intro that(3) [of "n div 10 div 10" "n div 10 mod 10" "n mod 10"])
        (auto simp: itoa.simps [of n] itoa.simps [of "n div 10"] itoa.simps [of "n div 10 div 10"])
  qed
qed

lemma parse_v4_loop_octet:
  assumes "n \<le> 255"
  shows "\<exists>c l. is_digit c \<and>
    parse_v4_loop (itoa n @ rest) prev fs 0 0 = parse_v4_loop rest (Some c) fs n l"
  using assms
proof (cases rule: itoa_octet)
  case 1
  then show ?thesis using assms by (auto simp: Let_def intro: dec_digit)
next
  case (2 a b)
  then show ?thesis using assms
    by (intro exI [of _ "char_of (48 + b)"] exI [of _ "Suc (Suc 0)"]) (auto simp: Let_def)
next
  case (3 a b c)
  then show ?thesis using assms
    by (intro exI [of _ "char_of (48 + c)"] exI [of _ "Suc (Suc (Suc 0))"]) (auto simp: Let_def)
qed

lemma parse_v4_loop_dot:
  "is_digit c \<Longrightarrow> length fs < 3 \<Longrightarrow> cs \<noteq> [] \<Longrightarrow>
   parse_v4_loop (CHR ''.'' # cs) (Some c) fs v l = parse_v4_loop cs (Some CHR ''.'') (fs @ [v]) 0 0"
  by auto

lemma parse_v4_string4:
  assumes "a \<le> 255" "b \<le> 255" "c \<le> 255" "d \<le> 255"
  shows "parse_v4 (string4 [a, b, c, d]) = Some [a, b, c, d]"
proof -
  obtain c1 l1 where 1: "is_digit c1" "parse_v4_loop (itoa a @ CHR ''.'' # itoa b @ CHR ''.'' # itoa c @ CHR ''.'' # itoa d) None [] 0 0
      = parse_v4_loop (CHR ''.'' # itoa b @ CHR ''.'' # itoa c @ CHR ''.'' # itoa d) (Some c1) [] a l1"
    using parse_v4_loop_octet [OF assms(1)] by blast
  obtain c2 l2 where 2: "is_digit c2" "parse_v4_loop (itoa b @ CHR ''.'' # itoa c @ CHR ''.'' # itoa d) (Some CHR ''.'') [a] 0 0
      = parse_v4_loop (CHR ''.'' # itoa c @ CHR ''.'' # itoa d) (Some c2) [a] b l2"
    using parse_v4_loop_octet [OF assms(2)] by blast
  obtain c3 l3 where 3: "is_digit c3" "parse_v4_loop (itoa c @ CHR ''.'' # itoa d) (Some CHR ''.'') [a, b] 0 0
      = parse_v4_loop (CHR ''.'' # itoa d) (Some c3) [a, b] c l3"
    using parse_v4_loop_octet [OF assms(3)] by blast
  obtain c4 l4 where 4: "is_digit c4" "parse_v4_loop (itoa d) (Some CHR ''.'') [a, b, c] 0 0
      = parse_v4_loop [] (Some c4) [a, b, c] d l4"
    using parse_v4_loop_octet [OF assms(4), of "[]"] by auto
  show ?thesis
    using 1 2 3 4 itoa_digits by (simp add: parse_v4_def string4_def parse_v4_loop_dot del: parse_v4_loop.simps(2))
qed

lemma parse_addr_scan_skip:
  "list_all is_digit p \<Longrightarrow> parse_addr_scan s (p @ cs) = parse_addr_scan s cs"
  by (induction p) auto

lemma parse_addr_string4:
  assumes "a \<le> 255" "b \<le> 255" "c \<le> 255" "d \<le> 255"
  shows "parse_addr (addr_string (V4 [a, b, c, d])) = Some (V4 [a, b, c, d])"
proof -
  have "parse_addr_scan s (string4 [a, b, c, d]) = map_option V4 (parse_v4 s)" for s
    using itoa_digits [of a] by (simp add: string4_def parse_addr_scan_skip)
  then show ?thesis using parse_v4_string4 [OF assms] by (simp add: parse_addr_def)
qed

subsection \<open>Facts: host:port\<close>

lemma last_index_byte_append [simp]:
  "c \<notin> set q \<Longrightarrow> last_index_byte c (p @ c # q) = Some (length p)"
  by (simp add: last_index_byte_def)

lemma split_join_host_port:
  assumes "CHR ''['' \<notin> set host" "CHR '']'' \<notin> set host"
    and "CHR '':'' \<notin> set port" "CHR ''['' \<notin> set port" "CHR '']'' \<notin> set port"
  shows "split_host_port (join_host_port host port) = Some (host, port)"
proof (cases "CHR '':'' \<in> set host")
  case True
  let ?hp = "(CHR ''['' # host @ '']'') @ CHR '':'' # port"
  have "join_host_port host port = ?hp" using True by (simp add: join_host_port_def)
  moreover have "last_index_byte CHR '':'' ?hp = Some (length host + 2)"
    using last_index_byte_append [OF assms(3), of "CHR ''['' # host @ '']''"] by simp
  moreover have "index_byte CHR '']'' ?hp = Some (length host + 1)"
    using index_byte_append [of "CHR '']''" "CHR ''['' # host" "CHR '':'' # port"] assms(2) by simp
  ultimately show ?thesis using assms by (simp add: split_host_port_def)
next
  case False
  have "join_host_port host port = host @ CHR '':'' # port" using False by (simp add: join_host_port_def)
  moreover have "\<not> has_prefix (host @ CHR '':'' # port) ''[''"
    using assms(1) by (cases host) auto
  ultimately show ?thesis using assms False by (simp add: split_host_port_def)
qed

end
