(* ===== verification/Matcher.thy ===== *)
theory Matcher
  imports Go_Strings "HOL-Library.Sublist"
begin

text \<open>
  The matcher of the blocklist plugin (\<open>plugin/blocklist/matcher.go\<close>): sorted,
  deduplicated and pruned sets of domain subtrees, their lookup by binary search over the
  suffixes of a query name, and the decision that a name is blocked.

  The specification of a set of subtrees is the locale \<open>subtree_set\<close>: a set built from a
  list of names covers a query when the query is one of the names or lies below one of
  them on a label boundary. \<open>newNameSet\<close> and \<open>covers\<close> interpret it. The in-place
  deduplication, which appends to a slice that shares its array with the slice being
  read, is modelled with that array explicit.
\<close>

type_synonym nameSet = "string list"

record matcher =
  block :: nameSet
  allow :: nameSet

subsection \<open>The operations of the name set\<close>

definition has :: "nameSet \<Rightarrow> string \<Rightarrow> bool" where
  "has s name = (let i = search_strings s name in i < length s \<and> s ! i = name)"

function covers :: "nameSet \<Rightarrow> string \<Rightarrow> bool" where
  "covers s name =
     (if name = [] then False
      else if has s name then True
      else case index_byte CHR ''.'' name of
             None \<Rightarrow> False
           | Some i \<Rightarrow> covers s (drop (i + 1) name))"
  by pat_completeness auto
termination
  by (relation "measure (\<lambda>(s, name). length name)") auto

declare covers.simps [simp del]

definition hasAncestor :: "nameSet \<Rightarrow> string \<Rightarrow> bool" where
  "hasAncestor s name =
     (case index_byte CHR ''.'' name of
        None \<Rightarrow> False
      | Some i \<Rightarrow> covers s (drop (i + 1) name))"

text \<open>
  The deduplication loop. \<open>a\<close> is the array behind both \<open>sorted\<close> and \<open>deduped\<close>,
  \<open>i\<close> the position being read, \<open>k\<close> the length of \<open>deduped\<close> and \<open>last_n\<close> the
  local that remembers the previous value.
\<close>

function dedup_loop :: "string list \<Rightarrow> nat \<Rightarrow> nat \<Rightarrow> string \<Rightarrow> string list \<times> nat" where
  "dedup_loop a i k last_n =
     (if i < length a
      then (let n = a ! i
            in if i = 0 \<or> n \<noteq> last_n
               then dedup_loop (a[k := n]) (Suc i) (Suc k) n
               else dedup_loop a (Suc i) k last_n)
      else (a, k))"
  by pat_completeness auto
termination
  by (relation "measure (\<lambda>(a, i, k, l). length a - i)") auto

declare dedup_loop.simps [simp del]

definition newNameSet :: "string list \<Rightarrow> nameSet" where
  "newNameSet names =
     (if names = [] then []
      else let sorted_names = sort names;
               (a, k) = dedup_loop sorted_names 0 0 [];
               deduped = take k a
           in filter (\<lambda>n. \<not> hasAncestor deduped n) deduped)"

subsection \<open>The decision\<close>

definition blocked :: "matcher option \<Rightarrow> string \<Rightarrow> bool" where
  "blocked m qname =
     (case m of
        None \<Rightarrow> False
      | Some m \<Rightarrow>
          if qname = [] then False
          else if covers (allow m) qname then False
          else covers (block m) qname)"

definition size_of :: "matcher option \<Rightarrow> nat" where
  "size_of m = (case m of None \<Rightarrow> 0 | Some m \<Rightarrow> length (block m))"

definition normalizeQuery :: "(nat \<Rightarrow> nat) \<Rightarrow> string \<Rightarrow> string" where
  "normalizeQuery ul qname = trim_suffix (to_lower ul qname) ''.''"

lemmas matcher_defs [go_eval] =
  has_def hasAncestor_def newNameSet_def blocked_def size_of_def normalizeQuery_def

subsection \<open>Subtrees\<close>

text \<open>\<open>in_subtree n q\<close>: the name \<open>q\<close> is \<open>n\<close> or ends in a dot followed by \<open>n\<close>.\<close>

definition in_subtree :: "string \<Rightarrow> string \<Rightarrow> bool" where
  "in_subtree n q \<longleftrightarrow> q = n \<or> (\<exists>p. q = p @ CHR ''.'' # n)"

text \<open>The labels of a name, and the tree order on them.\<close>

primrec labels :: "string \<Rightarrow> string list" where
  "labels [] = [[]]"
| "labels (c # s) =
     (if c = CHR ''.'' then [] # labels s else (c # hd (labels s)) # tl (labels s))"

lemma labels_neq_Nil [simp]: "labels s \<noteq> []"
  by (cases s) auto

lemma Nil_neq_labels [simp]: "[] \<noteq> labels s"
  using labels_neq_Nil [of s] by metis

lemma labels_append_dot: "labels (p @ CHR ''.'' # n) = labels p @ labels n"
proof (induction p)
  case (Cons c p)
  have "hd (labels p @ labels n) = hd (labels p)" "tl (labels p @ labels n) = tl (labels p) @ labels n"
    by simp_all
  with Cons show ?case by auto
qed simp

lemma labels_inject [simp]: "labels s = labels t \<longleftrightarrow> s = t"
proof (induction s arbitrary: t)
  case Nil
  show ?case by (cases t) auto
next
  case (Cons c s)
  show ?case
  proof (cases t)
    case (Cons d u)
    have "labels s = labels u" if "hd (labels s) = hd (labels u)" "tl (labels s) = tl (labels u)"
      using that by (metis labels_neq_Nil list.collapse)
    with Cons Cons.IH [of u] show ?thesis by auto
  qed auto
qed

lemma labels_suffix_split:
  "ls \<noteq> [] \<Longrightarrow> labels q = ls @ labels n \<Longrightarrow> \<exists>p. q = p @ CHR ''.'' # n"
proof (induction q arbitrary: ls)
  case Nil
  then have "length (ls @ labels n) = 1" by (metis labels.simps(1) length_Cons list.size(3) One_nat_def)
  with Nil.prems(1) have "labels n = []" by (cases ls) auto
  then show ?case by simp
next
  case (Cons c q)
  obtain l ls' where ls: "ls = l # ls'" using Cons.prems(1) by (cases ls) auto
  show ?case
  proof (cases "c = CHR ''.''")
    case True
    with Cons.prems ls have eq: "labels q = ls' @ labels n" by simp
    show ?thesis
    proof (cases "ls' = []")
      case True
      with eq \<open>c = _\<close> have "c # q = [] @ CHR ''.'' # n" by simp
      then show ?thesis by blast
    next
      case False
      with Cons.IH eq obtain p where "q = p @ CHR ''.'' # n" by blast
      then have "c # q = (c # p) @ CHR ''.'' # n" by simp
      then show ?thesis by blast
    qed
  next
    case False
    with Cons.prems ls have "tl (labels q) = ls' @ labels n" by simp
    then have "labels q = (hd (labels q) # ls') @ labels n"
      by (metis append_Cons labels_neq_Nil list.collapse)
    with Cons.IH obtain p where "q = p @ CHR ''.'' # n" by blast
    then have "c # q = (c # p) @ CHR ''.'' # n" by simp
    then show ?thesis by blast
  qed
qed

lemma in_subtree_labels [code]: "in_subtree n q \<longleftrightarrow> suffix (labels n) (labels q)"
proof
  assume "in_subtree n q"
  then show "suffix (labels n) (labels q)"
    by (auto simp: in_subtree_def suffix_def labels_append_dot)
next
  assume "suffix (labels n) (labels q)"
  then obtain ls where ls: "labels q = ls @ labels n" by (auto simp: suffix_def)
  show "in_subtree n q"
  proof (cases "ls = []")
    case True
    with ls show ?thesis by (simp add: in_subtree_def)
  next
    case False
    with labels_suffix_split [OF False ls] show ?thesis by (auto simp: in_subtree_def)
  qed
qed

lemma in_subtree_refl [simp]: "in_subtree n n"
  by (simp add: in_subtree_def)

lemma in_subtree_trans: "in_subtree a b \<Longrightarrow> in_subtree b c \<Longrightarrow> in_subtree a c"
  unfolding in_subtree_labels by (rule suffix_order.order_trans)

lemma in_subtree_length: "in_subtree a b \<Longrightarrow> a \<noteq> b \<Longrightarrow> length a < length b"
  by (auto simp: in_subtree_def)

lemma in_subtree_length_le: "in_subtree a b \<Longrightarrow> length a \<le> length b"
  by (auto simp: in_subtree_def)

lemma in_subtree_dot: "in_subtree n q \<Longrightarrow> in_subtree n (p @ CHR ''.'' # q)"
  by (rule in_subtree_trans [of _ q]) (auto simp: in_subtree_def)

subsection \<open>The interface of a set of subtrees\<close>

locale subtree_set =
  fixes build :: "string list \<Rightarrow> 's"
    and cov :: "'s \<Rightarrow> string \<Rightarrow> bool"
  assumes cov_build: "cov (build ns) q \<longleftrightarrow> (\<exists>n\<in>set ns. n \<noteq> [] \<and> in_subtree n q)"
begin

lemma cov_append: "cov (build (xs @ ys)) q \<longleftrightarrow> cov (build xs) q \<or> cov (build ys) q"
  by (auto simp: cov_build)

lemma cov_cong: "set xs = set ys \<Longrightarrow> cov (build xs) q = cov (build ys) q"
  by (simp add: cov_build)

lemma cov_mono: "set xs \<subseteq> set ys \<Longrightarrow> cov (build xs) q \<Longrightarrow> cov (build ys) q"
  by (auto simp: cov_build)

lemma cov_below: "cov (build ns) q \<Longrightarrow> cov (build ns) (p @ CHR ''.'' # q)"
  by (auto simp: cov_build intro: in_subtree_dot)

lemma cov_member: "n \<in> set ns \<Longrightarrow> n \<noteq> [] \<Longrightarrow> cov (build ns) n"
  by (auto simp: cov_build)

lemma cov_empty: "\<not> cov (build []) q"
  by (simp add: cov_build)

end

subsection \<open>Lookup is correct on a sorted set\<close>

lemma has_iff: "sorted s \<Longrightarrow> has s n \<longleftrightarrow> n \<in> set s"
  using search_strings_member [of s n] by (simp add: has_def Let_def)

lemma in_subtree_first_dot:
  assumes "CHR ''.'' \<notin> set h"
  shows "in_subtree n (h @ CHR ''.'' # t) \<longleftrightarrow> n = h @ CHR ''.'' # t \<or> in_subtree n t"
proof -
  have "in_subtree n t" if eq: "h @ CHR ''.'' # t = p @ CHR ''.'' # n" for p
  proof -
    from eq consider us where "p = h @ us" "CHR ''.'' # t = us @ CHR ''.'' # n"
      | us where "h = p @ us" "us @ CHR ''.'' # t = CHR ''.'' # n"
      by (auto simp: append_eq_append_conv2)
    then show ?thesis
    proof cases
      case (1 us)
      then show ?thesis by (cases us) (auto simp: in_subtree_def)
    next
      case (2 us)
      with assms have "us = []" by (cases us) auto
      with 2 show ?thesis by simp
    qed
  qed
  moreover have "in_subtree n (h @ CHR ''.'' # t)" if "in_subtree n t"
    using that by (rule in_subtree_dot)
  ultimately show ?thesis by (auto simp: in_subtree_def [of n "h @ CHR ''.'' # t"])
qed

lemma in_subtree_no_dot: "CHR ''.'' \<notin> set q \<Longrightarrow> in_subtree n q \<longleftrightarrow> n = q"
  by (auto simp: in_subtree_def)

lemma covers_iff:
  "sorted s \<Longrightarrow> covers s q \<longleftrightarrow> (\<exists>n\<in>set s. n \<noteq> [] \<and> in_subtree n q)"
proof (induction s q rule: covers.induct)
  case (1 s q)
  show ?case
  proof (cases "q = [] \<or> has s q")
    case True
    with has_iff [OF "1.prems", of q] show ?thesis
      by (subst covers.simps) (auto simp: in_subtree_def)
  next
    case False
    then have q: "q \<noteq> []" "\<not> has s q" "q \<notin> set s" using has_iff [OF "1.prems"] by auto
    show ?thesis
    proof (cases "index_byte CHR ''.'' q")
      case None
      then have "CHR ''.'' \<notin> set q" by (simp add: index_byte_None)
      with q None show ?thesis by (subst covers.simps) (auto simp: in_subtree_no_dot)
    next
      case (Some i)
      from index_byte_SomeD [OF Some] have
        eq: "q = take i q @ CHR ''.'' # drop (i + 1) q" and nd: "CHR ''.'' \<notin> set (take i q)"
        by auto
      have "in_subtree n q \<longleftrightarrow> n = q \<or> in_subtree n (drop (i + 1) q)" for n
        using in_subtree_first_dot [OF nd, of n "drop (i + 1) q"] eq by metis
      with 1 Some q show ?thesis by (subst covers.simps) auto
    qed
  qed
qed

lemma hasAncestor_iff:
  assumes "sorted s"
  shows "hasAncestor s q \<longleftrightarrow> (\<exists>n\<in>set s. n \<noteq> [] \<and> n \<noteq> q \<and> in_subtree n q)"
proof (cases "index_byte CHR ''.'' q")
  case None
  then have "CHR ''.'' \<notin> set q" by (simp add: index_byte_None)
  with None show ?thesis by (auto simp: hasAncestor_def in_subtree_no_dot)
next
  case (Some i)
  from index_byte_SomeD [OF Some] have
    eq: "q = take i q @ CHR ''.'' # drop (i + 1) q" and nd: "CHR ''.'' \<notin> set (take i q)"
    by auto
  let ?t = "drop (i + 1) q"
  have "n \<noteq> q \<and> in_subtree n q \<longleftrightarrow> in_subtree n ?t" for n
  proof -
    have "in_subtree n q \<longleftrightarrow> n = q \<or> in_subtree n ?t"
      using in_subtree_first_dot [OF nd, of n ?t] eq by metis
    moreover have "\<not> in_subtree q ?t"
    proof
      assume *: "in_subtree q ?t"
      have "i < length q" using index_byte_SomeD [OF Some] by blast
      then have "length ?t < length q" by simp
      moreover from * have "length q \<le> length ?t" by (rule in_subtree_length_le)
      ultimately show False by simp
    qed
    ultimately show ?thesis by auto
  qed
  with Some covers_iff [OF assms, of ?t] show ?thesis by (auto simp: hasAncestor_def)
qed

subsection \<open>The in-place deduplication\<close>

lemma remdups_adj_take_Suc:
  assumes "Suc i < length s"
  shows "remdups_adj (take (Suc (Suc i)) s) =
    remdups_adj (take (Suc i) s) @ (if s ! i = s ! Suc i then [] else [s ! Suc i])"
proof -
  have "take (Suc (Suc i)) s = take i s @ [s ! i, s ! Suc i]"
    using assms by (simp add: take_Suc_conv_app_nth)
  moreover have "take (Suc i) s = take i s @ [s ! i]"
    using assms by (simp add: take_Suc_conv_app_nth)
  ultimately show ?thesis by (simp add: remdups_adj_append_two)
qed

text \<open>
  What the loop keeps: the part still to be read is untouched, and the part written so
  far is the deduplication of the part read.
\<close>

definition dedup_inv :: "string list \<Rightarrow> string list \<Rightarrow> nat \<Rightarrow> nat \<Rightarrow> string \<Rightarrow> bool" where
  "dedup_inv s a i k l \<longleftrightarrow>
     length a = length s \<and> i \<le> length s \<and> k \<le> i \<and> drop i a = drop i s \<and>
     take k a = remdups_adj (take i s) \<and> (0 < i \<longrightarrow> l = s ! (i - 1))"

lemma dedup_inv_read:
  "dedup_inv s a i k l \<Longrightarrow> i < length s \<Longrightarrow> a ! i = s ! i"
  unfolding dedup_inv_def by (metis hd_drop_conv_nth)

lemma dedup_inv_keep:
  assumes "dedup_inv s a i k l" "i < length s" "i = 0 \<or> s ! i \<noteq> l"
  shows "dedup_inv s (a[k := s ! i]) (Suc i) (Suc k) (s ! i)"
proof -
  from assms(1) have *: "length a = length s" "k \<le> i" "drop i a = drop i s"
    "take k a = remdups_adj (take i s)" "0 < i \<longrightarrow> l = s ! (i - 1)"
    by (auto simp: dedup_inv_def)
  have "drop (Suc i) (a[k := s ! i]) = drop (Suc i) s"
    using * by (simp add: drop_Suc flip: drop_tl) (metis drop_Suc drop_tl drop_update_cancel le_imp_less_Suc)
  moreover have "take (Suc k) (a[k := s ! i]) = take k a @ [s ! i]"
    using * assms(2) by (simp add: take_Suc_conv_app_nth)
  moreover have "remdups_adj (take (Suc i) s) = remdups_adj (take i s) @ [s ! i]"
  proof (cases i)
    case 0
    with assms(2) show ?thesis by (simp add: take_Suc_conv_app_nth)
  next
    case (Suc j)
    with * assms remdups_adj_take_Suc [of j s] show ?thesis by auto
  qed
  ultimately show ?thesis using * assms(2) by (simp add: dedup_inv_def)
qed

lemma dedup_inv_drop:
  assumes "dedup_inv s a i k l" "i < length s" "0 < i" "s ! i = l"
  shows "dedup_inv s a (Suc i) k l"
proof -
  obtain j where j: "i = Suc j" using assms(3) by (cases i) auto
  from assms(1) have *: "length a = length s" "k \<le> i" "drop i a = drop i s"
    "take k a = remdups_adj (take i s)" "l = s ! j"
    using j by (auto simp: dedup_inv_def)
  have "drop (Suc i) a = drop (Suc i) s" using *(3) by (metis drop_Suc drop_tl tl_drop)
  moreover have "remdups_adj (take (Suc i) s) = remdups_adj (take i s)"
    using remdups_adj_take_Suc [of j s] j * assms(2,4) by simp
  ultimately show ?thesis using * assms j by (simp add: dedup_inv_def)
qed

lemma dedup_loop_inv:
  "dedup_inv s a i k l \<Longrightarrow> dedup_loop a i k l = (a', k') \<Longrightarrow> take k' a' = remdups_adj s"
proof (induction a i k l rule: dedup_loop.induct)
  case (1 a i k l)
  have len: "length a = length s" using "1.prems"(1) by (simp add: dedup_inv_def)
  show ?case
  proof (cases "i < length a")
    case True
    then have i: "i < length s" "a ! i = s ! i" using dedup_inv_read [OF "1.prems"(1)] len by auto
    show ?thesis
    proof (cases "i = 0 \<or> s ! i \<noteq> l")
      case keep: True
      with 1 True i show ?thesis
        by (auto simp: dedup_loop.simps [of a i k l] Let_def dedup_inv_keep)
    next
      case False
      with 1 True i show ?thesis
        by (auto simp: dedup_loop.simps [of a i k l] Let_def dedup_inv_drop)
    qed
  next
    case False
    with 1 len show ?thesis by (simp add: dedup_loop.simps [of a i k l] dedup_inv_def)
  qed
qed

lemma dedup_loop_remdups_adj:
  assumes "dedup_loop s 0 0 [] = (a, k)"
  shows "take k a = remdups_adj s"
  by (rule dedup_loop_inv [OF _ assms]) (simp add: dedup_inv_def)

subsection \<open>The set built is canonical and covers what was listed\<close>

lemma newNameSet_eq:
  "newNameSet ns =
     filter (\<lambda>n. \<not> hasAncestor (remdups_adj (sort ns)) n) (remdups_adj (sort ns))"
  using dedup_loop_remdups_adj [of "sort ns"]
  by (cases "dedup_loop (sort ns) 0 0 []") (auto simp: newNameSet_def Let_def)

lemma sorted_newNameSet [simp]: "sorted (newNameSet ns)"
  by (simp add: newNameSet_eq filter_sorted)

lemma distinct_newNameSet [simp]: "distinct (newNameSet ns)"
  by (simp add: newNameSet_eq sorted_remdups_adj_distinct)

lemma set_newNameSet:
  "set (newNameSet ns) =
     {n \<in> set ns. \<not> (\<exists>a\<in>set ns. a \<noteq> [] \<and> a \<noteq> n \<and> in_subtree a n)}"
  by (auto simp: newNameSet_eq hasAncestor_iff)

text \<open>Every listed name has a listed ancestor (or itself) that survives pruning.\<close>

lemma newNameSet_representative:
  "n \<in> set ns \<Longrightarrow> n \<noteq> [] \<Longrightarrow> \<exists>a\<in>set (newNameSet ns). a \<noteq> [] \<and> in_subtree a n"
proof (induction "length n" arbitrary: n rule: less_induct)
  case less
  show ?case
  proof (cases "n \<in> set (newNameSet ns)")
    case True
    with less.prems show ?thesis by auto
  next
    case False
    with less.prems obtain a where a: "a \<in> set ns" "a \<noteq> []" "a \<noteq> n" "in_subtree a n"
      by (auto simp: set_newNameSet)
    with in_subtree_length [of a n] less.hyps [of a] show ?thesis
      by (blast intro: in_subtree_trans)
  qed
qed

lemma covers_newNameSet:
  "covers (newNameSet ns) q \<longleftrightarrow> (\<exists>n\<in>set ns. n \<noteq> [] \<and> in_subtree n q)"
proof -
  have "(\<exists>n\<in>set (newNameSet ns). n \<noteq> [] \<and> in_subtree n q) \<longleftrightarrow>
        (\<exists>n\<in>set ns. n \<noteq> [] \<and> in_subtree n q)"
  (is "?pruned \<longleftrightarrow> ?listed")
  proof
    assume ?listed
    then obtain n where n: "n \<in> set ns" "n \<noteq> []" "in_subtree n q" by blast
    from newNameSet_representative [OF n(1,2)] n(3) show ?pruned
      by (blast intro: in_subtree_trans)
  qed (auto simp: set_newNameSet)
  then show ?thesis by (simp add: covers_iff)
qed

interpretation names: subtree_set newNameSet covers
  by unfold_locales (rule covers_newNameSet)

subsection \<open>Properties\<close>

text \<open>
  The deduplication that writes into the array it is reading from gives the same list
  as removing adjacent duplicates from an untouched copy, on every input, so no value is
  read after it has been overwritten.
\<close>

theorem dedup_in_place_correct:
  "(case dedup_loop names 0 0 [] of (a, k) \<Rightarrow> take k a) = remdups_adj names"
  by (cases "dedup_loop names 0 0 []") (simp add: dedup_loop_remdups_adj)

text \<open>
  C1: a name set built from a list covers a name exactly when the name's labels end in the
  labels of a listed (non-empty) name: sorting, deduplication, pruning of names below a
  listed ancestor and binary search change nothing about what is matched, and a match is
  always on a label boundary.
\<close>

theorem newNameSet_covers_subtrees:
  "covers (newNameSet names) q \<longleftrightarrow>
     (\<exists>n\<in>set names. n \<noteq> [] \<and> suffix (labels n) (labels q))"
  by (simp add: names.cov_build in_subtree_labels)

text \<open>
  C26: the set built is in canonical form: strictly sorted, drawn from the listed names, and
  exactly the listed names that lie below no other listed name are kept, so pruning keeps
  as few names as the matching allows.
\<close>

theorem newNameSet_canonical:
  "sorted_wrt (<) (newNameSet names) \<and>
   set (newNameSet names) =
     {n \<in> set names. \<not> (\<exists>a\<in>set names. a \<noteq> [] \<and> a \<noteq> n \<and> suffix (labels a) (labels n))}"
proof
  show "sorted_wrt (<) (newNameSet names)"
    by (simp add: strict_sorted_iff)
  show "set (newNameSet names) =
     {n \<in> set names. \<not> (\<exists>a\<in>set names. a \<noteq> [] \<and> a \<noteq> n \<and> suffix (labels a) (labels n))}"
    by (simp add: set_newNameSet in_subtree_labels)
qed

text \<open>
  C2: the decision on a query name: with lists built by \<open>newNameSet\<close>, a name is blocked
  exactly when it is in the subtree of a listed block name and in no subtree of an allow
  name; so an allow entry wins over every block entry, and the empty name and the nil
  matcher block nothing.
\<close>

theorem blocked_iff:
  "(blocked (Some \<lparr>block = newNameSet bs, allow = newNameSet as\<rparr>) q \<longleftrightarrow>
      q \<noteq> [] \<and> (\<exists>n\<in>set bs. n \<noteq> [] \<and> in_subtree n q) \<and>
      \<not> (\<exists>n\<in>set as. n \<noteq> [] \<and> in_subtree n q)) \<and>
   \<not> blocked None q"
  by (auto simp: blocked_def names.cov_build)

end
