(* ===== verification/Parse.thy ===== *)
theory Parse
  imports Matcher Go_Netip
begin

text \<open>
  The list parser of the blocklist plugin (\<open>plugin/blocklist/parse.go\<close>): lines of an
  \<open>/etc/hosts\<close> or bare-domain list, normalisation of an entry, and the checks that an entry
  is an IP literal or a name that can be queried. \<open>bufio.Scanner\<close> is modelled by the
  lines it yields under the buffer limit the code sets: a line that fills the buffer
  without a newline ends the scan with an error, and so does a read error of the source.
\<close>

subsection \<open>Names\<close>

definition localNames :: "string list" where
  "localNames =
     [''localhost'', ''localhost.localdomain'', ''local'', ''broadcasthost'',
      ''ip6-localhost'', ''ip6-loopback'', ''ip6-localnet'', ''ip6-mcastprefix'',
      ''ip6-allnodes'', ''ip6-allrouters'', ''ip6-allhosts'']"

definition isIP :: "string \<Rightarrow> bool" where
  "isIP s =
     (let s = (case index_byte CHR ''%'' s of Some i \<Rightarrow> take i s | None \<Rightarrow> s)
      in parse_addr s \<noteq> None)"

definition name_char :: "char \<Rightarrow> bool" where
  "name_char c \<longleftrightarrow>
     (CHR ''a'' \<le> c \<and> c \<le> CHR ''z'') \<or> (CHR ''0'' \<le> c \<and> c \<le> CHR ''9'') \<or>
     c = CHR ''-'' \<or> c = CHR ''_''"

fun isDomainName_loop :: "string \<Rightarrow> nat \<Rightarrow> bool" where
  "isDomainName_loop [] labelLen = (0 < labelLen)"
| "isDomainName_loop (c # cs) labelLen =
     (if c = CHR ''.'' then
        (if labelLen = 0 then False else isDomainName_loop cs 0)
      else if name_char c then
        (if 63 < labelLen + 1 then False else isDomainName_loop cs (labelLen + 1))
      else False)"

definition isDomainName :: "string \<Rightarrow> bool" where
  "isDomainName s = (if 253 < length s then False else isDomainName_loop s 0)"

definition normalizeEntry :: "(nat \<Rightarrow> nat) \<Rightarrow> string \<Rightarrow> string option" where
  "normalizeEntry ul s0 =
     (let s = to_lower ul (trim_space s0);
          s = trim_suffix s ''.'';
          s = trim_prefix s ''*.'';
          s = trim_prefix s ''.''
      in if s = [] \<or> isIP s \<or> \<not> contains_str s ''.'' \<or> \<not> isDomainName s then None
         else if s \<in> set localNames then None
         else Some s)"

subsection \<open>Lines\<close>

datatype parse_error = ErrTooLong | ReadError string

text \<open>A source of bytes: what it delivers, and the error it ends with instead of EOF.\<close>

record reader =
  rd_data :: string
  rd_err :: "string option"

definition maxTokenSize :: nat where
  "maxTokenSize = 1024 * 1024"

definition drop_cr :: "string \<Rightarrow> string" where
  "drop_cr s = trim_suffix s [CHR 0x0D]"

text \<open>The tokens of the scanner, and whether it stopped at a line that is too long.\<close>

function scan_lines :: "nat \<Rightarrow> string \<Rightarrow> string list \<times> bool" where
  "scan_lines mx s =
     (if s = [] then ([], False)
      else case index_byte CHR 0x0A s of
        None \<Rightarrow> if mx \<le> length s then ([], True) else ([drop_cr s], False)
      | Some i \<Rightarrow>
          if mx \<le> i then ([], True)
          else (case scan_lines mx (drop (i + 1) s) of
                  (ls, e) \<Rightarrow> (drop_cr (take i s) # ls, e)))"
  by pat_completeness auto
termination
  by (relation "measure (\<lambda>(mx, s). length s)") auto

declare scan_lines.simps [simp del]

text \<open>One iteration of the scan loop: the names a line contributes.\<close>

definition parse_line :: "(nat \<Rightarrow> nat) \<Rightarrow> string \<Rightarrow> string list" where
  "parse_line ul l =
     (let line = (case index_byte CHR ''#'' l of Some i \<Rightarrow> take i l | None \<Rightarrow> l);
          line = trim_space line
      in if line = [] then []
         else let fs = str_fields line;
                  candidates =
                    (if 2 \<le> length fs \<and> isIP (hd fs) then tl fs
                     else if length fs = 1 then fs
                     else [])
              in List.map_filter (normalizeEntry ul) candidates)"

definition parseList :: "(nat \<Rightarrow> nat) \<Rightarrow> reader \<Rightarrow> (parse_error, string list) result" where
  "parseList ul r =
     (case scan_lines maxTokenSize (rd_data r) of
        (ls, too_long) \<Rightarrow>
          let out = concat (map (parse_line ul) ls)
          in if too_long then Err ErrTooLong
             else case rd_err r of Some e \<Rightarrow> Err (ReadError e) | None \<Rightarrow> Ok out)"

lemmas parse_defs [go_eval] =
  localNames_def isIP_def name_char_def isDomainName_def normalizeEntry_def drop_cr_def
  parse_line_def parseList_def scan_lines.simps maxTokenSize_def

subsection \<open>What a blockable name is\<close>

text \<open>A label of a name as a query can carry it.\<close>

definition valid_label :: "string \<Rightarrow> bool" where
  "valid_label l \<longleftrightarrow> l \<noteq> [] \<and> length l \<le> 63 \<and> list_all name_char l"

definition blockable :: "string \<Rightarrow> bool" where
  "blockable n \<longleftrightarrow>
     length n \<le> 253 \<and> 2 \<le> length (labels n) \<and> list_all valid_label (labels n) \<and>
     \<not> isIP n \<and> n \<notin> set localNames"

lemma length_labels_dot: "2 \<le> length (labels s) \<longleftrightarrow> CHR ''.'' \<in> set s"
proof (induction s)
  case (Cons c s)
  have "1 \<le> length (labels s)" by (cases "labels s") auto
  then have "length (tl (labels s)) = length (labels s) - 1" "1 \<le> length (labels s)" by simp_all
  with Cons show ?case by auto
qed simp

lemma isDomainName_loop_labels:
  "isDomainName_loop s k \<longleftrightarrow>
     k + length (hd (labels s)) \<le> max 63 k \<and> 0 < k + length (hd (labels s)) \<and>
     list_all name_char (hd (labels s)) \<and> list_all valid_label (tl (labels s))"
proof (induction s k rule: isDomainName_loop.induct)
  case (2 c s k)
  have "list_all valid_label (labels s) \<longleftrightarrow>
      valid_label (hd (labels s)) \<and> list_all valid_label (tl (labels s))"
    by (cases "labels s") auto
  then have split: "list_all valid_label (labels s) \<longleftrightarrow>
      hd (labels s) \<noteq> [] \<and> length (hd (labels s)) \<le> 63 \<and>
      list_all name_char (hd (labels s)) \<and> list_all valid_label (tl (labels s))"
    by (simp add: valid_label_def [of "hd (labels s)"])
  show ?case
  proof (cases "c = CHR ''.''")
    case True
    with 2 show ?thesis by (auto simp: split)
  next
    case False
    with 2 show ?thesis by auto
  qed
qed auto

lemma isDomainName_iff:
  "isDomainName s \<longleftrightarrow> length s \<le> 253 \<and> list_all valid_label (labels s)"
proof -
  have "list_all valid_label (labels s) \<longleftrightarrow>
      valid_label (hd (labels s)) \<and> list_all valid_label (tl (labels s))"
    by (cases "labels s") auto
  then show ?thesis
    by (auto simp: isDomainName_def isDomainName_loop_labels valid_label_def [of "hd (labels s)"])
qed

lemma blockable_alt:
  "blockable n \<longleftrightarrow> isDomainName n \<and> contains_str n ''.'' \<and> \<not> isIP n \<and> n \<notin> set localNames"
  by (auto simp: blockable_def isDomainName_iff length_labels_dot)

lemma normalizeEntry_blockable: "normalizeEntry ul s = Some n \<Longrightarrow> blockable n"
  by (auto simp: normalizeEntry_def blockable_alt Let_def split: if_splits)

subsection \<open>A blockable name is its own normal form\<close>

lemma name_char_bytes:
  "name_char c \<longleftrightarrow>
     97 \<le> byte c \<and> byte c \<le> 122 \<or> 48 \<le> byte c \<and> byte c \<le> 57 \<or> byte c = 45 \<or> byte c = 95"
proof -
  have "byte CHR ''a'' = 97" "byte CHR ''z'' = 122" "byte CHR ''0'' = 48" "byte CHR ''9'' = 57"
    "byte CHR ''-'' = 45" "byte CHR ''_'' = 95"
    by (simp_all add: byte_def)
  then show ?thesis unfolding name_char_def less_eq_char_byte by (metis byte_inject)
qed

lemma name_char_plain: "name_char c \<Longrightarrow> byte c < 128 \<and> \<not> is_space (byte c)"
  by (auto simp: name_char_bytes is_space_def)

lemma name_char_lower: "name_char c \<Longrightarrow> lower_byte c = c"
proof -
  have "byte CHR ''A'' = 65" "byte CHR ''Z'' = 90" by (simp_all add: byte_def)
  then show "name_char c \<Longrightarrow> lower_byte c = c"
    by (auto simp: lower_byte_def name_char_bytes less_eq_char_byte)
qed

lemma isDomainName_loop_chars:
  "isDomainName_loop s k \<Longrightarrow> c \<in> set s \<Longrightarrow> name_char c \<or> c = CHR ''.''"
  by (induction s k rule: isDomainName_loop.induct) (auto split: if_splits)

lemma blockable_chars: "blockable n \<Longrightarrow> c \<in> set n \<Longrightarrow> name_char c \<or> c = CHR ''.''"
  by (auto simp: blockable_alt isDomainName_def dest: isDomainName_loop_chars split: if_splits)

lemma dot_plain [simp]:
  "byte CHR ''.'' = 46" "\<not> is_space 46" "lower_byte CHR ''.'' = CHR ''.''"
  by (simp_all add: byte_def is_space_def lower_byte_def)

lemma star_plain [simp]: "byte CHR ''*'' = 42" "\<not> is_space 42" "lower_byte CHR ''*'' = CHR ''*''"
  by (simp_all add: byte_def is_space_def lower_byte_def)

lemma blockable_plain: "blockable n \<Longrightarrow> plain n"
  using name_char_plain by (auto simp: plain_def list_all_iff dest!: blockable_chars)

lemma blockable_lower: "blockable n \<Longrightarrow> map lower_byte n = n"
  by (rule map_idI) (auto dest!: blockable_chars simp: name_char_lower)

lemma blockable_not_Nil: "blockable n \<Longrightarrow> n \<noteq> []"
  by (auto simp: blockable_alt)

lemma blockable_no_char: "blockable n \<Longrightarrow> \<not> name_char c \<Longrightarrow> c \<noteq> CHR ''.'' \<Longrightarrow> c \<notin> set n"
  using blockable_chars by blast

lemma blockable_not_suffix: "blockable n \<Longrightarrow> \<not> has_suffix n ''.''"
  by (auto simp: blockable_def has_suffix_iff labels_append_dot valid_label_def)

lemma blockable_not_prefix: "blockable n \<Longrightarrow> \<not> has_prefix n ''.''"
  by (auto simp: blockable_def has_prefix_iff valid_label_def)

lemma blockable_not_star: "blockable n \<Longrightarrow> \<not> has_prefix n (CHR ''*'' # p)"
  using blockable_chars [of n "CHR ''*''"] by (auto simp: has_prefix_iff name_char_bytes)

lemma plain_ascii: "plain s \<Longrightarrow> is_ascii s"
  by (auto simp: plain_def is_ascii_def list_all_iff)

lemma normalizeEntry_prefixed:
  assumes n: "blockable n" and p: "p \<in> {[], ''*.'', ''.''}" and q: "q \<in> {[], ''.''}"
  shows "normalizeEntry ul (p @ n @ q) = Some n"
proof -
  note facts = blockable_plain [OF n] blockable_lower [OF n] blockable_not_suffix [OF n]
    blockable_not_prefix [OF n] blockable_not_star [OF n, of "''.''"]
  have pl: "plain (p @ n @ q)" using p q facts by auto
  have low: "to_lower ul (trim_space (p @ n @ q)) = p @ n @ q"
    using p q facts pl by (auto simp: to_lower_ascii [OF plain_ascii])
  have nosuf: "\<not> has_suffix (p @ n) ''.''"
    using blockable_not_suffix [OF n] blockable_not_Nil [OF n] by (auto simp: has_suffix_iff append_eq_append_conv2 append_eq_Cons_conv)
  have suf: "trim_suffix (p @ n @ q) ''.'' = p @ n"
    using q trim_suffix_append [of "p @ n" "''.''"] trim_suffix_id [OF nosuf] by auto
  have "trim_prefix (trim_prefix (p @ n) ''*.'') ''.'' = n"
    using p facts trim_prefix_append [of "''*.''" n] trim_prefix_append [of "''.''" n]
    by (auto simp: trim_prefix_id)
  then show ?thesis using n
    by (auto simp: normalizeEntry_def low suf Let_def blockable_alt)
qed

lemma normalizeEntry_idem: "normalizeEntry ul s = Some n \<Longrightarrow> normalizeEntry ul n = Some n"
  using normalizeEntry_prefixed [of n "[]" "[]" ul] normalizeEntry_blockable [of ul s n] by simp

subsection \<open>Lists as the publishers write them\<close>

text \<open>
  The addresses hosts files map unwanted names to: the unspecified and the loopback address
  of either family. A line of a list is written in one of these styles, with either line
  ending.
\<close>

datatype sinkhole = Unspecified4 | Loopback4 | Unspecified6 | Loopback6

fun sink_addr :: "sinkhole \<Rightarrow> string" where
  "sink_addr Unspecified4 = ''0.0.0.0''"
| "sink_addr Loopback4 = ''127.0.0.1''"
| "sink_addr Unspecified6 = ''::''"
| "sink_addr Loopback6 = ''::1''"

datatype entry_style = Bare | Wildcard | Dotted | Rooted | HostsFile sinkhole

fun render_entry :: "entry_style \<Rightarrow> string \<Rightarrow> string" where
  "render_entry Bare n = n"
| "render_entry Wildcard n = ''*.'' @ n"
| "render_entry Dotted n = ''.'' @ n"
| "render_entry Rooted n = n @ ''.''"
| "render_entry (HostsFile a) n = sink_addr a @ '' '' @ n"

definition render_line :: "entry_style \<times> bool \<times> string \<Rightarrow> string" where
  "render_line e = (case e of (st, crlf, n) \<Rightarrow>
     render_entry st n @ (if crlf then [CHR 0x0D, CHR 0x0A] else [CHR 0x0A]))"

lemma isIP_sinkhole: "isIP (sink_addr a)"
proof -
  have "isIP ''0.0.0.0''" "isIP ''127.0.0.1''" "isIP ''::''" "isIP ''::1''" by code_simp+
  then show ?thesis by (cases a) simp_all
qed

lemma plain_sinkhole: "plain (sink_addr a)" "sink_addr a \<noteq> []" "length (sink_addr a) \<le> 9"
  by (cases a; simp add: byte_def is_space_def)+

lemma trim_space_two_words:
  assumes "plain w" "w \<noteq> []" "plain v" "v \<noteq> []"
  shows "trim_space (w @ CHR '' '' # v) = w @ CHR '' '' # v"
proof -
  let ?f = "map (\<lambda>c. (byte c, [c]))"
  have r: "runes (w @ CHR '' '' # v) = ?f w @ (32, '' '') # ?f v"
    using assms by (simp add: runes_plain_append runes_plain byte_def)
  obtain c w' where w: "w = c # w'" using assms by (cases w) auto
  obtain d v' where v: "v = v' @ [d]" using assms by (cases v rule: rev_cases) auto
  have "dropWhile space_rune (?f w @ (32, '' '') # ?f v) = ?f w @ (32, '' '') # ?f v"
    using assms w by simp
  moreover have "dropWhile space_rune (rev (?f w @ (32, '' '') # ?f v)) = rev (?f w @ (32, '' '') # ?f v)"
    using assms v by simp
  moreover have "concat (map snd (?f w @ (32, '' '') # ?f v)) = w @ CHR '' '' # v"
    using concat_runes [of "w @ CHR '' '' # v"] by (simp add: r)
  ultimately show ?thesis unfolding trim_space_def r by simp
qed

lemma parse_line_render:
  assumes n: "blockable n"
  shows "parse_line ul (render_entry st n) = [n]"
proof -
  have pl: "plain n" "n \<noteq> []" using n by (auto simp: blockable_plain blockable_not_Nil)
  have hash: "CHR ''#'' \<notin> set n" using blockable_no_char [OF n] by (simp add: name_char_def)
  have no_hash: "CHR ''#'' \<notin> set (sink_addr a)" for a by (cases a) simp_all
  have none: "index_byte CHR ''#'' (render_entry st n) = None"
    using hash no_hash by (cases st) (auto simp: index_byte_None)
  show ?thesis
  proof (cases st)
    case (HostsFile a)
    have "str_fields (sink_addr a @ CHR '' '' # n) = [sink_addr a, n]"
      using str_fields_plain_space [OF plain_sinkhole(1) [of a], of n] plain_sinkhole(2) pl by simp
    moreover have "trim_space (sink_addr a @ CHR '' '' # n) = sink_addr a @ CHR '' '' # n"
      using trim_space_two_words [OF plain_sinkhole(1) plain_sinkhole(2) pl, of a] by simp
    ultimately show ?thesis
      using none HostsFile isIP_sinkhole plain_sinkhole(2) normalizeEntry_prefixed [OF n, of "[]" "[]" ul]
      by (simp add: parse_line_def Let_def map_filter_simps)
  next
    case Dotted
    then show ?thesis using none pl normalizeEntry_prefixed [OF n, of "''.''" "[]" ul]
      by (simp add: parse_line_def Let_def map_filter_simps)
  next
    case Bare
    then show ?thesis using none pl normalizeEntry_prefixed [OF n, of "[]" "[]" ul]
      by (simp add: parse_line_def Let_def map_filter_simps)
  next
    case Wildcard
    then show ?thesis using none pl normalizeEntry_prefixed [OF n, of "''*.''" "[]" ul]
      by (simp add: parse_line_def Let_def map_filter_simps)
  next
    case Rooted
    then show ?thesis using none pl normalizeEntry_prefixed [OF n, of "[]" "''.''" ul]
      by (simp add: parse_line_def Let_def map_filter_simps)
  qed
qed

lemma scan_lines_Nil [simp]: "scan_lines mx [] = ([], False)"
  by (simp add: scan_lines.simps)

lemma scan_lines_line:
  assumes "CHR 0x0A \<notin> set l" "length l < mx"
  shows "scan_lines mx (l @ CHR 0x0A # rest) =
    (drop_cr l # fst (scan_lines mx rest), snd (scan_lines mx rest))"
  using assms by (subst scan_lines.simps) (simp split: prod.split)

lemma scan_lines_render:
  assumes "list_all (\<lambda>(st, crlf, n). blockable n) es"
  shows "scan_lines maxTokenSize (concat (map render_line es)) =
    (map (\<lambda>(st, crlf, n). render_entry st n) es, False)"
  using assms
proof (induction es)
  case (Cons e es)
  obtain st crlf n where e: "e = (st, crlf, n)" by (cases e) auto
  with Cons.prems have n: "blockable n" by simp
  let ?l = "render_entry st n @ (if crlf then [CHR 0x0D] else [])"
  have no: "CHR 0x0A \<notin> set n" "CHR 0x0D \<notin> set n"
    using blockable_no_char [OF n] by (simp_all add: name_char_def)
  have "CHR 0x0A \<notin> set (sink_addr a)" "CHR 0x0D \<notin> set (sink_addr a)" for a by (cases a; simp)+
  with no have noent: "CHR 0x0A \<notin> set (render_entry st n)" "CHR 0x0D \<notin> set (render_entry st n)"
    by (cases st; simp)+
  have "length (render_entry st n) \<le> length n + 10" using plain_sinkhole(3) by (cases st) auto
  then have len: "length ?l < maxTokenSize"
    using n by (auto simp: maxTokenSize_def blockable_def)
  have cr: "drop_cr ?l = render_entry st n"
    using noent trim_suffix_append [of "render_entry st n" "[CHR 0x0D]"]
    by (auto simp: drop_cr_def trim_suffix_def has_suffix_iff)
  have "concat (map render_line (e # es)) = ?l @ CHR 0x0A # concat (map render_line es)"
    by (simp add: e render_line_def)
  then show ?case
    using scan_lines_line [of ?l maxTokenSize "concat (map render_line es)"] noent len cr Cons e
    by simp
qed simp

subsection \<open>Properties\<close>

text \<open>
  The loop that checks a query name accepts exactly the strings of at most 253 bytes
  whose labels are all non-empty, at most 63 bytes long and made of lower-case letters,
  digits, hyphens and underscores.
\<close>

theorem isDomainName_correct:
  "isDomainName s \<longleftrightarrow> length s \<le> 253 \<and> list_all valid_label (labels s)"
  by (rule isDomainName_iff)

text \<open>
  C29: normalisation of an entry is sound and stable: what it returns is a blockable name
  (a valid query name of at least two labels, not an IP literal and not a local name), and
  the blockable names are exactly the strings it returns unchanged.
\<close>

theorem normalizeEntry_normal_form:
  "(normalizeEntry ul s = Some n \<longrightarrow> blockable n) \<and>
   (normalizeEntry ul n = Some n \<longleftrightarrow> blockable n)"
  using normalizeEntry_blockable [of ul] normalizeEntry_prefixed [of n "[]" "[]" ul] by auto

theorem normalizeEntry_normal_form_witness:
  "normalizeEntry id '' *.Ads.Example.COM. '' = Some ''ads.example.com'' \<and>
   blockable ''ads.example.com''"
proof -
  have "normalizeEntry id '' *.Ads.Example.COM. '' = Some ''ads.example.com''"
    by code_simp
  with normalizeEntry_normal_form [of id "'' *.Ads.Example.COM. ''" "''ads.example.com''"]
  show ?thesis by simp
qed

text \<open>
  C17: a list of blockable names written in any mix of the published formats (bare domain,
  leading wildcard or dot, trailing dot, hosts file with any of the usual sinkhole
  addresses, with either line ending) parses to exactly
  those names in order, so no entry is lost, invented or altered by the parser.
\<close>

theorem parseList_roundtrip:
  assumes "list_all (\<lambda>(st, crlf, n). blockable n) es"
  shows "parseList ul \<lparr>rd_data = concat (map render_line es), rd_err = None\<rparr> =
    Ok (map (\<lambda>(st, crlf, n). n) es)"
proof -
  have "concat (map (parse_line ul) (map (\<lambda>(st, crlf, n). render_entry st n) es)) =
      map (\<lambda>(st, crlf, n). n) es"
    using assms by (induction es) (auto simp: parse_line_render)
  then show ?thesis by (simp add: parseList_def scan_lines_render [OF assms] Let_def)
qed

theorem parseList_roundtrip_witness:
  "parseList id \<lparr>rd_data = concat (map render_line
       [(HostsFile Loopback6, False, ''ads.example.com''), (Wildcard, True, ''b.example.net''),
        (Rooted, False, ''c.example.org'')]), rd_err = None\<rparr> =
     Ok [''ads.example.com'', ''b.example.net'', ''c.example.org'']"
proof -
  have "blockable ''ads.example.com''" "blockable ''b.example.net''" "blockable ''c.example.org''"
    by code_simp+
  then have "list_all (\<lambda>(st :: entry_style, crlf :: bool, n). blockable n)
     [(HostsFile Loopback6, False, ''ads.example.com''), (Wildcard, True, ''b.example.net''),
      (Rooted, False, ''c.example.org'')]"
    by simp
  from parseList_roundtrip [OF this, of id] show ?thesis by simp
qed

text \<open>
  C30: whatever the source delivers, every name the parser returns is blockable, and no
  partial list is returned when the source fails: a read error or a line that exceeds the
  scanner's buffer is an error.
\<close>

theorem parseList_sound:
  "(parseList ul r = Ok names \<longrightarrow> list_all blockable names \<and> rd_err r = None \<and>
      \<not> snd (scan_lines maxTokenSize (rd_data r))) \<and>
   (rd_err r \<noteq> None \<longrightarrow> (\<exists>e. parseList ul r = Err e))"
proof -
  have "list_all blockable (parse_line ul l)" for l
    using normalizeEntry_blockable [of ul]
    by (auto simp: parse_line_def Let_def list_all_iff List.map_filter_def)
  then show ?thesis
    by (auto simp: parseList_def list_all_iff Let_def split: prod.splits if_splits option.splits)
qed

theorem parseList_sound_witness:
  "parseList id \<lparr>rd_data = ''*.a.example.com'' @ [CHR 0x0A], rd_err = None\<rparr> = Ok [''a.example.com''] \<and>
   blockable ''a.example.com'' \<and>
   (\<exists>e. parseList id \<lparr>rd_data = ''a.example.com'', rd_err = Some ''reset''\<rparr> = Err e)"
proof -
  have b: "blockable ''a.example.com''" by code_simp
  have "scan_lines maxTokenSize (''*.a.example.com'' @ [CHR 0x0A]) = ([''*.a.example.com''], False)"
    using scan_lines_render [of "[(Wildcard, False, ''a.example.com'')]"] b
    by (simp add: render_line_def)
  then have "parseList id \<lparr>rd_data = ''*.a.example.com'' @ [CHR 0x0A], rd_err = None\<rparr> = Ok [''a.example.com'']"
    using parse_line_render [OF b, of id Wildcard] by (simp add: parseList_def)
  with parseList_sound [of id "\<lparr>rd_data = ''*.a.example.com'' @ [CHR 0x0A], rd_err = None\<rparr>" "[''a.example.com'']"]
    parseList_sound [of id "\<lparr>rd_data = ''a.example.com'', rd_err = Some ''reset''\<rparr>" "[]"]
  show ?thesis by simp
qed

text \<open>
  The table of local names has eleven entries, and for all but
  \<open>localhost.localdomain\<close> the table changes nothing: the others have a single label and
  are already rejected by the check for a dot.
\<close>

theorem localNames_effect:
  "length (remdups localNames) = 11 \<and>
   {n \<in> set localNames. isDomainName n \<and> contains_str n ''.''} = {''localhost.localdomain''}"
proof
  show "length (remdups localNames) = 11" by (simp add: localNames_def)
  have "filter (\<lambda>n. isDomainName n \<and> contains_str n ''.'') localNames = [''localhost.localdomain'']"
    by (simp add: localNames_def isDomainName_def name_char_def)
  from arg_cong [OF this, of set]
  show "{n \<in> set localNames. isDomainName n \<and> contains_str n ''.''} = {''localhost.localdomain''}"
    by simp
qed

text \<open>
  The zone of an address literal is ignored by \<open>isIP\<close>, and for a link-local IPv6
  address this changes nothing: the address parser accepts the literal with its zone; it
  only matters for an IPv4 literal, which the parser rejects with a zone.
\<close>

lemma isIP_zone:
  "isIP ''fe80::1%lo0'' \<and> parse_addr ''fe80::1%lo0'' \<noteq> None \<and>
   isIP ''127.0.0.1%lo0'' \<and> parse_addr ''127.0.0.1%lo0'' = None"
  by (simp add: isIP_def netip_defs byte_def Let_def)

end
