(* ===== verification/Dns_Types.thy ===== *)
theory Dns_Types
  imports Homedns_Prelude
begin

text \<open>
  The data the plugins exchange with the DNS library and with each other: the fields of
  messages, questions and resource records that the program reads or writes, Go errors as
  chains of wrapped errors, and the detached response writer
  (\<open>internal/detached/writer.go\<close>).

  The DNS library itself is not part of the repository. Its methods are parameters of the
  definitions that call them; what the program relies on is stated as a predicate on the
  parameter (\<open>set_rcode_ok\<close> for \<open>Msg.SetRcode\<close>). The response codes are the
  protocol's numbers.
\<close>

subsection \<open>Messages\<close>

record question =
  q_name :: string
  q_type :: "16 word"
  q_class :: "16 word"

text \<open>A resource record: the header fields the program uses, and the rest of the record.\<close>

record rr =
  rr_type :: "16 word"
  rr_ttl :: "32 word"
  rr_rest :: string

record msg =
  msg_id :: "16 word"
  Rcode :: int
  Authoritative :: bool
  Truncated :: bool
  CheckingDisabled :: bool
  Question :: "question list"
  Answer :: "rr list"
  Ns :: "rr list"
  Extra :: "rr list"

definition RcodeSuccess :: int where "RcodeSuccess = 0"
definition RcodeServerFailure :: int where "RcodeServerFailure = 2"
definition RcodeNameError :: int where "RcodeNameError = 3"
definition RcodeRefused :: int where "RcodeRefused = 5"

definition TypeOPT :: "16 word" where "TypeOPT = 41"

text \<open>\<open>new(dns.Msg)\<close>: the zero value.\<close>

definition new_msg :: msg where
  "new_msg =
     \<lparr>msg_id = 0, Rcode = 0, Authoritative = False, Truncated = False,
      CheckingDisabled = False, Question = [], Answer = [], Ns = [], Extra = []\<rparr>"

text \<open>
  What the program relies on of \<open>m.SetRcode(r, c)\<close>: the message answers \<open>r\<close> (its
  identifier and question) with the given code, and keeps its records and its truncation
  bit.
\<close>

type_synonym set_rcode = "msg \<Rightarrow> msg \<Rightarrow> int \<Rightarrow> msg"

definition set_rcode_ok :: "set_rcode \<Rightarrow> bool" where
  "set_rcode_ok sr \<longleftrightarrow>
     (\<forall>m r c. Rcode (sr m r c) = c \<and> msg_id (sr m r c) = msg_id r \<and>
        Question (sr m r c) = take 1 (Question r) \<and> Truncated (sr m r c) = Truncated m \<and>
        Answer (sr m r c) = Answer m \<and> Ns (sr m r c) = Ns m \<and> Extra (sr m r c) = Extra m)"

text \<open>An instance of the parameter, for evaluation on concrete messages.\<close>

definition set_rcode0 :: set_rcode where
  "set_rcode0 m r c =
     m\<lparr>msg_id := msg_id r, Rcode := c, Question := take 1 (Question r)\<rparr>"

text \<open>
  A query as \<open>request.Request\<close> presents it: the lower-cased name, type and class of its
  question, whether it asks for DNSSEC records, and the message itself.
\<close>

record request =
  req_Name :: string
  req_QType :: "16 word"
  req_QClass :: "16 word"
  req_Do :: bool
  req_Req :: msg

subsection \<open>The message heap\<close>

text \<open>
  Messages are passed by pointer, and \<open>SetRcode\<close> and the TTL rewrite change them in place.
  Where sharing matters, a message is a cell of this heap; \<open>Msg.Copy\<close>, documented as a
  deep copy, fills a fresh cell.
\<close>

type_synonym ptr = nat

record heap =
  h_cell :: "ptr \<Rightarrow> msg"
  h_next :: ptr

definition h_alloc :: "heap \<Rightarrow> msg \<Rightarrow> ptr \<times> heap" where
  "h_alloc h m =
     (h_next h, h\<lparr>h_cell := (h_cell h)(h_next h := m), h_next := h_next h + 1\<rparr>)"

definition h_copy :: "heap \<Rightarrow> ptr \<Rightarrow> ptr \<times> heap" where
  "h_copy h p = h_alloc h (h_cell h p)"

definition h_write :: "heap \<Rightarrow> ptr \<Rightarrow> msg \<Rightarrow> heap" where
  "h_write h p m = h\<lparr>h_cell := (h_cell h)(p := m)\<rparr>"

lemmas heap_defs = h_alloc_def h_copy_def h_write_def

subsection \<open>Errors\<close>

text \<open>
  A Go error is the chain of errors obtained by unwrapping it. Of each error the program
  asks whether it is one of these values, and whether it is a \<open>net.Error\<close> and, if so,
  a timeout.
\<close>

datatype sentinel =
  ErrCachedClosed | EOF | EPIPE | ECONNRESET | Canceled | DeadlineExceeded | Other string

record errnode =
  sent :: sentinel
  net_timeout :: "bool option"

type_synonym goerr = "errnode list"

definition errors_is :: "goerr \<Rightarrow> sentinel \<Rightarrow> bool" where
  "errors_is e t = list_ex (\<lambda>n. sent n = t) e"

text \<open>\<open>errors.As\<close> with a \<open>net.Error\<close>: the first error of the chain that is one.\<close>

definition errors_as_net :: "goerr \<Rightarrow> bool option" where
  "errors_as_net e =
     (case filter (\<lambda>n. net_timeout n \<noteq> None) e of [] \<Rightarrow> None | n # _ \<Rightarrow> net_timeout n)"

definition mk_err :: "sentinel \<Rightarrow> goerr" where
  "mk_err t = [\<lparr>sent = t, net_timeout = None\<rparr>]"

text \<open>\<open>plugin.Error\<close>: the error with the plugin's name in front, wrapping it.\<close>

definition plugin_error :: "string \<Rightarrow> goerr \<Rightarrow> goerr" where
  "plugin_error name e = \<lparr>sent = Other (''plugin/'' @ name), net_timeout = None\<rparr> # e"

subsection \<open>Handlers\<close>

text \<open>What a handler did: the code and error it returned, and the messages it wrote.\<close>

record served =
  sv_rcode :: int
  sv_err :: "goerr option"
  sv_written :: "msg list"

type_synonym handler = "msg \<Rightarrow> served"

text \<open>A counter with labels, and its increment.\<close>

definition bump :: "('a \<Rightarrow> nat) \<Rightarrow> 'a \<Rightarrow> ('a \<Rightarrow> nat)" where
  "bump f k = f(k := f k + 1)"

subsection \<open>The detached writer\<close>

text \<open>
  The live response writer of a query: its addresses, and the error its \<open>WriteMsg\<close>
  returns for a message (\<open>None\<close> when the message is sent).
\<close>

record live_writer =
  lw_local :: string
  lw_remote :: string
  lw_write :: "msg \<Rightarrow> goerr option"

record detached_writer =
  dw_local :: string
  dw_remote :: string
  dw_Msg :: "msg option"

definition detached_New :: "live_writer \<Rightarrow> detached_writer" where
  "detached_New w = \<lparr>dw_local = lw_local w, dw_remote = lw_remote w, dw_Msg = None\<rparr>"

definition detached_LocalAddr :: "detached_writer \<Rightarrow> string" where
  "detached_LocalAddr d = dw_local d"

definition detached_RemoteAddr :: "detached_writer \<Rightarrow> string" where
  "detached_RemoteAddr d = dw_remote d"

definition detached_WriteMsg :: "detached_writer \<Rightarrow> msg \<Rightarrow> detached_writer \<times> goerr option" where
  "detached_WriteMsg d m = (d\<lparr>dw_Msg := Some m\<rparr>, None)"

definition detached_Write :: "detached_writer \<Rightarrow> string \<Rightarrow> nat \<times> goerr option" where
  "detached_Write d b = (length b, None)"

definition detached_Close :: "detached_writer \<Rightarrow> detached_writer \<times> goerr option" where
  "detached_Close d = (d, None)"

definition detached_TsigStatus :: "detached_writer \<Rightarrow> goerr option" where
  "detached_TsigStatus d = None"

definition detached_Hijack :: "detached_writer \<Rightarrow> detached_writer" where
  "detached_Hijack d = d"

text \<open>A sequence of messages a handler writes to the detached writer.\<close>

definition detached_write_all :: "detached_writer \<Rightarrow> msg list \<Rightarrow> detached_writer" where
  "detached_write_all d ms = fold (\<lambda>m d. fst (detached_WriteMsg d m)) ms d"

lemmas dns_defs [go_eval] =
  RcodeSuccess_def RcodeServerFailure_def RcodeNameError_def RcodeRefused_def TypeOPT_def
  new_msg_def set_rcode0_def errors_is_def errors_as_net_def mk_err_def plugin_error_def bump_def
  detached_New_def detached_WriteMsg_def detached_write_all_def

subsection \<open>Facts\<close>

lemma set_rcode0_ok: "set_rcode_ok set_rcode0"
  by (simp add: set_rcode_ok_def set_rcode0_def)

lemma set_rcode_okD:
  assumes "set_rcode_ok sr"
  shows "Rcode (sr m r c) = c" "msg_id (sr m r c) = msg_id r"
    "Question (sr m r c) = take 1 (Question r)" "Truncated (sr m r c) = Truncated m"
    "Answer (sr m r c) = Answer m" "Ns (sr m r c) = Ns m" "Extra (sr m r c) = Extra m"
  using assms by (simp_all add: set_rcode_ok_def)

lemma detached_write_all_Msg [simp]:
  "dw_Msg (detached_write_all d ms) = (if ms = [] then dw_Msg d else Some (last ms))"
  by (induction ms arbitrary: d) (auto simp: detached_write_all_def detached_WriteMsg_def)

lemma detached_write_all_addr [simp]:
  "dw_local (detached_write_all d ms) = dw_local d"
  "dw_remote (detached_write_all d ms) = dw_remote d"
  by (induction ms arbitrary: d) (simp_all add: detached_write_all_def detached_WriteMsg_def)

text \<open>
  A detached writer keeps the client's addresses from the moment it was made, and after
  any sequence of writes holds the last message written (nothing before the first one);
  the live writer is not an argument of any of its operations.
\<close>

lemma detached_captures_last:
  "dw_Msg (detached_write_all (detached_New w) ms) = (if ms = [] then None else Some (last ms)) \<and>
   detached_LocalAddr (detached_write_all (detached_New w) ms) = lw_local w \<and>
   detached_RemoteAddr (detached_write_all (detached_New w) ms) = lw_remote w"
  by (simp add: detached_New_def detached_LocalAddr_def detached_RemoteAddr_def)

end
