(* ===== verification/Go_Time.thy ===== *)
theory Go_Time
  imports Homedns_Prelude
begin

text \<open>
  The part of Go's \<open>time\<close> package and of its floating-point arithmetic the program uses.
  A \<open>time.Duration\<close> is a 64-bit count of nanoseconds; an instant is a count of
  nanoseconds too. A non-negative \<open>float64\<close> is an integer multiple of \<open>2^-1074\<close>, the
  smallest one, and \<open>fl p q\<close> is the quotient \<open>p / q\<close> rounded to the nearest such number
  with 53 significant bits, ties to even: every arithmetic operation rounds its exact
  result this way.
\<close>

subsection \<open>Durations\<close>

definition second :: int where "second = 1000000000"

definition minute :: int where "minute = 60 * second"

definition hour :: int where "hour = 60 * minute"

definition maxDuration :: int where "maxDuration = 2 ^ 63 - 1"

definition minDuration :: int where "minDuration = - (2 ^ 63)"

text \<open>The result of an \<open>int64\<close> operation.\<close>

definition wrap64 :: "int \<Rightarrow> int" where
  "wrap64 d = (d + 2 ^ 63) mod 2 ^ 64 - 2 ^ 63"

text \<open>\<open>Time.Sub\<close> saturates.\<close>

definition time_Sub :: "int \<Rightarrow> int \<Rightarrow> int" where
  "time_Sub t u = max minDuration (min maxDuration (t - u))"

subsection \<open>Floating point\<close>

definition round_half_even :: "int \<Rightarrow> int \<Rightarrow> int" where
  "round_half_even a b =
     (let f = a div b; r = a mod b
      in if 2 * r < b then f else if b < 2 * r then f + 1 else if even f then f else f + 1)"

fun bit_len :: "int \<Rightarrow> nat" where
  "bit_len n = (if n \<le> 0 then 0 else Suc (bit_len (n div 2)))"

declare bit_len.simps [simp del]

definition fl :: "int \<Rightarrow> int \<Rightarrow> int" where
  "fl p q =
     (let sh = bit_len (p * 2 ^ 1074 div q) - 53
      in round_half_even (p * 2 ^ 1074) (q * 2 ^ sh) * 2 ^ sh)"

text \<open>Truncation of a \<open>float64\<close> to an integer.\<close>

definition fl_trunc :: "int \<Rightarrow> int" where
  "fl_trunc x = x div 2 ^ 1074"

text \<open>\<open>Duration.Seconds\<close> on a non-negative duration.\<close>

definition Seconds :: "int \<Rightarrow> int" where
  "Seconds d =
     (let sec = d div second; nsec = d mod second
      in fl (sec * 2 ^ 1074 + fl nsec 1000000000) (2 ^ 1074))"

subsection \<open>Facts\<close>

lemma wrap64_id: "minDuration \<le> d \<Longrightarrow> d \<le> maxDuration \<Longrightarrow> wrap64 d = d"
  by (simp add: wrap64_def minDuration_def maxDuration_def)

lemma round_half_even_bounds:
  assumes "0 < b"
  shows "n * b \<le> a \<Longrightarrow> n \<le> round_half_even a b" "a \<le> n * b \<Longrightarrow> round_half_even a b \<le> n"
proof -
  have r: "0 \<le> a mod b" "a mod b < b" "a = a div b * b + a mod b" using assms by auto
  show "n \<le> round_half_even a b" if "n * b \<le> a"
  proof -
    have "n \<le> a div b" using that assms by (simp add: zdiv_mono1 [of "n * b" a b, simplified])
    then show ?thesis by (auto simp: round_half_even_def Let_def)
  qed
  show "round_half_even a b \<le> n" if "a \<le> n * b"
  proof (cases "a mod b = 0")
    case True
    then have "a div b \<le> n" using that assms zdiv_mono1 [of a "n * b" b] by simp
    then show ?thesis using True assms by (simp add: round_half_even_def Let_def)
  next
    case False
    then have "a div b * b < n * b" using that r by linarith
    then have "a div b < n" using assms by simp
    then show ?thesis by (auto simp: round_half_even_def Let_def)
  qed
qed

lemma int_div_less:
  fixes a k q :: int
  assumes "a < k * q" "0 < q"
  shows "a div q < k"
proof -
  have "a div q * q \<le> a"
    using div_mult_mod_eq [of a q] pos_mod_sign [OF assms(2), of a] by linarith
  then have "a div q * q < k * q" using assms(1) by linarith
  then show ?thesis using assms(2) by simp
qed

lemma bit_len_bound: "n < 2 ^ k \<Longrightarrow> bit_len n \<le> k"
proof (induction k arbitrary: n)
  case 0
  then show ?case by (simp add: bit_len.simps)
next
  case (Suc k)
  then have "n div 2 < 2 ^ k" by simp
  from Suc.IH [OF this] show ?case by (subst bit_len.simps) simp
qed

text \<open>Below \<open>2^53\<close> the integers are exact, so rounding never crosses one.\<close>

lemma fl_integer_bounds:
  assumes "0 < q" "p < q * 2 ^ 53"
  shows "n * q \<le> p \<Longrightarrow> n * 2 ^ 1074 \<le> fl p q" "p \<le> n * q \<Longrightarrow> fl p q \<le> n * 2 ^ 1074"
proof -
  define sh where "sh = bit_len (p * 2 ^ 1074 div q) - 53"
  have "p * 2 ^ 1074 < (2 ^ 1127) * q"
  proof -
    have "p * 2 ^ 1074 < q * 2 ^ 53 * 2 ^ 1074" using assms(2) by (rule mult_strict_right_mono) simp
    also have "\<dots> = 2 ^ 1127 * q" by (simp add: mult.assoc flip: power_add)
    finally show ?thesis .
  qed
  then have "p * 2 ^ 1074 div q < 2 ^ 1127" by (rule int_div_less) (rule assms(1))
  then have sh: "sh \<le> 1074" using bit_len_bound [of _ 1127] unfolding sh_def by fastforce
  have split: "(2::int) ^ 1074 = 2 ^ (1074 - sh) * 2 ^ sh" using sh by (simp flip: power_add)
  have pos: "0 < q * 2 ^ sh" using assms(1) by simp
  have fl: "fl p q = round_half_even (p * 2 ^ 1074) (q * 2 ^ sh) * 2 ^ sh"
    by (simp add: fl_def sh_def Let_def)
  have eq: "n * 2 ^ (1074 - sh) * (q * 2 ^ sh) = n * q * 2 ^ 1074" unfolding split by simp
  show "n * 2 ^ 1074 \<le> fl p q" if "n * q \<le> p"
  proof -
    have "n * 2 ^ (1074 - sh) * (q * 2 ^ sh) \<le> p * 2 ^ 1074"
      unfolding eq using that by (rule mult_right_mono) simp
    from round_half_even_bounds(1) [OF pos this]
    have "n * 2 ^ (1074 - sh) * 2 ^ sh \<le> fl p q" unfolding fl by (rule mult_right_mono) simp
    then show ?thesis unfolding split by (simp only: mult.assoc)
  qed
  show "fl p q \<le> n * 2 ^ 1074" if "p \<le> n * q"
  proof -
    have "p * 2 ^ 1074 \<le> n * 2 ^ (1074 - sh) * (q * 2 ^ sh)"
      unfolding eq using that by (rule mult_right_mono) simp
    from round_half_even_bounds(2) [OF pos this]
    have "fl p q \<le> n * 2 ^ (1074 - sh) * 2 ^ sh" unfolding fl by (rule mult_right_mono) simp
    then show ?thesis unfolding split by (simp only: mult.assoc)
  qed
qed

lemma fl_fraction:
  assumes "0 \<le> p" "p \<le> q" "0 < q"
  shows "0 \<le> fl p q" "fl p q \<le> 2 ^ 1074"
proof -
  have "q * 1 < q * 2 ^ 53" using assms(3) by (intro mult_strict_left_mono) simp_all
  then have "p < q * 2 ^ 53" using assms(2) by linarith
  from fl_integer_bounds(1) [OF assms(3) this, of 0] fl_integer_bounds(2) [OF assms(3) this, of 1]
  show "0 \<le> fl p q" "fl p q \<le> 2 ^ 1074" using assms by simp_all
qed

text \<open>
  \<open>Duration.Seconds\<close>, truncated, is the whole number of seconds, or one more where the
  sum of the seconds and the fraction rounded up; never one more on a whole number.
\<close>

lemma Seconds_trunc:
  assumes "0 \<le> d" "d < second * 2 ^ 52"
  shows "d div second \<le> fl_trunc (Seconds d)" "fl_trunc (Seconds d) \<le> - (- d div second)"
proof -
  let ?U = "2 ^ 1074 :: int" and ?s = "d div second" and ?n = "d mod second"
  have U: "0 < ?U" by simp
  have n: "0 \<le> ?n" "?n < second" by (simp_all add: second_def)
  have s: "0 \<le> ?s" "?s < 2 ^ 52"
    using assms int_div_less [of d "2 ^ 52" second] by (auto simp: second_def)
  have v: "0 \<le> fl ?n 1000000000" "fl ?n 1000000000 \<le> ?U"
    using fl_fraction [of ?n 1000000000] n by (auto simp: second_def)
  have v0: "fl ?n 1000000000 = 0" if "?n = 0"
    using fl_integer_bounds(2) [of 1000000000 ?n 0] that v by simp
  let ?P = "?s * ?U + fl ?n 1000000000"
  have Plt: "?P < ?U * 2 ^ 53"
  proof -
    have "?P \<le> (?s + 1) * ?U" using v by (simp add: algebra_simps)
    also have "\<dots> < 2 ^ 53 * ?U" using s by (intro mult_strict_right_mono) auto
    finally show ?thesis by (simp add: mult.commute)
  qed
  have eq: "Seconds d = fl ?P ?U" by (simp add: Seconds_def Let_def)
  have lo: "?s * ?U \<le> Seconds d"
    unfolding eq using fl_integer_bounds(1) [OF U Plt, of ?s] v by simp
  have hi: "Seconds d \<le> (?s + (if ?n = 0 then 0 else 1)) * ?U"
    unfolding eq using fl_integer_bounds(2) [OF U Plt, of "?s + (if ?n = 0 then 0 else 1)"] v v0
    by (simp add: algebra_simps)
  show "?s \<le> fl_trunc (Seconds d)"
    using zdiv_mono1 [OF lo U] by (simp add: fl_trunc_def)
  have "- (- d div second) = ?s + (if ?n = 0 then 0 else 1)"
    by (simp add: zdiv_zminus1_eq_if second_def)
  then show "fl_trunc (Seconds d) \<le> - (- d div second)"
    using zdiv_mono1 [OF hi U] by (simp add: fl_trunc_def)
qed

text \<open>Rounding moves a quotient by at most half a unit of its 53rd bit.\<close>

lemma round_half_even_half:
  assumes "0 < b"
  shows "2 * (round_half_even a b * b) \<le> 2 * a + b"
proof -
  define f r where "f = a div b" and "r = a mod b"
  have a: "a = f * b + r" "0 \<le> r" "r < b" using assms by (simp_all add: f_def r_def)
  have "round_half_even a b = f \<or> round_half_even a b = f + 1 \<and> b \<le> 2 * r"
    by (auto simp: round_half_even_def Let_def f_def r_def)
  then show ?thesis using a by (auto simp: algebra_simps)
qed

lemma fl_half:
  assumes "0 < q" "bit_len (p * 2 ^ 1074 div q) \<le> 53 + k"
  shows "2 * (fl p q * q) \<le> 2 * p * 2 ^ 1074 + q * 2 ^ k"
proof -
  define sh where "sh = bit_len (p * 2 ^ 1074 div q) - 53"
  have "2 * (round_half_even (p * 2 ^ 1074) (q * 2 ^ sh) * (q * 2 ^ sh)) \<le> 2 * (p * 2 ^ 1074) + q * 2 ^ sh"
    using assms(1) by (intro round_half_even_half) simp
  moreover have "q * 2 ^ sh \<le> q * 2 ^ k" using assms by (simp add: sh_def)
  moreover have "fl p q = round_half_even (p * 2 ^ 1074) (q * 2 ^ sh) * 2 ^ sh" by (simp add: fl_def sh_def Let_def)
  ultimately show ?thesis by (simp add: algebra_simps)
qed

text \<open>
  Below \<open>2^24\<close> seconds, half a year, the fraction of a duration is never rounded up to a whole second.
\<close>

lemma Seconds_exact:
  assumes "0 \<le> d" "d < second * 2 ^ 24"
  shows "fl_trunc (Seconds d) = d div second"
proof (cases "d mod second = 0")
  case True
  then have "- (- d div second) = d div second" by (simp add: zdiv_zminus1_eq_if second_def)
  moreover have "d < second * 2 ^ 52" using assms by (simp add: second_def)
  ultimately show ?thesis using Seconds_trunc [of d] assms(1) by simp
next
  case False
  let ?U = "2 ^ 1074 :: int" and ?s = "d div second" and ?n = "d mod second"
  have n: "0 \<le> ?n" "?n \<le> 999999999" using pos_mod_bound [of second d] by (simp_all add: second_def)
  have s: "0 \<le> ?s" "?s < 2 ^ 24" using assms int_div_less [of d "2 ^ 24" second] by (auto simp: second_def)
  define v where "v = fl ?n 1000000000"
  have v0: "0 \<le> v" "v \<le> ?U" unfolding v_def using fl_fraction [of ?n 1000000000] n by auto
  have "?n * 2 ^ 1074 div 1000000000 < 2 ^ 1074"
    using n by (intro int_div_less) (simp_all add: algebra_simps)
  then have "bit_len (?n * 2 ^ 1074 div 1000000000) \<le> 53 + 1021" using bit_len_bound [of _ 1074] by simp
  from fl_half [OF _ this] have "2 * (v * 1000000000) \<le> 2 * ?n * ?U + 1000000000 * 2 ^ 1021" by (simp add: v_def)
  also have "\<dots> \<le> 2 * 999999999 * ?U + 1000000000 * 2 ^ 1021" using n by (intro add_right_mono mult_right_mono) auto
  finally have v: "v < ?U - 2 ^ 1044" by simp
  define P where "P = ?s * ?U + v"
  have Pb: "P < 2 ^ 1098"
  proof -
    have "P < (?s + 1) * ?U" using v by (simp add: P_def algebra_simps)
    also have "\<dots> \<le> 2 ^ 24 * ?U" using s by (intro mult_right_mono) auto
    finally show ?thesis by simp
  qed
  have "bit_len (P * 2 ^ 1074 div ?U) \<le> 53 + 1045" using bit_len_bound [OF Pb] by simp
  from fl_half [OF _ this] have "2 * (fl P ?U * ?U) \<le> 2 * P * ?U + ?U * 2 ^ 1045" by simp
  then have "fl P ?U * ?U \<le> (P + 2 ^ 1044) * ?U" by (simp add: algebra_simps)
  then have "fl P ?U \<le> P + 2 ^ 1044" by (rule mult_right_le_imp_le) simp
  then have "fl P ?U < (?s + 1) * ?U" using v by (simp add: P_def algebra_simps)
  moreover have "Seconds d = fl P ?U" by (simp add: Seconds_def Let_def P_def v_def)
  ultimately have "fl_trunc (Seconds d) < ?s + 1" unfolding fl_trunc_def by (intro int_div_less) simp_all
  moreover have "d < second * 2 ^ 52" using assms by (simp add: second_def)
  ultimately show ?thesis using Seconds_trunc(1) [of d] assms(1) by simp
qed

end
