(* ===== verification/Source.thy ===== *)
theory Source
  imports Parse Dns_Types Go_Time
begin

text \<open>
  The sources of the blocklist plugin (\<open>plugin/blocklist/source.go\<close>): the bootstrap
  resolver's dial function, which goes round the configured servers from a shared atomic
  counter, and the fetch of one list. What the network answers is an argument: the outcome
  of each dial, and of the HTTP exchange.
\<close>

subsection \<open>The bootstrap resolver\<close>

record bootstrapResolver =
  servers :: "string list"
  next_srv :: "32 word"

definition newBootstrapResolver :: "string list \<Rightarrow> bootstrapResolver" where
  "newBootstrapResolver srvs = \<lparr>servers = srvs, next_srv = 0\<rparr>"

datatype dial_error = DivideByZero | NoServerReachable "goerr option"

text \<open>
  The loop of \<open>Dial\<close>: \<open>dial i srv\<close> is the error of the attempt number \<open>i\<close>, at server
  \<open>srv\<close>; the accumulated list names the servers tried.
\<close>

function dial_loop ::
  "string list \<Rightarrow> (nat \<Rightarrow> string \<Rightarrow> goerr option) \<Rightarrow> nat \<Rightarrow> nat \<Rightarrow> goerr option \<Rightarrow>
   string list \<Rightarrow> string list \<times> (dial_error, string) result" where
  "dial_loop srvs dial start i err tried =
     (if i < length srvs
      then (let srv = srvs ! ((start + i) mod length srvs)
            in case dial i srv of
                 None \<Rightarrow> (tried @ [srv], Ok srv)
               | Some e \<Rightarrow> dial_loop srvs dial start (i + 1) (Some e) (tried @ [srv]))
      else (tried, Err (NoServerReachable err)))"
  by pat_completeness auto
termination
  by (relation "measure (\<lambda>(srvs, dial, start, i, err, tried). length srvs - i)") auto

declare dial_loop.simps [simp del]

text \<open>
  \<open>Dial\<close>: the counter is a 32-bit word and wraps; its old value, an \<open>int\<close> of 64 bits,
  is reduced modulo the number of servers, which panics when there is none.
\<close>

definition resolver_Dial ::
  "bootstrapResolver \<Rightarrow> (nat \<Rightarrow> string \<Rightarrow> goerr option) \<Rightarrow>
   bootstrapResolver \<times> string list \<times> (dial_error, string) result" where
  "resolver_Dial b dial =
     (let n = length (servers b);
          nxt = next_srv b + 1
      in (b\<lparr>next_srv := nxt\<rparr>,
          if n = 0 then ([], Err DivideByZero)
          else dial_loop (servers b) dial (unat (nxt - 1) mod n) 0 None []))"

subsection \<open>The HTTP client\<close>

text \<open>The limits of the client that fetches the lists, in nanoseconds, and its resolver.\<close>

record http_client =
  hc_dialTimeout :: int
  hc_keepAlive :: int
  hc_timeout :: int
  hc_tlsHandshakeTimeout :: int
  hc_responseHeaderTimeout :: int
  hc_disableKeepAlives :: bool
  hc_resolver :: bootstrapResolver

definition httpTimeout :: int where "httpTimeout = 30 * second"

definition httpClient :: "bootstrapResolver \<Rightarrow> http_client" where
  "httpClient b =
     \<lparr>hc_dialTimeout = 10 * second, hc_keepAlive = 30 * second, hc_timeout = httpTimeout,
      hc_tlsHandshakeTimeout = 10 * second, hc_responseHeaderTimeout = 15 * second,
      hc_disableKeepAlives = True, hc_resolver = b\<rparr>"

subsection \<open>Fetching a list\<close>

text \<open>The outcome of the request: it cannot be built, it fails, or a response arrives.\<close>

datatype http_outcome =
  NewRequestError string | DoError string | Response int reader

datatype fetch_error =
  RequestFailed string | ExchangeFailed string | UnexpectedStatus int
| ParseFailed parse_error | NoDomains

definition StatusOK :: int where "StatusOK = 200"

definition fetch :: "(nat \<Rightarrow> nat) \<Rightarrow> http_outcome \<Rightarrow> (fetch_error, string list) result" where
  "fetch ul out =
     (case out of
        NewRequestError e \<Rightarrow> Err (RequestFailed e)
      | DoError e \<Rightarrow> Err (ExchangeFailed e)
      | Response status body \<Rightarrow>
          if status \<noteq> StatusOK then Err (UnexpectedStatus status)
          else case parseList ul body of
              Err e \<Rightarrow> Err (ParseFailed e)
            | Ok names \<Rightarrow> if length names = 0 then Err NoDomains else Ok names)"

subsection \<open>Facts\<close>

lemma fetch_Ok: "fetch ul out = Ok names \<Longrightarrow> names \<noteq> [] \<and> list_all blockable names"
proof -
  have "list_all blockable (parse_line ul l)" for l
    using normalizeEntry_blockable [of ul]
    by (auto simp: parse_line_def Let_def list_all_iff List.map_filter_def)
  then show "fetch ul out = Ok names \<Longrightarrow> names \<noteq> [] \<and> list_all blockable names"
    by (auto simp: fetch_def parseList_def list_all_iff Let_def
        split: http_outcome.splits sum.splits if_splits prod.splits option.splits)
qed

lemma fetch_one_name:
  assumes "blockable n"
  shows "fetch ul (Response StatusOK \<lparr>rd_data = n @ [CHR 0x0A], rd_err = None\<rparr>) = Ok [n]"
proof -
  have "scan_lines maxTokenSize (n @ [CHR 0x0A]) = ([n], False)"
    using scan_lines_render [of "[(Bare, False, n)]"] assms by (simp add: render_line_def)
  then show ?thesis
    using parse_line_render [OF assms, of ul Bare] by (simp add: fetch_def parseList_def)
qed

text \<open>The loop from attempt \<open>i\<close> on, as a search through the rotated server list.\<close>

lemma dial_loop_eq:
  assumes "tried = take i (rotate start srvs)" "srvs \<noteq> []"
  shows "dial_loop srvs dial start i err tried =
    (case filter (\<lambda>j. dial j (rotate start srvs ! j) = None) [i..<length srvs] of
       [] \<Rightarrow> (if i < length srvs then rotate start srvs else tried,
              Err (NoServerReachable (if i < length srvs
                then dial (length srvs - 1) (rotate start srvs ! (length srvs - 1)) else err)))
     | j # _ \<Rightarrow> (take (j + 1) (rotate start srvs), Ok (rotate start srvs ! j)))"
  using assms
proof (induction srvs dial start i err tried rule: dial_loop.induct)
  case (1 srvs dial start i err tried)
  show ?case
  proof (cases "i < length srvs")
    case True
    let ?r = "rotate start srvs"
    have nth: "srvs ! ((start + i) mod length srvs) = ?r ! i"
      using True by (simp add: nth_rotate add.commute)
    have tk: "tried @ [?r ! i] = take (i + 1) ?r"
      using True "1.prems" by (simp add: take_Suc_conv_app_nth)
    have up: "[i..<length srvs] = i # [i + 1..<length srvs]" using True by (simp add: upt_conv_Cons)
    show ?thesis
    proof (cases "dial i (?r ! i)")
      case None
      then show ?thesis using True nth tk
        by (simp add: dial_loop.simps [of srvs dial start i] Let_def up del: upt_Suc)
    next
      case (Some e)
      have IH: "dial_loop srvs dial start (i + 1) (Some e) (take (i + 1) ?r) =
        (case filter (\<lambda>j. dial j (?r ! j) = None) [i + 1..<length srvs] of
           [] \<Rightarrow> (if i + 1 < length srvs then ?r else take (i + 1) ?r,
              Err (NoServerReachable (if i + 1 < length srvs
                then dial (length srvs - 1) (?r ! (length srvs - 1)) else Some e)))
         | j # _ \<Rightarrow> (take (j + 1) ?r, Ok (?r ! j)))"
        using "1.IH" [OF True refl] Some nth tk "1.prems"(2) by simp
      have last: "i + 1 < length srvs \<or> i = length srvs - 1 \<and> length srvs \<le> i + 1" using True by linarith
      have "dial_loop srvs dial start i err tried =
          dial_loop srvs dial start (i + 1) (Some e) (take (i + 1) ?r)"
        using True Some nth tk by (simp add: dial_loop.simps [of srvs dial start i err] Let_def)
      then show ?thesis using True Some IH last
        by (auto simp: up simp del: upt_Suc split: list.splits)
    qed
  next
    case False
    then show ?thesis by (simp add: dial_loop.simps [of srvs dial start i])
  qed
qed

text \<open>
  C28: the bootstrap dial, with at least one server, starts at the server the shared counter
  points at and tries the servers in rotation: it stops at the first that answers, and when
  none does it has tried every server exactly once and reports the last error. The counter
  moves on by one for the next dial, wrapping at 32 bits.
\<close>

theorem resolver_Dial_round_robin:
  assumes "servers b \<noteq> []"
  shows "resolver_Dial b dial =
    (let r = rotate (unat (next_srv b) mod length (servers b)) (servers b)
     in (b\<lparr>next_srv := next_srv b + 1\<rparr>,
         case filter (\<lambda>j. dial j (r ! j) = None) [0..<length r] of
           [] \<Rightarrow> (r, Err (NoServerReachable (dial (length r - 1) (last r))))
         | j # _ \<Rightarrow> (take (j + 1) r, Ok (r ! j))))"
proof -
  let ?k = "unat (next_srv b) mod length (servers b)"
  let ?r = "rotate ?k (servers b)"
  have "last ?r = ?r ! (length (servers b) - 1)"
    using assms by (simp add: last_conv_nth)
  moreover have "0 < length (servers b)" using assms by simp
  ultimately show ?thesis
    using dial_loop_eq [of "[]" 0 ?k "servers b" dial None] assms
    by (simp add: resolver_Dial_def Let_def cong: list.case_cong)
qed

theorem resolver_Dial_round_robin_witness:
  "resolver_Dial \<lparr>servers = [''1.1.1.1:53'', ''9.9.9.9:53''], next_srv = 1\<rparr>
     (\<lambda>i srv. if srv = ''9.9.9.9:53'' then Some (mk_err (Other ''refused'')) else None) =
   (\<lparr>servers = [''1.1.1.1:53'', ''9.9.9.9:53''], next_srv = 2\<rparr>,
    [''9.9.9.9:53'', ''1.1.1.1:53''], Ok ''1.1.1.1:53'')"
proof -
  let ?b = "\<lparr>servers = [''1.1.1.1:53'', ''9.9.9.9:53''], next_srv = 1\<rparr>"
  let ?dial = "\<lambda>(i :: nat) srv. if srv = ''9.9.9.9:53'' then Some (mk_err (Other ''refused'')) else None"
  have "servers ?b \<noteq> []" by simp
  from resolver_Dial_round_robin [OF this, of ?dial] show ?thesis
    by (simp add: Let_def rotate_def)
qed

end
