(* ===== verification/Blocklist.thy ===== *)
theory Blocklist
  imports Source
begin

text \<open>
  The blocklist plugin (\<open>plugin/blocklist/blocklist.go\<close>, with the counters of
  \<open>metrics.go\<close>): the query handler, the reload of all sources, and the goroutines that
  \<open>start\<close> launches (the refresh loop and the fail-open timer) as a step relation in which
  every access to a shared variable is a step of its own.

  The rest of the plugin chain is a parameter of the handler (\<open>nxt\<close>, standing for
  \<open>plugin.NextOrFailure\<close>), as are \<open>Msg.SetRcode\<close> and the query name that
  \<open>request.Request\<close> extracts. What the sources answer, the clock, and whether the
  context has been cancelled when it is looked at are arguments.
\<close>

subsection \<open>State\<close>

record Blocklist =
  urls :: "string list"
  allow_list :: "string list"
  bootstrap :: bootstrapResolver
  refresh :: int
  readyTimeout :: int
  current :: "matcher option"
  ready :: bool
  lastGood :: "string \<rightharpoonup> string list"

text \<open>The exported metrics, package-level variables of the source.\<close>

record bl_metrics =
  blockedCount :: "string \<Rightarrow> nat"
  allowedCount :: "string \<Rightarrow> nat"
  domainsTotal :: nat
  sourceDomains :: "string \<rightharpoonup> nat"
  sourceLastSuccess :: "string \<rightharpoonup> int"
  sourceFailures :: "string \<Rightarrow> nat"
  reloadDuration :: "int list"
  failOpen :: nat

abbreviation bl_name :: string where "bl_name \<equiv> ''blocklist''"

subsection \<open>The query handler\<close>

definition ServeDNS ::
  "(nat \<Rightarrow> nat) \<Rightarrow> set_rcode \<Rightarrow> handler \<Rightarrow> string \<Rightarrow> string \<Rightarrow> live_writer \<Rightarrow> msg \<Rightarrow>
   Blocklist \<Rightarrow> bl_metrics \<Rightarrow> bl_metrics \<times> served" where
  "ServeDNS ul sr nxt server name w r b mx =
     (if blocked (current b) (normalizeQuery ul name)
      then (let mx' = mx\<lparr>blockedCount := bump (blockedCount mx) server\<rparr>;
                m = (sr new_msg r RcodeNameError)\<lparr>Authoritative := True\<rparr>
            in case lw_write w m of
                 Some e \<Rightarrow>
                   (mx', \<lparr>sv_rcode = RcodeServerFailure, sv_err = Some e, sv_written = []\<rparr>)
               | None \<Rightarrow>
                   (mx', \<lparr>sv_rcode = RcodeNameError, sv_err = None, sv_written = [m]\<rparr>))
      else (mx\<lparr>allowedCount := bump (allowedCount mx) server\<rparr>, nxt r))"

definition Ready :: "Blocklist \<Rightarrow> bool" where
  "Ready b = ready b"

subsection \<open>Reload\<close>

text \<open>
  What a reload meets outside: whether the context is cancelled when the loop looks at it
  before source \<open>i\<close>, the outcome of fetching source \<open>i\<close>, and the clock.
\<close>

record reload_env =
  env_cancelled :: "nat \<Rightarrow> bool"
  env_http :: "nat \<Rightarrow> string \<Rightarrow> http_outcome"
  env_now :: "nat \<Rightarrow> int"
  env_elapsed :: int

text \<open>
  The loop over the sources: \<open>None\<close> as the merged list is the early return on a cancelled
  context.
\<close>

fun reload_loop ::
  "(nat \<Rightarrow> nat) \<Rightarrow> reload_env \<Rightarrow> nat \<Rightarrow> string list \<Rightarrow> string list \<Rightarrow> Blocklist \<Rightarrow> bl_metrics \<Rightarrow>
   string list option \<times> Blocklist \<times> bl_metrics" where
  "reload_loop ul env i [] merged b mx = (Some merged, b, mx)"
| "reload_loop ul env i (url # us) merged b mx =
     (if env_cancelled env i then (None, b, mx)
      else case fetch ul (env_http env i url) of
          Err e \<Rightarrow>
            (let mx' = mx\<lparr>sourceFailures := bump (sourceFailures mx) url\<rparr>
             in case lastGood b url of
                  Some stale \<Rightarrow> reload_loop ul env (i + 1) us (merged @ stale) b mx'
                | None \<Rightarrow> reload_loop ul env (i + 1) us merged b mx')
        | Ok names \<Rightarrow>
            reload_loop ul env (i + 1) us (merged @ names)
              (b\<lparr>lastGood := (lastGood b)(url \<mapsto> names)\<rparr>)
              (mx\<lparr>sourceDomains := (sourceDomains mx)(url \<mapsto> length names),
                  sourceLastSuccess := (sourceLastSuccess mx)(url \<mapsto> env_now env i)\<rparr>))"

text \<open>The first part of \<open>reload\<close>: everything up to the decision to publish a matcher.\<close>

definition reload_gather ::
  "(nat \<Rightarrow> nat) \<Rightarrow> reload_env \<Rightarrow> Blocklist \<Rightarrow> bl_metrics \<Rightarrow>
   matcher option \<times> Blocklist \<times> bl_metrics" where
  "reload_gather ul env b mx =
     (case reload_loop ul env 0 (urls b) [] b mx of
        (None, b', mx') \<Rightarrow> (None, b', mx')
      | (Some merged, b', mx') \<Rightarrow>
          (let mx'' = mx'\<lparr>reloadDuration := reloadDuration mx' @ [env_elapsed env]\<rparr>
           in if length merged = 0 then (None, b', mx'')
              else (Some \<lparr>block = newNameSet merged, allow = newNameSet (allow_list b')\<rparr>,
                    b', mx'')))"

text \<open>The four accesses to shared variables that publish a matcher, in program order.\<close>

definition publish_current :: "matcher \<Rightarrow> Blocklist \<Rightarrow> Blocklist" where
  "publish_current m b = b\<lparr>current := Some m\<rparr>"

definition publish_domains :: "matcher \<Rightarrow> bl_metrics \<Rightarrow> bl_metrics" where
  "publish_domains m mx = mx\<lparr>domainsTotal := size_of (Some m)\<rparr>"

definition publish_failOpen :: "bl_metrics \<Rightarrow> bl_metrics" where
  "publish_failOpen mx = mx\<lparr>failOpen := 0\<rparr>"

definition publish_ready :: "Blocklist \<Rightarrow> Blocklist" where
  "publish_ready b = b\<lparr>ready := True\<rparr>"

definition reload ::
  "(nat \<Rightarrow> nat) \<Rightarrow> reload_env \<Rightarrow> Blocklist \<Rightarrow> bl_metrics \<Rightarrow> Blocklist \<times> bl_metrics" where
  "reload ul env b mx =
     (case reload_gather ul env b mx of
        (None, b', mx') \<Rightarrow> (b', mx')
      | (Some m, b', mx') \<Rightarrow>
          (publish_ready (publish_current m b'), publish_failOpen (publish_domains m mx')))"

text \<open>
  The fail-open timer when it fires: \<open>ready.Swap(true)\<close>, and the gauge only when the old
  value was false.
\<close>

definition failOpenAfterTimeout :: "Blocklist \<Rightarrow> bl_metrics \<Rightarrow> Blocklist \<times> bl_metrics" where
  "failOpenAfterTimeout b mx =
     (b\<lparr>ready := True\<rparr>, if \<not> ready b then mx\<lparr>failOpen := 1\<rparr> else mx)"

lemmas publish_defs = publish_current_def publish_domains_def publish_failOpen_def publish_ready_def

lemmas blocklist_defs [go_eval] =
  ServeDNS_def Ready_def reload_gather_def reload_def failOpenAfterTimeout_def publish_defs

subsection \<open>The goroutines\<close>

text \<open>
  Where the refresh goroutine is: before a reload, between the four publishing accesses,
  waiting in \<open>select\<close>, or returned. Where the timer goroutine is: waiting, after a
  \<open>Swap\<close> that returned false, or returned (because it fired first, because it fired
  after the plugin was ready, or because of the cancelled context).
\<close>

datatype refresh_pc =
  RFetch | RStore matcher | RDomains matcher | RFailOpen | RReady | RWait | RExited

datatype timer_pc = TWait | TSwapped | TFired | TLate | TCancelled

record life =
  lf_b :: Blocklist
  lf_mx :: bl_metrics
  lf_rpc :: refresh_pc
  lf_tpc :: timer_pc
  lf_stopped :: bool

text \<open>
  \<open>start\<close> launches both goroutines on a freshly configured plugin. It does not touch the
  metrics, which belong to the package: they are whatever other instances of the plugin,
  those of other server blocks and those of an earlier configuration, have left.
\<close>

definition life_init :: "life \<Rightarrow> bool" where
  "life_init s \<longleftrightarrow>
     current (lf_b s) = None \<and> \<not> ready (lf_b s) \<and> lastGood (lf_b s) = Map.empty \<and>
     lf_rpc s = RFetch \<and> lf_tpc s = TWait \<and> \<not> lf_stopped s"

text \<open>
  \<open>shutdown\<close> up to the cancelled context; \<open>None\<close> is a plugin that was never started, whose
  \<open>stop\<close> is nil. The call returns once the refresh goroutine has closed \<open>done\<close>.
\<close>

definition bl_shutdown :: "life option \<Rightarrow> life option" where
  "bl_shutdown lo = (case lo of None \<Rightarrow> None | Some s \<Rightarrow> Some (s\<lparr>lf_stopped := True\<rparr>))"

lemma bl_shutdown_Some [simp]: "bl_shutdown (Some s) = Some t \<longleftrightarrow> t = s\<lparr>lf_stopped := True\<rparr>"
  by (auto simp: bl_shutdown_def)

definition shutdown_returns :: "life \<Rightarrow> bool" where
  "shutdown_returns s \<longleftrightarrow> lf_stopped s \<and> lf_rpc s = RExited"

inductive life_step :: "(nat \<Rightarrow> nat) \<Rightarrow> life \<Rightarrow> life \<Rightarrow> bool" for ul where
  gather:
    "lf_rpc s = RFetch \<Longrightarrow> reload_gather ul env (lf_b s) (lf_mx s) = (mo, b, mx) \<Longrightarrow>
     life_step ul s (s\<lparr>lf_b := b, lf_mx := mx,
       lf_rpc := (case mo of None \<Rightarrow> RWait | Some m \<Rightarrow> RStore m)\<rparr>)"
| store:
    "lf_rpc s = RStore m \<Longrightarrow>
     life_step ul s (s\<lparr>lf_b := publish_current m (lf_b s), lf_rpc := RDomains m\<rparr>)"
| domains:
    "lf_rpc s = RDomains m \<Longrightarrow>
     life_step ul s (s\<lparr>lf_mx := publish_domains m (lf_mx s), lf_rpc := RFailOpen\<rparr>)"
| clear:
    "lf_rpc s = RFailOpen \<Longrightarrow>
     life_step ul s (s\<lparr>lf_mx := publish_failOpen (lf_mx s), lf_rpc := RReady\<rparr>)"
| swap:
    "lf_rpc s = RReady \<Longrightarrow>
     life_step ul s (s\<lparr>lf_b := publish_ready (lf_b s), lf_rpc := RWait\<rparr>)"
| tick: "lf_rpc s = RWait \<Longrightarrow> life_step ul s (s\<lparr>lf_rpc := RFetch\<rparr>)"
| refresh_exit: "lf_rpc s = RWait \<Longrightarrow> lf_stopped s \<Longrightarrow> life_step ul s (s\<lparr>lf_rpc := RExited\<rparr>)"
| timer_first:
    "lf_tpc s = TWait \<Longrightarrow> \<not> ready (lf_b s) \<Longrightarrow>
     life_step ul s (s\<lparr>lf_b := (lf_b s)\<lparr>ready := True\<rparr>, lf_tpc := TSwapped\<rparr>)"
| timer_late:
    "lf_tpc s = TWait \<Longrightarrow> ready (lf_b s) \<Longrightarrow> life_step ul s (s\<lparr>lf_tpc := TLate\<rparr>)"
| timer_set:
    "lf_tpc s = TSwapped \<Longrightarrow>
     life_step ul s (s\<lparr>lf_mx := (lf_mx s)\<lparr>failOpen := 1\<rparr>, lf_tpc := TFired\<rparr>)"
| timer_exit: "lf_tpc s = TWait \<Longrightarrow> lf_stopped s \<Longrightarrow> life_step ul s (s\<lparr>lf_tpc := TCancelled\<rparr>)"
| shutdown: "bl_shutdown (Some s) = Some t \<Longrightarrow> life_step ul s t"

inductive_simps life_step_simps [step_simps]: "life_step ul s t"

text \<open>
  The surroundings of an instance: at any moment the handlers and the other instances of
  the process may change the metrics of the package, and nothing else.
\<close>

definition life_env :: "life \<Rightarrow> life \<Rightarrow> bool" where
  "life_env s t \<longleftrightarrow> (\<exists>mx. t = s\<lparr>lf_mx := mx\<rparr>)"

definition life_move :: "(nat \<Rightarrow> nat) \<Rightarrow> life \<Rightarrow> life \<Rightarrow> bool" where
  "life_move ul s t \<longleftrightarrow> life_step ul s t \<or> life_env s t"

subsection \<open>The loop over the sources\<close>

text \<open>A reload touches only the last good lists and the metrics of the sources.\<close>

lemma reload_loop_frame:
  "reload_loop ul env i us merged b mx = (mo, b', mx') \<Longrightarrow>
   b' = b\<lparr>lastGood := lastGood b'\<rparr> \<and>
   mx' = mx\<lparr>sourceDomains := sourceDomains mx', sourceLastSuccess := sourceLastSuccess mx',
            sourceFailures := sourceFailures mx'\<rparr>"
proof (induction ul env i us merged b mx rule: reload_loop.induct)
  case (2 ul env i url us merged b mx)
  then show ?case
    by (auto simp: Let_def split: if_splits sum.splits option.splits)
qed simp

lemma reload_loop_extends:
  "reload_loop ul env i us merged b mx = (Some out, b', mx') \<Longrightarrow> set merged \<subseteq> set out"
proof (induction ul env i us merged b mx rule: reload_loop.induct)
  case (2 ul env i url us merged b mx)
  then show ?case
    by (auto simp: Let_def split: if_splits sum.splits option.splits)
qed simp

text \<open>What source \<open>k\<close> contributes: its fresh names, or its last good ones.\<close>

definition contribution ::
  "(nat \<Rightarrow> nat) \<Rightarrow> reload_env \<Rightarrow> (string \<rightharpoonup> string list) \<Rightarrow> nat \<Rightarrow> string \<Rightarrow> string list" where
  "contribution ul env lg k url =
     (case fetch ul (env_http env k url) of
        Ok names \<Rightarrow> names
      | Err _ \<Rightarrow> (case lg url of Some stale \<Rightarrow> stale | None \<Rightarrow> []))"

lemma contribution_other:
  "url \<noteq> u \<Longrightarrow> contribution ul env (lg(u \<mapsto> ns)) k url = contribution ul env lg k url"
  by (simp add: contribution_def split: sum.splits)

definition remember ::
  "(nat \<Rightarrow> nat) \<Rightarrow> reload_env \<Rightarrow> nat \<Rightarrow> string \<Rightarrow> (string \<rightharpoonup> string list) \<Rightarrow> (string \<rightharpoonup> string list)" where
  "remember ul env i url lg =
     (case fetch ul (env_http env i url) of Err _ \<Rightarrow> lg | Ok names \<Rightarrow> lg(url \<mapsto> names))"

text \<open>One turn of the loop, when the context is not cancelled.\<close>

lemma reload_loop_turn:
  assumes "\<not> env_cancelled env i"
  obtains mx1 where
    "reload_loop ul env i (url # us) merged b mx =
       reload_loop ul env (i + 1) us (merged @ contribution ul env (lastGood b) i url)
         (b\<lparr>lastGood := remember ul env i url (lastGood b)\<rparr>) mx1"
proof (cases "fetch ul (env_http env i url)")
  case (Inl e)
  show thesis
    by (rule that [of "mx\<lparr>sourceFailures := bump (sourceFailures mx) url\<rparr>"])
      (use assms Inl in \<open>simp add: contribution_def remember_def Let_def split: option.split\<close>)
next
  case (Inr names)
  show thesis
    by (rule that [of "mx\<lparr>sourceDomains := (sourceDomains mx)(url \<mapsto> length names),
          sourceLastSuccess := (sourceLastSuccess mx)(url \<mapsto> env_now env i)\<rparr>"])
      (use assms Inr in \<open>simp add: contribution_def remember_def\<close>)
qed

lemma reload_loop_SomeD:
  "reload_loop ul env i (url # us) merged b mx = (Some out, b', mx') \<Longrightarrow> \<not> env_cancelled env i"
  by (auto split: if_splits)

lemma set_concat_map_upt_Suc:
  "set (concat (map f [0..<Suc n])) = set (f 0) \<union> set (concat (map (\<lambda>k. f (Suc k)) [0..<n]))"
proof -
  have "[0..<Suc n] = 0 # map Suc [0..<n]" by (simp add: upt_conv_Cons map_Suc_upt del: upt_Suc)
  then show ?thesis by (simp add: comp_def del: upt_Suc)
qed

lemma reload_loop_contributions:
  assumes "reload_loop ul env i us merged b mx = (Some out, b', mx')" "distinct us"
  shows "set out = set merged \<union>
    set (concat (map (\<lambda>k. contribution ul env (lastGood b) (i + k) (us ! k)) [0..<length us]))"
  using assms
proof (induction us arbitrary: i merged b mx)
  case (Cons url us)
  let ?b1 = "b\<lparr>lastGood := remember ul env i url (lastGood b)\<rparr>"
  obtain mx1 where eq: "reload_loop ul env i (url # us) merged b mx =
     reload_loop ul env (i + 1) us (merged @ contribution ul env (lastGood b) i url) ?b1 mx1"
    using reload_loop_turn [OF reload_loop_SomeD [OF Cons.prems(1)]] .
  have same: "contribution ul env (lastGood ?b1) k u = contribution ul env (lastGood b) k u"
    if "u \<in> set us" for k u
  proof -
    have "u \<noteq> url" using that Cons.prems(2) by auto
    then show ?thesis by (simp add: remember_def contribution_other split: sum.splits)
  qed
  have "set out = set merged \<union> set (contribution ul env (lastGood b) i url) \<union>
     set (concat (map (\<lambda>k. contribution ul env (lastGood ?b1) (i + 1 + k) (us ! k)) [0..<length us]))"
    using Cons.IH [of "i + 1"] Cons.prems eq by auto
  also have "map (\<lambda>k. contribution ul env (lastGood ?b1) (i + 1 + k) (us ! k)) [0..<length us] =
      map (\<lambda>k. contribution ul env (lastGood b) (i + Suc k) (us ! k)) [0..<length us]"
  proof (rule map_cong [OF refl])
    fix k assume "k \<in> set [0..<length us]"
    then have "us ! k \<in> set us" by simp
    from same [OF this] show "contribution ul env (lastGood ?b1) (i + 1 + k) (us ! k) =
        contribution ul env (lastGood b) (i + Suc k) (us ! k)"
      by simp
  qed
  finally show ?case
    using set_concat_map_upt_Suc [of "\<lambda>k. contribution ul env (lastGood b) (i + k) ((url # us) ! k)" "length us"]
    by (simp add: Un_assoc del: upt_Suc)
qed simp

lemma reload_loop_stale:
  assumes "reload_loop ul env i us merged b mx = (Some out, b', mx')"
    and "lastGood b u = Some ns" "\<And>k. \<exists>e. fetch ul (env_http env k u) = Err e" "u \<in> set us"
  shows "set ns \<subseteq> set out"
  using assms
proof (induction us arbitrary: i merged b mx)
  case (Cons url us)
  let ?b1 = "b\<lparr>lastGood := remember ul env i url (lastGood b)\<rparr>"
  obtain mx1 where eq: "reload_loop ul env i (url # us) merged b mx =
     reload_loop ul env (i + 1) us (merged @ contribution ul env (lastGood b) i url) ?b1 mx1"
    using reload_loop_turn [OF reload_loop_SomeD [OF Cons.prems(1)]] .
  obtain e where e: "fetch ul (env_http env i u) = Err e" using Cons.prems(3) by blast
  have "lastGood ?b1 u = Some ns" using Cons.prems(2) e by (auto simp: remember_def split: sum.splits)
  moreover have "set ns \<subseteq> set out" if "u = url"
    using reload_loop_extends [of ul env "i + 1" us] eq Cons.prems(1,2) e that
    by (fastforce simp: contribution_def)
  ultimately show ?case
    using Cons.IH [of "i + 1" _ ?b1 mx1] Cons.prems(1,3,4) eq by auto
qed simp

lemma reload_loop_completes:
  "(\<And>k. \<not> env_cancelled env k) \<Longrightarrow> \<exists>out b' mx'. reload_loop ul env i us merged b mx = (Some out, b', mx')"
  by (induction ul env i us merged b mx rule: reload_loop.induct)
    (auto simp: Let_def split: sum.splits option.splits)

subsection \<open>The invariant of the plugin\<close>

text \<open>
  Every remembered list is a non-empty list of blockable names, and a published matcher
  was built from such a list and from the configured allow names.
\<close>

definition matcher_ok :: "string list \<Rightarrow> matcher \<Rightarrow> bool" where
  "matcher_ok als m \<longleftrightarrow>
     (\<exists>ns. ns \<noteq> [] \<and> list_all blockable ns \<and> m = \<lparr>block = newNameSet ns, allow = newNameSet als\<rparr>)"

definition bl_inv :: "Blocklist \<Rightarrow> bool" where
  "bl_inv b \<longleftrightarrow>
     (\<forall>u ns. lastGood b u = Some ns \<longrightarrow> ns \<noteq> [] \<and> list_all blockable ns) \<and>
     (\<forall>m. current b = Some m \<longrightarrow> matcher_ok (allow_list b) m)"

lemma bl_inv_lastGood:
  "bl_inv b \<Longrightarrow> ns \<noteq> [] \<Longrightarrow> list_all blockable ns \<Longrightarrow>
   bl_inv (b\<lparr>lastGood := (lastGood b)(u \<mapsto> ns)\<rparr>)"
  by (auto simp: bl_inv_def split: if_splits)

lemma bl_inv_remember: "bl_inv b \<Longrightarrow> bl_inv (b\<lparr>lastGood := remember ul env i url (lastGood b)\<rparr>)"
  using fetch_Ok [of ul "env_http env i url"]
  by (auto simp: remember_def intro: bl_inv_lastGood split: sum.splits)

lemma bl_inv_contribution: "bl_inv b \<Longrightarrow> list_all blockable (contribution ul env (lastGood b) i url)"
  using fetch_Ok [of ul "env_http env i url"]
  by (auto simp: contribution_def bl_inv_def split: sum.splits option.splits)

lemma reload_loop_inv:
  assumes "reload_loop ul env i us merged b mx = (mo, b', mx')" "bl_inv b" "list_all blockable merged"
  shows "bl_inv b' \<and> (\<forall>out. mo = Some out \<longrightarrow> list_all blockable out)"
  using assms
proof (induction us arbitrary: i merged b mx)
  case (Cons url us)
  show ?case
  proof (cases "env_cancelled env i")
    case True
    with Cons.prems show ?thesis by auto
  next
    case False
    obtain mx1 where eq: "reload_loop ul env i (url # us) merged b mx =
       reload_loop ul env (i + 1) us (merged @ contribution ul env (lastGood b) i url)
         (b\<lparr>lastGood := remember ul env i url (lastGood b)\<rparr>) mx1"
      using reload_loop_turn [OF False] .
    with Cons.prems(1) have "reload_loop ul env (i + 1) us (merged @ contribution ul env (lastGood b) i url)
         (b\<lparr>lastGood := remember ul env i url (lastGood b)\<rparr>) mx1 = (mo, b', mx')" by simp
    then show ?thesis
      by (rule Cons.IH) (use Cons.prems bl_inv_remember bl_inv_contribution in auto)
  qed
qed auto

lemma reload_gather_inv:
  assumes "reload_gather ul env b mx = (mo, b', mx')" "bl_inv b"
  shows "bl_inv b' \<and> (\<forall>m. mo = Some m \<longrightarrow> matcher_ok (allow_list b') m)"
proof -
  obtain out b1 mx1 where loop: "reload_loop ul env 0 (urls b) [] b mx = (out, b1, mx1)"
    by (cases "reload_loop ul env 0 (urls b) [] b mx") auto
  from reload_loop_inv [OF this assms(2)] have *: "bl_inv b1" "\<forall>o'. out = Some o' \<longrightarrow> list_all blockable o'"
    by auto
  show ?thesis
    using assms(1) * by (auto simp: reload_gather_def loop matcher_ok_def Let_def split: option.splits if_splits)
qed

lemma reload_gather_frame:
  assumes "reload_gather ul env b mx = (mo, b', mx')"
  shows "b' = b\<lparr>lastGood := lastGood b'\<rparr>" "failOpen mx' = failOpen mx" "domainsTotal mx' = domainsTotal mx"
    "blockedCount mx' = blockedCount mx" "allowedCount mx' = allowedCount mx"
proof -
  obtain out b1 mx1 where loop: "reload_loop ul env 0 (urls b) [] b mx = (out, b1, mx1)"
    by (cases "reload_loop ul env 0 (urls b) [] b mx") auto
  note fr = reload_loop_frame [OF loop]
  have b: "b' = b1" using assms by (auto simp: reload_gather_def loop Let_def split: option.splits if_splits)
  have "mx' = mx1 \<or> mx' = mx1\<lparr>reloadDuration := reloadDuration mx1 @ [env_elapsed env]\<rparr>"
    using assms by (auto simp: reload_gather_def loop Let_def split: option.splits if_splits)
  moreover have "failOpen mx1 = failOpen mx" "domainsTotal mx1 = domainsTotal mx"
    "blockedCount mx1 = blockedCount mx" "allowedCount mx1 = allowedCount mx"
    using conjunct2 [OF fr] by (metis bl_metrics.select_convs bl_metrics.surjective bl_metrics.update_convs)+
  ultimately show "failOpen mx' = failOpen mx" "domainsTotal mx' = domainsTotal mx"
    "blockedCount mx' = blockedCount mx" "allowedCount mx' = allowedCount mx" by auto
  show "b' = b\<lparr>lastGood := lastGood b'\<rparr>" using fr b by simp
qed

lemma reload_inv: "bl_inv b \<Longrightarrow> reload ul env b mx = (b', mx') \<Longrightarrow> bl_inv b'"
proof -
  assume b: "bl_inv b" and r: "reload ul env b mx = (b', mx')"
  obtain mo b1 mx1 where g: "reload_gather ul env b mx = (mo, b1, mx1)"
    by (cases "reload_gather ul env b mx") auto
  from reload_gather_inv [OF g b] have b1: "bl_inv b1" and m: "\<forall>m. mo = Some m \<longrightarrow> matcher_ok (allow_list b1) m"
    by auto
  show "bl_inv b'"
  proof (cases mo)
    case None
    with r b1 show ?thesis by (simp add: reload_def g)
  next
    case (Some m')
    with r have "b' = b1\<lparr>current := Some m', ready := True\<rparr>" by (simp add: reload_def g publish_defs)
    with b1 m Some show ?thesis by (simp add: bl_inv_def)
  qed
qed

subsection \<open>The invariant of the goroutines\<close>

definition life_inv :: "life \<Rightarrow> bool" where
  "life_inv s \<longleftrightarrow>
     bl_inv (lf_b s) \<and>
     (\<forall>m. lf_rpc s = RStore m \<or> lf_rpc s = RDomains m \<longrightarrow> matcher_ok (allow_list (lf_b s)) m) \<and>
     ((\<exists>m. lf_rpc s = RDomains m) \<or> lf_rpc s = RFailOpen \<or> lf_rpc s = RReady \<longrightarrow> current (lf_b s) \<noteq> None) \<and>
     (ready (lf_b s) \<longrightarrow> current (lf_b s) \<noteq> None \<or> lf_tpc s = TSwapped \<or> lf_tpc s = TFired) \<and>
     (lf_tpc s = TSwapped \<or> lf_tpc s = TFired \<or> lf_tpc s = TLate \<longrightarrow> ready (lf_b s)) \<and>
     (lf_tpc s = TCancelled \<longrightarrow> lf_stopped s)"

lemma life_inv_init: "life_init s \<Longrightarrow> life_inv s"
  by (auto simp: life_init_def life_inv_def bl_inv_def)

lemma life_inv_gather:
  assumes "life_inv s" "lf_rpc s = RFetch" "reload_gather ul env (lf_b s) (lf_mx s) = (mo, b, mx)"
  shows "life_inv (s\<lparr>lf_b := b, lf_mx := mx, lf_rpc := (case mo of None \<Rightarrow> RWait | Some m \<Rightarrow> RStore m)\<rparr>)"
proof -
  note fr = reload_gather_frame [OF assms(3)]
  have same: "current b = current (lf_b s)" "ready b = ready (lf_b s)" "allow_list b = allow_list (lf_b s)"
    by (subst fr(1), simp)+
  have "bl_inv (lf_b s)" using assms(1) by (simp add: life_inv_def)
  from reload_gather_inv [OF assms(3) this]
  have inv: "bl_inv b" "\<forall>m. mo = Some m \<longrightarrow> matcher_ok (allow_list b) m" by auto
  show ?thesis
    using assms(1,2) inv same fr(2) by (cases mo) (simp_all add: life_inv_def)
qed

lemma bl_inv_publish:
  "bl_inv b \<Longrightarrow> matcher_ok (allow_list b) m \<Longrightarrow> bl_inv (publish_current m b)"
  "bl_inv b \<Longrightarrow> bl_inv (publish_ready b)" "bl_inv b \<Longrightarrow> bl_inv (b\<lparr>ready := True\<rparr>)"
  by (simp_all add: bl_inv_def publish_defs)

lemma life_inv_step:
  assumes "life_inv s" "life_step ul s t"
  shows "life_inv t"
  using assms(2)
proof cases
  case (gather env mo b mx)
  with life_inv_gather [OF assms(1)] show ?thesis by simp
qed (use assms(1) in \<open>simp_all add: life_inv_def bl_inv_publish [unfolded publish_defs] publish_defs\<close>)

lemma life_inv_env:
  assumes "life_inv s" "life_env s t"
  shows "life_inv t"
proof -
  obtain mx where "t = s\<lparr>lf_mx := mx\<rparr>" using assms(2) by (auto simp: life_env_def)
  then show ?thesis using assms(1) by (simp add: life_inv_def)
qed

interpretation life: inductive_invariant life_init "life_move ul" life_inv for ul
  by unfold_locales (auto simp: life_move_def intro: life_inv_init life_inv_step life_inv_env)


text \<open>
  An instance that runs alone: a gauge that is up was raised by its own timer, or is the
  one it found at the start and it has not yet published a list.
\<close>

definition gauge_inv :: "nat \<Rightarrow> life \<Rightarrow> bool" where
  "gauge_inv g s \<longleftrightarrow>
     failOpen (lf_mx s) = 0 \<or> lf_tpc s = TFired \<or>
     failOpen (lf_mx s) = g \<and> (current (lf_b s) = None \<or> (\<exists>m. lf_rpc s = RDomains m) \<or> lf_rpc s = RFailOpen)"

lemma gauge_inv_step:
  assumes "life_inv s" "gauge_inv g s" "life_step ul s t"
  shows "gauge_inv g t"
  using assms(3)
proof cases
  case (gather env mo b mx)
  have "current b = current (lf_b s)" by (subst reload_gather_frame(1) [OF gather(3)], simp)
  then show ?thesis using gather assms(2) reload_gather_frame(2) [OF gather(3)] by (simp add: gauge_inv_def) blast
next
  case (store m)
  then show ?thesis using assms(2) by (simp add: gauge_inv_def publish_defs) blast
qed (use assms(1,2) in \<open>simp_all add: life_inv_def gauge_inv_def publish_defs\<close>)

lemma gauge_inv_steps:
  assumes "(life_step ul)\<^sup>*\<^sup>* s t" "life_inv s" "gauge_inv g s"
  shows "life_inv t \<and> gauge_inv g t"
  using assms by (induction rule: rtranclp_induct) (auto intro: life_inv_step gauge_inv_step)

text \<open>Readiness, a loaded list and remembered lists are never taken back.\<close>

definition life_progress :: "life \<Rightarrow> life \<Rightarrow> bool" where
  "life_progress s t \<longleftrightarrow>
     (ready (lf_b s) \<longrightarrow> ready (lf_b t)) \<and> (current (lf_b s) \<noteq> None \<longrightarrow> current (lf_b t) \<noteq> None) \<and>
     (lf_stopped s \<longrightarrow> lf_stopped t)"

lemma life_progress_step:
  assumes "life_step ul s t"
  shows "life_progress s t"
  using assms
proof cases
  case (gather env mo b mx)
  have "current b = current (lf_b s)" "ready b = ready (lf_b s)"
    by (subst reload_gather_frame(1) [OF gather(3)], simp)+
  with gather show ?thesis by (simp add: life_progress_def)
qed (simp_all add: life_progress_def publish_defs)

lemma life_progress_steps: "(life_step ul)\<^sup>*\<^sup>* s t \<Longrightarrow> life_progress s t"
  by (induction rule: rtranclp_induct)
    (auto simp: life_progress_def dest!: life_progress_step [unfolded life_progress_def])

text \<open>How far the refresh goroutine is from its exit.\<close>

fun refresh_rank :: "refresh_pc \<Rightarrow> nat" where
  "refresh_rank RFetch = 6"
| "refresh_rank (RStore m) = 5"
| "refresh_rank (RDomains m) = 4"
| "refresh_rank RFailOpen = 3"
| "refresh_rank RReady = 2"
| "refresh_rank RWait = 1"
| "refresh_rank RExited = 0"

lemma refresh_advances:
  assumes "lf_stopped s" "lf_rpc s \<noteq> RExited"
  shows "\<exists>t. life_step ul s t \<and> lf_tpc t = lf_tpc s \<and> lf_stopped t \<and>
     refresh_rank (lf_rpc t) < refresh_rank (lf_rpc s)"
proof -
  note advanceI = exI [where P = "\<lambda>t. life_step ul s t \<and> lf_tpc t = lf_tpc s \<and> lf_stopped t \<and>
     refresh_rank (lf_rpc t) < refresh_rank (lf_rpc s)", OF conjI]
  show ?thesis
  proof (cases "lf_rpc s")
    case RFetch
    obtain mo b mx where g: "reload_gather ul undefined (lf_b s) (lf_mx s) = (mo, b, mx)"
      by (cases "reload_gather ul undefined (lf_b s) (lf_mx s)") auto
    show ?thesis
      by (rule advanceI [OF life_step.gather [OF RFetch g]]) (use assms RFetch in \<open>simp split: option.split\<close>)
  next
    case (RStore m)
    show ?thesis
      by (rule advanceI [OF life_step.store [OF RStore]]) (use assms RStore in simp)
  next
    case (RDomains m)
    show ?thesis
      by (rule advanceI [OF life_step.domains [OF RDomains]]) (use assms RDomains in simp)
  next
    case RFailOpen
    show ?thesis
      by (rule advanceI [OF life_step.clear [OF RFailOpen]]) (use assms RFailOpen in simp)
  next
    case RReady
    show ?thesis
      by (rule advanceI [OF life_step.swap [OF RReady]]) (use assms RReady in simp)
  next
    case RWait
    show ?thesis
      by (rule advanceI [OF life_step.refresh_exit [OF RWait assms(1)]]) (use assms RWait in simp)
  qed (use assms in simp)
qed

lemma refresh_runs_out:
  "lf_stopped s \<Longrightarrow> \<exists>t. (life_step ul)\<^sup>*\<^sup>* s t \<and> lf_rpc t = RExited \<and> lf_tpc t = lf_tpc s"
proof (induction "refresh_rank (lf_rpc s)" arbitrary: s rule: less_induct)
  case less
  show ?case
  proof (cases "lf_rpc s = RExited")
    case False
    from refresh_advances [OF less.prems False, of ul] obtain t where
      t: "life_step ul s t" "lf_tpc t = lf_tpc s" "lf_stopped t"
        "refresh_rank (lf_rpc t) < refresh_rank (lf_rpc s)" by blast
    from less.hyps [OF t(4,3)] t(1,2) show ?thesis
      by (metis converse_rtranclp_into_rtranclp)
  qed auto
qed

subsection \<open>A concrete plugin\<close>

text \<open>
  A configured plugin, its metrics and its surroundings, on which the properties are
  evaluated: one source that answers with one name, and one that fails and has a last good
  list.
\<close>

definition sample_mx :: bl_metrics where
  "sample_mx =
     \<lparr>blockedCount = (\<lambda>_. 0), allowedCount = (\<lambda>_. 0), domainsTotal = 0,
      sourceDomains = Map.empty, sourceLastSuccess = Map.empty, sourceFailures = (\<lambda>_. 0),
      reloadDuration = [], failOpen = 0\<rparr>"

definition sample_b :: Blocklist where
  "sample_b =
     \<lparr>urls = [''http://a/'', ''http://b/''], allow_list = [''good.example.com''],
      bootstrap = newBootstrapResolver [''1.1.1.1:53''], refresh = 0, readyTimeout = 0,
      current = None, ready = False, lastGood = [''http://b/'' \<mapsto> [''old.example.net'']]\<rparr>"

definition sample_env :: reload_env where
  "sample_env =
     \<lparr>env_cancelled = (\<lambda>_. False),
      env_http = (\<lambda>_ u. if u = ''http://a/''
        then Response StatusOK \<lparr>rd_data = ''example.com'' @ [CHR 0x0A], rd_err = None\<rparr>
        else DoError ''timeout''),
      env_now = (\<lambda>_. 0), env_elapsed = 0\<rparr>"

definition sample_w :: live_writer where
  "sample_w = \<lparr>lw_local = ''local'', lw_remote = ''remote'', lw_write = (\<lambda>_. None)\<rparr>"

lemma sample_blockable: "blockable ''example.com''" "blockable ''old.example.net''"
  by code_simp+

lemma sample_contribution:
  "contribution ul sample_env (lastGood sample_b) k ''http://a/'' = [''example.com'']"
  "contribution ul sample_env (lastGood sample_b) k ''http://b/'' = [''old.example.net'']"
  using fetch_one_name [OF sample_blockable(1), of ul]
  by (simp_all add: contribution_def sample_env_def sample_b_def) (simp_all add: fetch_def)

lemma sample_inv: "bl_inv sample_b"
  using sample_blockable by (auto simp: bl_inv_def sample_b_def split: if_splits)

definition sample_life :: life where
  "sample_life =
     \<lparr>lf_b = sample_b\<lparr>lastGood := Map.empty\<rparr>, lf_mx = sample_mx, lf_rpc = RFetch, lf_tpc = TWait,
      lf_stopped = False\<rparr>"

definition sample_matcher :: matcher where
  "sample_matcher = \<lparr>block = newNameSet [''example.com''], allow = newNameSet [''good.example.com'']\<rparr>"

lemma sample_life_init: "life_init sample_life"
  by (simp add: life_init_def sample_life_def sample_b_def sample_mx_def)

lemma sample_gather:
  obtains b mx where
    "reload_gather ul sample_env (lf_b sample_life) (lf_mx sample_life) = (Some sample_matcher, b, mx)"
  using fetch_one_name [OF sample_blockable(1), of ul] that
  by (simp add: reload_gather_def sample_life_def sample_b_def sample_env_def sample_matcher_def
      fetch_def [of ul "DoError ''timeout''"] Let_def)

text \<open>
  The run in which the timer fires while the refresh goroutine is between clearing the
  gauge and setting the ready flag.
\<close>

lemma sample_race:
  obtains s where "reach life_init (life_step ul) s" "lf_rpc s = RWait" "lf_tpc s = TFired"
    "current (lf_b s) = Some sample_matcher" "failOpen (lf_mx s) = 1" "ready (lf_b s)"
proof -
  obtain b mx where g: "reload_gather ul sample_env (lf_b sample_life) (lf_mx sample_life) =
      (Some sample_matcher, b, mx)" by (rule sample_gather)
  let ?m = sample_matcher
  let ?s1 = "sample_life\<lparr>lf_b := b, lf_mx := mx, lf_rpc := RStore ?m\<rparr>"
  let ?s2 = "?s1\<lparr>lf_b := publish_current ?m b, lf_rpc := RDomains ?m\<rparr>"
  let ?s3 = "?s2\<lparr>lf_mx := publish_domains ?m mx, lf_rpc := RFailOpen\<rparr>"
  let ?s4 = "?s3\<lparr>lf_mx := publish_failOpen (publish_domains ?m mx), lf_rpc := RReady\<rparr>"
  let ?s5 = "?s4\<lparr>lf_b := (lf_b ?s4)\<lparr>ready := True\<rparr>, lf_tpc := TSwapped\<rparr>"
  let ?s6 = "?s5\<lparr>lf_mx := (lf_mx ?s5)\<lparr>failOpen := 1\<rparr>, lf_tpc := TFired\<rparr>"
  let ?s7 = "?s6\<lparr>lf_b := publish_ready (lf_b ?s6), lf_rpc := RWait\<rparr>"
  have pc: "lf_rpc sample_life = RFetch" "lf_tpc sample_life = TWait" by (simp_all add: sample_life_def)
  have nr: "\<not> ready b"
    by (subst reload_gather_frame(1) [OF g]) (simp add: sample_life_def sample_b_def)
  have "reach life_init (life_step ul) sample_life" by (rule reach_init) (rule sample_life_init)
  then have "reach life_init (life_step ul) ?s1"
    by (rule reach_step) (use life_step.gather [OF pc(1) g] in simp)
  then have "reach life_init (life_step ul) ?s2"
    by (rule reach_step) (use life_step.store [of ?s1 ?m ul] in simp)
  then have "reach life_init (life_step ul) ?s3"
    by (rule reach_step) (use life_step.domains [of ?s2 ?m ul] in simp)
  then have "reach life_init (life_step ul) ?s4"
    by (rule reach_step) (use life_step.clear [of ?s3 ul] in simp)
  then have "reach life_init (life_step ul) ?s5"
    by (rule reach_step) (use life_step.timer_first [of ?s4 ul] nr pc in \<open>simp add: publish_defs\<close>)
  then have "reach life_init (life_step ul) ?s6"
    by (rule reach_step) (use life_step.timer_set [of ?s5 ul] in simp)
  then have "reach life_init (life_step ul) ?s7"
    by (rule reach_step) (use life_step.swap [of ?s6 ul] in simp)
  then show thesis by (rule that) (simp_all add: publish_defs)
qed

subsection \<open>Properties of the handler\<close>

text \<open>
  C3: the handler filters: with the published matcher built from block names \<open>bs\<close> and
  allow names \<open>als\<close>, and a client connection that accepts the write, a query whose
  normalised name lies in a block subtree and in no allow subtree is answered at once with
  one authoritative NXDOMAIN for that query, without records, and the blocked counter of
  the server goes up; every other query gets exactly what the rest of the chain makes of
  it, and the allowed counter goes up. The rest of the chain has no influence on a blocked
  answer.
\<close>

theorem ServeDNS_filters:
  assumes sr: "set_rcode_ok sr"
    and w: "lw_write w = (\<lambda>_. None)"
    and cur: "current b = Some \<lparr>block = newNameSet bs, allow = newNameSet als\<rparr>"
    and q: "q = normalizeQuery ul name"
  shows "ServeDNS ul sr nxt server name w r b mx =
    (if q \<noteq> [] \<and> (\<exists>n\<in>set bs. n \<noteq> [] \<and> in_subtree n q) \<and> \<not> (\<exists>n\<in>set als. n \<noteq> [] \<and> in_subtree n q)
     then (mx\<lparr>blockedCount := (blockedCount mx)(server := blockedCount mx server + 1)\<rparr>,
           \<lparr>sv_rcode = RcodeNameError, sv_err = None,
            sv_written = [(sr new_msg r RcodeNameError)\<lparr>Authoritative := True\<rparr>]\<rparr>)
     else (mx\<lparr>allowedCount := (allowedCount mx)(server := allowedCount mx server + 1)\<rparr>, nxt r)) \<and>
    (let m = (sr new_msg r RcodeNameError)\<lparr>Authoritative := True\<rparr>
     in Rcode m = RcodeNameError \<and> Authoritative m \<and> msg_id m = msg_id r \<and>
        Question m = take 1 (Question r) \<and> Answer m = [] \<and> Ns m = [] \<and> Extra m = [])"
proof
  have dec: "blocked (current b) (normalizeQuery ul name) \<longleftrightarrow>
      q \<noteq> [] \<and> (\<exists>n\<in>set bs. n \<noteq> [] \<and> in_subtree n q) \<and> \<not> (\<exists>n\<in>set als. n \<noteq> [] \<and> in_subtree n q)"
    by (auto simp: blocked_def cur q names.cov_build)
  show "ServeDNS ul sr nxt server name w r b mx =
    (if q \<noteq> [] \<and> (\<exists>n\<in>set bs. n \<noteq> [] \<and> in_subtree n q) \<and> \<not> (\<exists>n\<in>set als. n \<noteq> [] \<and> in_subtree n q)
     then (mx\<lparr>blockedCount := (blockedCount mx)(server := blockedCount mx server + 1)\<rparr>,
           \<lparr>sv_rcode = RcodeNameError, sv_err = None,
            sv_written = [(sr new_msg r RcodeNameError)\<lparr>Authoritative := True\<rparr>]\<rparr>)
     else (mx\<lparr>allowedCount := (allowedCount mx)(server := allowedCount mx server + 1)\<rparr>, nxt r))"
    unfolding ServeDNS_def dec by (simp only: w bump_def Let_def option.case)
  show "let m = (sr new_msg r RcodeNameError)\<lparr>Authoritative := True\<rparr>
     in Rcode m = RcodeNameError \<and> Authoritative m \<and> msg_id m = msg_id r \<and>
        Question m = take 1 (Question r) \<and> Answer m = [] \<and> Ns m = [] \<and> Extra m = []"
    using set_rcode_okD [OF sr, of new_msg r RcodeNameError] by (simp add: new_msg_def)
qed

theorem ServeDNS_filters_witness:
  "snd (ServeDNS id set_rcode0 (\<lambda>_. \<lparr>sv_rcode = 0, sv_err = None, sv_written = []\<rparr>) ''dns://:53''
      ''Bad.Example.COM.'' sample_w new_msg
      (sample_b\<lparr>current := Some \<lparr>block = newNameSet [''example.com''],
                                  allow = newNameSet [''good.example.com'']\<rparr>\<rparr>) sample_mx) =
   \<lparr>sv_rcode = RcodeNameError, sv_err = None,
    sv_written = [(set_rcode0 new_msg new_msg RcodeNameError)\<lparr>Authoritative := True\<rparr>]\<rparr>"
proof -
  let ?b = "sample_b\<lparr>current := Some \<lparr>block = newNameSet [''example.com''],
                                  allow = newNameSet [''good.example.com'']\<rparr>\<rparr>"
  have w: "lw_write sample_w = (\<lambda>_. None)" by (simp add: sample_w_def)
  have c: "current ?b = Some \<lparr>block = newNameSet [''example.com''],
                                  allow = newNameSet [''good.example.com'']\<rparr>" by simp
  have q: "''bad.example.com'' = normalizeQuery id ''Bad.Example.COM.''" by code_simp
  have "in_subtree ''example.com'' ''bad.example.com''"
    "\<not> in_subtree ''good.example.com'' ''bad.example.com''" by code_simp+
  then show ?thesis
    using ServeDNS_filters [OF set_rcode0_ok w c q] by simp
qed

text \<open>
  The error and the unfiltered branch of the handler: with no list loaded every query
  passes to the rest of the chain, and when the client's connection refuses the NXDOMAIN
  nothing is written and the write error is returned with SERVFAIL, while the query is
  still counted as blocked.
\<close>

theorem ServeDNS_unfiltered_and_errors:
  "ServeDNS ul sr nxt server name w r (b\<lparr>current := None\<rparr>) mx =
     (mx\<lparr>allowedCount := bump (allowedCount mx) server\<rparr>, nxt r) \<and>
   (blocked (current b) (normalizeQuery ul name) \<and> (\<forall>m. lw_write w m = Some e) \<longrightarrow>
     ServeDNS ul sr nxt server name w r b mx =
       (mx\<lparr>blockedCount := bump (blockedCount mx) server\<rparr>,
        \<lparr>sv_rcode = RcodeServerFailure, sv_err = Some e, sv_written = []\<rparr>))"
  by (simp add: ServeDNS_def blocked_def Let_def)

theorem ServeDNS_unfiltered_and_errors_witness:
  "snd (ServeDNS id set_rcode0 (\<lambda>_. \<lparr>sv_rcode = 0, sv_err = None, sv_written = []\<rparr>) ''dns://:53''
      ''x.example.com.'' (sample_w\<lparr>lw_write := (\<lambda>_. Some (mk_err EPIPE))\<rparr>) new_msg
      (sample_b\<lparr>current := Some \<lparr>block = newNameSet [''example.com''], allow = []\<rparr>\<rparr>) sample_mx) =
   \<lparr>sv_rcode = RcodeServerFailure, sv_err = Some (mk_err EPIPE), sv_written = []\<rparr>"
proof -
  let ?b = "sample_b\<lparr>current := Some \<lparr>block = newNameSet [''example.com''], allow = []\<rparr>\<rparr>"
  have "blocked (Some \<lparr>block = newNameSet [''example.com''], allow = []\<rparr>)
      (normalizeQuery id ''x.example.com.'')" by code_simp
  then have "blocked (current ?b) (normalizeQuery id ''x.example.com.'')" by simp
  moreover have "\<forall>m. lw_write (sample_w\<lparr>lw_write := (\<lambda>_. Some (mk_err EPIPE))\<rparr>) m = Some (mk_err EPIPE)"
    by simp
  ultimately show ?thesis
    using ServeDNS_unfiltered_and_errors [of id set_rcode0 _ "''dns://:53''" "''x.example.com.''"
      "sample_w\<lparr>lw_write := (\<lambda>_. Some (mk_err EPIPE))\<rparr>" new_msg ?b sample_mx "mk_err EPIPE"] by simp
qed

subsection \<open>Properties of reload\<close>

lemma reload_gather_SomeD:
  assumes "reload_gather ul env b mx = (Some m, b', mx')"
  obtains out mx1 where "reload_loop ul env 0 (urls b) [] b mx = (Some out, b', mx1)" "out \<noteq> []"
    "m = \<lparr>block = newNameSet out, allow = newNameSet (allow_list b)\<rparr>"
proof -
  have al: "allow_list b' = allow_list b"
    by (subst reload_gather_frame(1) [OF assms], simp)
  obtain out b1 mx1 where loop: "reload_loop ul env 0 (urls b) [] b mx = (out, b1, mx1)"
    by (cases "reload_loop ul env 0 (urls b) [] b mx") auto
  from assms al that [of "the out" mx1] show thesis
    by (auto simp: reload_gather_def loop Let_def split: option.splits if_splits)
qed

text \<open>
  C10: a reload that runs to its end publishes the union of its sources: with distinct URLs
  and a context that stays alive, either no source contributes a name, and then the matcher,
  readiness and the fail-open gauge are left alone, or the plugin is ready afterwards with
  the gauge cleared, and its matcher blocks exactly the names below a name some source
  contributes and below no allow name, where a source contributes its fresh names if its
  fetch succeeds and otherwise the names of its last good fetch.
\<close>

theorem reload_publishes_union:
  assumes alive: "\<And>k. \<not> env_cancelled env k" and dist: "distinct (urls b)"
    and res: "reload ul env b mx = (b', mx')"
  shows "let names = concat (map (\<lambda>k. contribution ul env (lastGood b) k (urls b ! k)) [0..<length (urls b)])
    in if names = [] then current b' = current b \<and> ready b' = ready b \<and> failOpen mx' = failOpen mx
       else ready b' \<and> failOpen mx' = 0 \<and>
            domainsTotal mx' = size_of (current b') \<and>
            (\<forall>q. blocked (current b') q \<longleftrightarrow>
               q \<noteq> [] \<and> (\<exists>n\<in>set names. n \<noteq> [] \<and> in_subtree n q) \<and>
               \<not> (\<exists>n\<in>set (allow_list b). n \<noteq> [] \<and> in_subtree n q))"
proof -
  let ?names = "concat (map (\<lambda>k. contribution ul env (lastGood b) k (urls b ! k)) [0..<length (urls b)])"
  obtain out b1 mx1 where loop: "reload_loop ul env 0 (urls b) [] b mx = (Some out, b1, mx1)"
    using reload_loop_completes [OF alive] by blast
  have out: "set out = set ?names"
    using reload_loop_contributions [OF loop dist] by simp
  obtain mo b2 mx2 where g: "reload_gather ul env b mx = (mo, b2, mx2)"
    by (cases "reload_gather ul env b mx") auto
  note fr = reload_gather_frame [OF g]
  have same: "current b2 = current b" "ready b2 = ready b"
    by (subst fr(1), simp)+
  show ?thesis
  proof (cases "?names = []")
    case True
    with out have "out = []" by simp
    then have "mo = None" using g by (auto simp: reload_gather_def loop Let_def)
    with res g same fr(2) True show ?thesis by (auto simp: reload_def Let_def)
  next
    case False
    with out have "out \<noteq> []" by (metis set_empty)
    then obtain m where m: "mo = Some m" using g by (auto simp: reload_gather_def loop Let_def)
    from reload_gather_SomeD [OF g [unfolded m]] loop
    have meq: "m = \<lparr>block = newNameSet out, allow = newNameSet (allow_list b)\<rparr>" by auto
    have b': "b' = b2\<lparr>current := Some m, ready := True\<rparr>"
      and mx': "mx' = mx2\<lparr>domainsTotal := size_of (Some m), failOpen := 0\<rparr>"
      using res by (auto simp: reload_def g m publish_defs)
    have "blocked (Some m) q \<longleftrightarrow>
        q \<noteq> [] \<and> (\<exists>n\<in>set ?names. n \<noteq> [] \<and> in_subtree n q) \<and>
        \<not> (\<exists>n\<in>set (allow_list b). n \<noteq> [] \<and> in_subtree n q)" for q
      unfolding out [symmetric] by (auto simp: blocked_def meq names.cov_build)
    with b' mx' show ?thesis
      unfolding Let_def if_not_P [OF False] by (simp del: set_concat)
  qed
qed

theorem reload_publishes_union_witness:
  "ready (fst (reload id sample_env sample_b sample_mx)) \<and>
   blocked (current (fst (reload id sample_env sample_b sample_mx))) ''x.old.example.net'' \<and>
   blocked (current (fst (reload id sample_env sample_b sample_mx))) ''bad.example.com'' \<and>
   \<not> blocked (current (fst (reload id sample_env sample_b sample_mx))) ''good.example.com''"
proof -
  have alive: "\<not> env_cancelled sample_env k" for k by (simp add: sample_env_def)
  have dist: "distinct (urls sample_b)" by (simp add: sample_b_def)
  have names: "concat (map (\<lambda>k. contribution id sample_env (lastGood sample_b) k (urls sample_b ! k))
      [0..<length (urls sample_b)]) = [''example.com'', ''old.example.net'']"
    using sample_contribution [of id] by (simp add: sample_b_def)
  have "in_subtree ''old.example.net'' ''x.old.example.net''" "in_subtree ''example.com'' ''bad.example.com''"
    "in_subtree ''good.example.com'' ''good.example.com''"
    "\<not> in_subtree ''good.example.com'' ''x.old.example.net''"
    "\<not> in_subtree ''good.example.com'' ''bad.example.com''" by code_simp+
  moreover have "allow_list sample_b = [''good.example.com'']" by (simp add: sample_b_def)
  ultimately show ?thesis
    using reload_publishes_union [OF alive dist, of id sample_mx
        "fst (reload id sample_env sample_b sample_mx)" "snd (reload id sample_env sample_b sample_mx)"]
    by (simp only: names) (simp add: Let_def)
qed

text \<open>
  A source that starts failing keeps contributing: if all fetches of a configured URL
  fail while the context stays alive, every name of its last good fetch is in the matcher
  after the reload, whatever the other sources do, so the name and everything below it stay
  blocked unless allowed.
\<close>

theorem reload_keeps_failing_source:
  assumes alive: "\<And>k. \<not> env_cancelled env k" and inv: "bl_inv b"
    and good: "lastGood b u = Some ns" and u: "u \<in> set (urls b)"
    and fails: "\<And>k. \<exists>e. fetch ul (env_http env k u) = Err e"
    and n: "n \<in> set ns" "in_subtree n q"
    and res: "reload ul env b mx = (b', mx')"
  shows "\<exists>m. current b' = Some m \<and> covers (block m) q"
proof -
  obtain out b1 mx1 where loop: "reload_loop ul env 0 (urls b) [] b mx = (Some out, b1, mx1)"
    using reload_loop_completes [OF alive] by blast
  have sub: "set ns \<subseteq> set out" using reload_loop_stale [OF loop good fails u] .
  have bn: "n \<noteq> []" using inv good n blockable_not_Nil by (auto simp: bl_inv_def list_all_iff)
  obtain mo b2 mx2 where g: "reload_gather ul env b mx = (mo, b2, mx2)"
    by (cases "reload_gather ul env b mx") auto
  have "out \<noteq> []" using sub n by auto
  then obtain m where m: "mo = Some m" using g by (auto simp: reload_gather_def loop Let_def)
  from reload_gather_SomeD [OF g [unfolded m]] loop
  have "m = \<lparr>block = newNameSet out, allow = newNameSet (allow_list b)\<rparr>" by auto
  moreover have "current b' = Some m" using res by (auto simp: reload_def g m publish_defs)
  ultimately show ?thesis using n sub bn by (auto simp: names.cov_build)
qed

theorem reload_keeps_failing_source_witness:
  "\<exists>m. current (fst (reload id sample_env sample_b sample_mx)) = Some m \<and>
     covers (block m) ''x.old.example.net''"
proof (rule reload_keeps_failing_source [of sample_env sample_b "''http://b/''" "[''old.example.net'']" id
    "''old.example.net''" "''x.old.example.net''" sample_mx _ "snd (reload id sample_env sample_b sample_mx)"])
  show "bl_inv sample_b" by (rule sample_inv)
  show "in_subtree ''old.example.net'' ''x.old.example.net''" by code_simp
qed (simp_all add: sample_env_def sample_b_def fetch_def)

subsection \<open>Properties of the goroutines\<close>

text \<open>
  The publishing steps of the refresh goroutine, run without interference, are the
  reload: from the state before a reload the goroutine reaches the waiting state with
  exactly the plugin state and the metrics that \<open>reload\<close> computes.
\<close>

lemma reload_as_steps:
  assumes "lf_rpc s = RFetch" "reload ul env (lf_b s) (lf_mx s) = (b', mx')"
  shows "(life_step ul)\<^sup>*\<^sup>* s (s\<lparr>lf_b := b', lf_mx := mx', lf_rpc := RWait\<rparr>)"
proof -
  obtain mo b mx where g: "reload_gather ul env (lf_b s) (lf_mx s) = (mo, b, mx)"
    by (cases "reload_gather ul env (lf_b s) (lf_mx s)") auto
  note first = life_step.gather [OF assms(1) g]
  show ?thesis
  proof (cases mo)
    case None
    with assms(2) g first show ?thesis by (auto simp: reload_def)
  next
    case (Some m)
    let ?s1 = "s\<lparr>lf_b := b, lf_mx := mx, lf_rpc := RStore m\<rparr>"
    let ?s2 = "?s1\<lparr>lf_b := publish_current m b, lf_rpc := RDomains m\<rparr>"
    let ?s3 = "?s2\<lparr>lf_mx := publish_domains m mx, lf_rpc := RFailOpen\<rparr>"
    let ?s4 = "?s3\<lparr>lf_mx := publish_failOpen (publish_domains m mx), lf_rpc := RReady\<rparr>"
    let ?s5 = "?s4\<lparr>lf_b := publish_ready (publish_current m b), lf_rpc := RWait\<rparr>"
    have "life_step ul s ?s1" using first Some by simp
    moreover have "life_step ul ?s1 ?s2" using life_step.store [of ?s1 m ul] by simp
    moreover have "life_step ul ?s2 ?s3" using life_step.domains [of ?s2 m ul] by simp
    moreover have "life_step ul ?s3 ?s4" using life_step.clear [of ?s3 ul] by simp
    moreover have "life_step ul ?s4 ?s5" using life_step.swap [of ?s4 ul] by simp
    ultimately have "(life_step ul)\<^sup>*\<^sup>* s ?s5"
      by (meson converse_rtranclp_into_rtranclp rtranclp.rtrancl_refl)
    moreover have "?s5 = s\<lparr>lf_b := b', lf_mx := mx', lf_rpc := RWait\<rparr>"
      using assms(2) g Some by (auto simp: reload_def)
    ultimately show ?thesis by simp
  qed
qed


text \<open>An instance whose timer fires before any list is loaded.\<close>

abbreviation sample_swapped :: life where
  "sample_swapped \<equiv> sample_life\<lparr>lf_b := (lf_b sample_life)\<lparr>ready := True\<rparr>, lf_tpc := TSwapped\<rparr>"

abbreviation sample_fired :: life where
  "sample_fired \<equiv> sample_swapped\<lparr>lf_mx := (lf_mx sample_swapped)\<lparr>failOpen := 1\<rparr>, lf_tpc := TFired\<rparr>"

lemma sample_fires: "life_step ul sample_life sample_swapped" "life_step ul sample_swapped sample_fired"
proof -
  show "life_step ul sample_life sample_swapped"
    by (rule life_step.timer_first) (simp_all add: sample_life_def sample_b_def)
  show "life_step ul sample_swapped sample_fired" by (rule life_step.timer_set) simp
qed


text \<open>
  C16: what the fail-open gauge says of an instance that runs alone, started on whatever value
  an earlier instance has left in it: a gauge that is up was raised by its own timer, and
  the plugin is ready; or it still shows the inherited value, and the instance has not yet
  finished publishing its first list.
\<close>

theorem gauge_of_lone_instance:
  assumes "life_init s" "(life_step ul)\<^sup>*\<^sup>* s t" "failOpen (lf_mx t) \<noteq> 0"
  shows "lf_tpc t = TFired \<and> Ready (lf_b t) \<or>
    failOpen (lf_mx t) = failOpen (lf_mx s) \<and>
      (current (lf_b t) = None \<or> (\<exists>m. lf_rpc t = RDomains m) \<or> lf_rpc t = RFailOpen)"
proof -
  have "gauge_inv (failOpen (lf_mx s)) s" using assms(1) by (simp add: gauge_inv_def life_init_def)
  from gauge_inv_steps [OF assms(2) life_inv_init [OF assms(1)] this] assms(3) show ?thesis
    by (auto simp: gauge_inv_def life_inv_def Ready_def)
qed

theorem gauge_of_lone_instance_witness:
  "\<exists>t. (life_step id)\<^sup>*\<^sup>* sample_life t \<and> failOpen (lf_mx sample_life) = 0 \<and> failOpen (lf_mx t) = 1 \<and>
     lf_tpc t = TFired \<and> Ready (lf_b t)"
proof -
  have run: "(life_step id)\<^sup>*\<^sup>* sample_life sample_fired"
    using sample_fires [of id] by (meson converse_rtranclp_into_rtranclp r_into_rtranclp)
  have "failOpen (lf_mx sample_life) = 0" "failOpen (lf_mx sample_fired) = 1"
    by (simp_all add: sample_life_def sample_mx_def)
  moreover from this have "lf_tpc sample_fired = TFired \<and> Ready (lf_b sample_fired)"
    using gauge_of_lone_instance [OF sample_life_init run] by simp
  ultimately show ?thesis using run by blast
qed

text \<open>
  C40: the timer goroutine outlives the shutdown: \<open>shutdown\<close> waits for the refresh goroutine
  only, and a timer that has expired when the context is cancelled may still be taken by
  the \<open>select\<close>. The instance then raises the gauge after its shutdown has returned, when
  the instance that replaces it may long have published a list, and never lowers it again.
\<close>

theorem timer_outlives_shutdown:
  "\<exists>s t. reach life_init (life_step ul) s \<and> shutdown_returns s \<and> failOpen (lf_mx s) = 0 \<and>
     (life_step ul)\<^sup>*\<^sup>* s t \<and> failOpen (lf_mx t) = 1 \<and>
     (\<forall>u. (life_step ul)\<^sup>*\<^sup>* t u \<longrightarrow> failOpen (lf_mx u) = 1)"
proof -
  define env where "env = sample_env\<lparr>env_cancelled := (\<lambda>_. True)\<rparr>"
  let ?s1 = "sample_life\<lparr>lf_stopped := True\<rparr>" and ?s2 = "sample_life\<lparr>lf_stopped := True, lf_rpc := RWait\<rparr>"
  let ?s3 = "sample_life\<lparr>lf_stopped := True, lf_rpc := RExited\<rparr>"
  let ?s4 = "?s3\<lparr>lf_b := (lf_b ?s3)\<lparr>ready := True\<rparr>, lf_tpc := TSwapped\<rparr>"
  let ?s5 = "?s4\<lparr>lf_mx := (lf_mx ?s4)\<lparr>failOpen := 1\<rparr>, lf_tpc := TFired\<rparr>"
  have g: "reload_gather ul env (lf_b ?s1) (lf_mx ?s1) = (None, lf_b ?s1, lf_mx ?s1)"
    by (simp add: reload_gather_def env_def sample_life_def sample_b_def)
  have "reach life_init (life_step ul) sample_life" by (rule reach_init) (rule sample_life_init)
  then have "reach life_init (life_step ul) ?s1" by (rule reach_step) (rule life_step.shutdown, simp)
  then have "reach life_init (life_step ul) ?s2"
    by (rule reach_step) (use life_step.gather [OF _ g] in \<open>simp add: sample_life_def\<close>)
  then have r: "reach life_init (life_step ul) ?s3"
    by (rule reach_step) (use life_step.refresh_exit [of ?s2 ul] in simp)
  have "life_step ul ?s3 ?s4" by (rule life_step.timer_first) (simp_all add: sample_life_def sample_b_def)
  moreover have "life_step ul ?s4 ?s5" by (rule life_step.timer_set) simp
  ultimately have run: "(life_step ul)\<^sup>*\<^sup>* ?s3 ?s5" by (meson converse_rtranclp_into_rtranclp r_into_rtranclp)
  have "failOpen (lf_mx u) = 1 \<and> lf_rpc u = RExited \<and> lf_tpc u = TFired" if "(life_step ul)\<^sup>*\<^sup>* ?s5 u" for u
    using that
  proof (induction rule: rtranclp_induct)
    case (step y z)
    from step.hyps(2) step.IH show ?case by cases simp_all
  qed simp
  with r run show ?thesis
    by (intro exI [of _ ?s3] exI [of _ ?s5]) (simp add: shutdown_returns_def sample_life_def sample_mx_def)
qed

theorem timer_outlives_shutdown_witness:
  "\<exists>s t. reach life_init (life_step id) s \<and> shutdown_returns s \<and> failOpen (lf_mx s) = 0 \<and>
     (life_step id)\<^sup>*\<^sup>* s t \<and> failOpen (lf_mx t) = 1 \<and>
     failOpen (lf_mx (t\<lparr>lf_stopped := True\<rparr>)) = 1"
proof -
  obtain s t where st: "reach life_init (life_step id) s" "shutdown_returns s" "failOpen (lf_mx s) = 0"
      "(life_step id)\<^sup>*\<^sup>* s t" "failOpen (lf_mx t) = 1"
      and later: "\<forall>u. (life_step id)\<^sup>*\<^sup>* t u \<longrightarrow> failOpen (lf_mx u) = 1"
    using timer_outlives_shutdown [of id] by blast
  have "life_step id t (t\<lparr>lf_stopped := True\<rparr>)" by (rule life_step.shutdown) simp
  then have "failOpen (lf_mx (t\<lparr>lf_stopped := True\<rparr>)) = 1" using later by blast
  with st show ?thesis by blast
qed

text \<open>
  C27: readiness and protection are never taken back: along every run from a reachable state
  the plugin stays ready once it is, and once a list has been loaded there is always one.
\<close>

theorem life_monotone:
  assumes "(life_step ul)\<^sup>*\<^sup>* s t"
  shows "(Ready (lf_b s) \<longrightarrow> Ready (lf_b t)) \<and> (current (lf_b s) \<noteq> None \<longrightarrow> current (lf_b t) \<noteq> None)"
  using life_progress_steps [OF assms] by (simp add: life_progress_def Ready_def)

theorem life_monotone_witness:
  "\<exists>s t. (life_step id)\<^sup>*\<^sup>* s t \<and> s \<noteq> t \<and> Ready (lf_b s) \<and> Ready (lf_b t)"
proof -
  let ?s = "sample_life\<lparr>lf_b := (lf_b sample_life)\<lparr>ready := True\<rparr>\<rparr>"
  have st: "(life_step id)\<^sup>*\<^sup>* ?s (?s\<lparr>lf_stopped := True\<rparr>)" by (intro r_into_rtranclp life_step.shutdown) simp
  moreover have "?s \<noteq> ?s\<lparr>lf_stopped := True\<rparr>"
    using arg_cong [of ?s "?s\<lparr>lf_stopped := True\<rparr>" lf_stopped] by (auto simp: sample_life_def)
  moreover have "Ready (lf_b ?s)" by (simp add: Ready_def)
  ultimately show ?thesis using life_monotone [OF st] by blast
qed

text \<open>
  C39: the fail-open gauge can be left standing at 1 although a list is loaded and filters:
  when the timer fires between the reload clearing the gauge and the reload setting the
  ready flag, the timer's swap still sees the plugin as not ready and raises the gauge,
  and nothing lowers it before the next reload.
\<close>

theorem fail_open_gauge_race:
  "\<exists>s. reach life_init (life_step ul) s \<and> lf_rpc s = RWait \<and> lf_tpc s = TFired \<and>
     blocked (current (lf_b s)) ''bad.example.com'' \<and> failOpen (lf_mx s) = 1"
proof -
  obtain s where s: "reach life_init (life_step ul) s" "lf_rpc s = RWait" "lf_tpc s = TFired"
    "current (lf_b s) = Some sample_matcher" "failOpen (lf_mx s) = 1"
    using sample_race by blast
  have "blocked (Some sample_matcher) ''bad.example.com''" by code_simp
  with s show ?thesis by auto
qed

text \<open>
  Shutdown never hangs on the refresh goroutine: from every state after the stop, the
  goroutine can run to its exit on its own, without a step of the timer goroutine.
\<close>

theorem shutdown_reaches_exit:
  assumes "lf_stopped s"
  shows "\<exists>t. (life_step ul)\<^sup>*\<^sup>* s t \<and> lf_rpc t = RExited \<and> lf_tpc t = lf_tpc s"
  using refresh_runs_out [OF assms, of ul] by blast

theorem shutdown_reaches_exit_witness:
  "\<exists>t. (life_step id)\<^sup>*\<^sup>* (sample_life\<lparr>lf_stopped := True\<rparr>) t \<and> lf_rpc t = RExited \<and> lf_tpc t = TWait"
  using shutdown_reaches_exit [of "sample_life\<lparr>lf_stopped := True\<rparr>" id] by (simp add: sample_life_def)

end
