(* ===== verification/Store.thy ===== *)
theory Store
  imports Dns_Types Go_Time
begin

text \<open>
  The probe store of the peercache plugin (\<open>plugin/peercache/store.go\<close>): which answers may
  be held for siblings, how they are keyed, their expiry, and the rewriting of the TTLs of
  an answer that is served.

  The cache behind the store, the classification of a response and the hash of a key belong
  to CoreDNS and are parameters; the laws of the cache the store relies on are the
  predicate \<open>cache_ok\<close>. Entries hold pointers into the message heap, so that the copies
  the code makes are visible.
\<close>

subsection \<open>State and parameters\<close>

record entry =
  e_msg :: ptr
  e_stored :: int
  e_origTTL :: "32 word"

text \<open>The operations of \<open>cache.Cache\<close> the store calls.\<close>

record 'c cache_ops =
  c_New :: "nat \<Rightarrow> 'c"
  c_Add :: "64 word \<Rightarrow> entry \<Rightarrow> 'c \<Rightarrow> 'c"
  c_Get :: "'c \<Rightarrow> 64 word \<Rightarrow> entry option"
  c_Remove :: "64 word \<Rightarrow> 'c \<Rightarrow> 'c"
  c_Len :: "'c \<Rightarrow> nat"

text \<open>
  What is relied on: a new cache is empty, an added entry can be got back, adding may evict other entries but
  never changes one, and a removed entry is gone while the others stay.
\<close>

definition cache_ok :: "'c cache_ops \<Rightarrow> bool" where
  "cache_ok ops \<longleftrightarrow>
     (\<forall>n k. c_Get ops (c_New ops n) k = None) \<and> (\<forall>n. c_Len ops (c_New ops n) = 0) \<and>
     (\<forall>k e c. c_Get ops (c_Add ops k e c) k = Some e) \<and>
     (\<forall>k e c k' e'. k' \<noteq> k \<longrightarrow> c_Get ops (c_Add ops k e c) k' = Some e' \<longrightarrow> c_Get ops c k' = Some e') \<and>
     (\<forall>k c. c_Get ops (c_Remove ops k c) k = None) \<and>
     (\<forall>k c k'. k' \<noteq> k \<longrightarrow> c_Get ops (c_Remove ops k c) k' = c_Get ops c k')"

datatype response_type = NoError | NameError | NoData | OtherType

record 'c store =
  s_c :: 'c
  s_heap :: heap
  storeEntries :: nat

record 'c store_env =
  ops :: "'c cache_ops"
  typify :: "msg \<Rightarrow> int \<Rightarrow> response_type"
  hash :: "string \<Rightarrow> 64 word"
  setRcode :: set_rcode

definition minServeTTL :: int where "minServeTTL = 5 * second"

definition storeCapacity :: nat where "storeCapacity = 4096"

subsection \<open>Operations\<close>

text \<open>A store at start, in a process whose heap is \<open>h\<close>.\<close>

definition newStore :: "'c store_env \<Rightarrow> nat \<Rightarrow> heap \<Rightarrow> 'c store" where
  "newStore E capacity h = \<lparr>s_c = c_New (ops E) capacity, s_heap = h, storeEntries = 0\<rparr>"

definition storable :: "'c store_env \<Rightarrow> int \<Rightarrow> request \<Rightarrow> msg option \<Rightarrow> bool" where
  "storable E now rq mo =
     (case mo of
        None \<Rightarrow> False
      | Some m \<Rightarrow>
          if Truncated m \<or> req_Do rq \<or> CheckingDisabled (req_Req rq) then False
          else (case typify E m now of
                  NoError \<Rightarrow> True | NameError \<Rightarrow> True | NoData \<Rightarrow> True | OtherType \<Rightarrow> False))"

definition key_bytes :: "request \<Rightarrow> string" where
  "key_bytes rq =
     req_Name rq @
     [char_of (unat (drop_bit 8 (req_QType rq))), char_of (unat (req_QType rq)),
      char_of (unat (drop_bit 8 (req_QClass rq))), char_of (unat (req_QClass rq))]"

definition key :: "'c store_env \<Rightarrow> request \<Rightarrow> 64 word" where
  "key E rq = hash E (key_bytes rq)"

text \<open>The loops over the three sections; \<open>None\<close> is \<open>found = false\<close>.\<close>

fun minTTL_loop :: "rr list \<Rightarrow> (32 word) option \<Rightarrow> (32 word) option" where
  "minTTL_loop [] acc = acc"
| "minTTL_loop (r # rs) acc =
     (if rr_type r = TypeOPT then minTTL_loop rs acc
      else minTTL_loop rs
        (case acc of
           None \<Rightarrow> Some (rr_ttl r)
         | Some mn \<Rightarrow> if rr_ttl r < mn then Some (rr_ttl r) else Some mn))"

definition minTTL :: "msg \<Rightarrow> (32 word) option" where
  "minTTL m = minTTL_loop (Extra m) (minTTL_loop (Ns m) (minTTL_loop (Answer m) None))"

definition setTTL_rrs :: "32 word \<Rightarrow> rr list \<Rightarrow> rr list" where
  "setTTL_rrs ttl = map (\<lambda>r. if rr_type r = TypeOPT then r else r\<lparr>rr_ttl := ttl\<rparr>)"

definition setTTL :: "msg \<Rightarrow> 32 word \<Rightarrow> msg" where
  "setTTL m ttl =
     m\<lparr>Answer := setTTL_rrs ttl (Answer m), Ns := setTTL_rrs ttl (Ns m),
       Extra := setTTL_rrs ttl (Extra m)\<rparr>"

text \<open>
  \<open>put\<close> reads two clocks: \<open>time.Now\<close> (\<open>t\<close>) to classify the answer and the store's own
  (\<open>now\<close>) to date the entry.
\<close>

definition put :: "'c store_env \<Rightarrow> int \<Rightarrow> int \<Rightarrow> request \<Rightarrow> ptr option \<Rightarrow> 'c store \<Rightarrow> 'c store" where
  "put E t now rq mp s =
     (if \<not> storable E t rq (map_option (h_cell (s_heap s)) mp) then s
      else case mp of
        None \<Rightarrow> s
      | Some p \<Rightarrow>
         (case minTTL (h_cell (s_heap s) p) of
            None \<Rightarrow> s
          | Some ttl \<Rightarrow>
              if uint ttl * second < minServeTTL then s
              else (case h_copy (s_heap s) p of (cp, h) \<Rightarrow>
                let c = c_Add (ops E) (key E rq) \<lparr>e_msg = cp, e_stored = now, e_origTTL = ttl\<rparr> (s_c s)
                in s\<lparr>s_c := c, s_heap := h, storeEntries := c_Len (ops E) c\<rparr>)))"

definition get_remaining :: "int \<Rightarrow> entry \<Rightarrow> int" where
  "get_remaining now e = wrap64 (uint (e_origTTL e) * second - time_Sub now (e_stored e))"

text \<open>
  \<open>uint32(remaining.Seconds())\<close>: in range whenever the clock has not gone back.
\<close>

definition serve_ttl :: "int \<Rightarrow> 32 word" where
  "serve_ttl remaining = word_of_int (fl_trunc (Seconds remaining))"

definition get :: "'c store_env \<Rightarrow> int \<Rightarrow> request \<Rightarrow> 'c store \<Rightarrow> ptr option \<times> 'c store" where
  "get E now rq s =
     (if req_Do rq \<or> CheckingDisabled (req_Req rq) then (None, s)
      else let k = key E rq
           in case c_Get (ops E) (s_c s) k of
                None \<Rightarrow> (None, s)
              | Some e \<Rightarrow>
                 (let remaining = get_remaining now e
                  in if remaining < minServeTTL
                     then (let c = c_Remove (ops E) k (s_c s)
                           in (None, s\<lparr>s_c := c, storeEntries := c_Len (ops E) c\<rparr>))
                     else (case h_copy (s_heap s) (e_msg e) of (p, h) \<Rightarrow>
                        let rcode = Rcode (h_cell h p);
                            h = h_write h p (setRcode E (h_cell h p) (req_Req rq) rcode);
                            h = h_write h p (setTTL (h_cell h p) (serve_ttl remaining))
                        in (Some p, s\<lparr>s_heap := h\<rparr>))))"

definition len :: "'c store_env \<Rightarrow> 'c store \<Rightarrow> nat" where
  "len E s = c_Len (ops E) (s_c s)"

lemmas store_defs [go_eval] =
  newStore_def storable_def key_bytes_def key_def minTTL_def setTTL_rrs_def setTTL_def put_def get_def len_def
  minServeTTL_def get_remaining_def heap_defs

text \<open>A request for the same name, type and class has the same key.\<close>

lemma key_same_question:
  "req_Name rq = req_Name rq' \<Longrightarrow> req_QType rq = req_QType rq' \<Longrightarrow> req_QClass rq = req_QClass rq' \<Longrightarrow>
   key E rq = key E rq'"
  by (simp add: key_def key_bytes_def)

text \<open>An instance of the parameters: a cache that never evicts, a bytewise hash.\<close>

definition map_cache :: "(64 word \<rightharpoonup> entry) cache_ops" where
  "map_cache =
     \<lparr>c_New = (\<lambda>_. Map.empty), c_Add = (\<lambda>k e c. c(k \<mapsto> e)), c_Get = (\<lambda>c k. c k), c_Remove = (\<lambda>k c. c(k := None)),
      c_Len = (\<lambda>c. card (dom c))\<rparr>"

definition sample_store_env :: "(64 word \<rightharpoonup> entry) store_env" where
  "sample_store_env =
     \<lparr>ops = map_cache, typify = (\<lambda>m now. if Rcode m = 0 then NoError else NameError),
      hash = (\<lambda>s. of_nat (sum_list (map byte s))), setRcode = set_rcode0\<rparr>"

lemma map_cache_ok: "cache_ok map_cache"
  by (auto simp: cache_ok_def map_cache_def)

subsection \<open>The TTLs of a message\<close>

text \<open>All records but OPT, whose header TTL is not a lifetime.\<close>

definition lifetimes :: "msg \<Rightarrow> (32 word) list" where
  "lifetimes m = map rr_ttl (filter (\<lambda>r. rr_type r \<noteq> TypeOPT) (Answer m @ Ns m @ Extra m))"

lemma minTTL_loop_fold:
  "minTTL_loop rs acc =
     fold (\<lambda>t acc. Some (case acc of None \<Rightarrow> t | Some mn \<Rightarrow> min t mn))
       (map rr_ttl (filter (\<lambda>r. rr_type r \<noteq> TypeOPT) rs)) acc"
  by (induction rs acc rule: minTTL_loop.induct) (auto simp: min_def split: option.splits)

lemma minTTL_fold:
  "minTTL m = fold (\<lambda>t acc. Some (case acc of None \<Rightarrow> t | Some mn \<Rightarrow> min t mn)) (lifetimes m) None"
  by (simp add: minTTL_def lifetimes_def minTTL_loop_fold)

lemma fold_min_Some:
  "fold (\<lambda>t acc. Some (case acc of None \<Rightarrow> t | Some mn \<Rightarrow> min t mn)) ts (Some (a :: 'a :: linorder)) =
     Some (Min (set (a # ts)))"
proof (induction ts arbitrary: a)
  case (Cons t ts)
  have "Min (insert (min t a) (set ts)) = Min (insert a (insert t (set ts)))"
    by (cases "ts = []") (simp_all add: min.assoc min.left_commute min.commute)
  then show ?case using Cons by simp
qed simp

lemma minTTL_eq:
  "minTTL m = (if lifetimes m = [] then None else Some (Min (set (lifetimes m))))"
  by (cases "lifetimes m") (simp_all add: minTTL_fold fold_min_Some)

lemma setTTL_simps [simp]:
  "Rcode (setTTL m t) = Rcode m" "msg_id (setTTL m t) = msg_id m" "Question (setTTL m t) = Question m"
  "Truncated (setTTL m t) = Truncated m" "Answer (setTTL m t) = setTTL_rrs t (Answer m)"
  "Ns (setTTL m t) = setTTL_rrs t (Ns m)" "Extra (setTTL m t) = setTTL_rrs t (Extra m)"
  by (simp_all add: setTTL_def)

lemma lifetimes_setTTL: "lifetimes (setTTL m t) = map (\<lambda>_. t) (lifetimes m)"
  by (simp add: lifetimes_def setTTL_rrs_def filter_map comp_def)


subsection \<open>The TTL of a served answer\<close>

lemma get_remaining_eq:
  assumes "e_stored e \<le> now"
  shows "get_remaining now e = uint (e_origTTL e) * second - min maxDuration (now - e_stored e)"
proof -
  have u: "0 \<le> uint (e_origTTL e)" "uint (e_origTTL e) < 2 ^ 32"
    using uint_lt2p [of "e_origTTL e"] by simp_all
  have "time_Sub now (e_stored e) = min maxDuration (now - e_stored e)"
    using assms by (simp add: time_Sub_def minDuration_def maxDuration_def)
  moreover have "0 \<le> min maxDuration (now - e_stored e)" "min maxDuration (now - e_stored e) \<le> maxDuration"
    using assms by (simp_all add: maxDuration_def)
  moreover have "minDuration \<le> u * second - d" "u * second - d \<le> maxDuration"
    if "0 \<le> d" "d \<le> maxDuration" "0 \<le> u" "u < 2 ^ 32" for d u
    using that by (simp_all add: minDuration_def maxDuration_def second_def)
  ultimately show ?thesis using u by (simp add: get_remaining_def wrap64_id)
qed

lemma get_remaining_hit:
  assumes "e_stored e \<le> now" "minServeTTL \<le> get_remaining now e"
  shows "get_remaining now e = uint (e_origTTL e) * second - (now - e_stored e)"
  using assms uint_lt2p [of "e_origTTL e"]
  by (auto simp: get_remaining_eq min_def minServeTTL_def second_def maxDuration_def split: if_splits)

lemma get_remaining_le: "e_stored e \<le> now \<Longrightarrow> get_remaining now e \<le> uint (e_origTTL e) * second"
  by (simp add: get_remaining_eq maxDuration_def)

lemma serve_ttl_bounds:
  assumes lo: "minServeTTL \<le> r" and hi: "r \<le> uint (t :: 32 word) * second"
  shows "5 \<le> uint (serve_ttl r)" "uint (serve_ttl r) \<le> uint t"
    "r div second \<le> uint (serve_ttl r)" "uint (serve_ttl r) * second < r + second"
proof -
  have t: "uint t < 2 ^ 32" using uint_lt2p [of t] by simp
  have r: "0 \<le> r" "r < second * 2 ^ 52" using assms t by (simp_all add: minServeTTL_def second_def)
  have c: "- (- r div second) \<le> uint t"
    using zdiv_mono1 [of "- (uint t * second)" "- r" second] hi by (simp add: second_def)
  have f: "5 \<le> r div second"
    using zdiv_mono1 [of "5 * second" r second] lo by (simp add: minServeTTL_def second_def)
  have x: "r div second \<le> fl_trunc (Seconds r)" "fl_trunc (Seconds r) \<le> - (- r div second)"
    using Seconds_trunc [OF r] .
  then have "0 \<le> fl_trunc (Seconds r)" "fl_trunc (Seconds r) < 2 ^ 32" using t c f by linarith+
  then have "uint (serve_ttl r) = fl_trunc (Seconds r)"
    by (simp add: serve_ttl_def uint_word_of_int_eq take_bit_int_eq_self)
  moreover have "- (- r div second) * second < r + second"
    using div_mult_mod_eq [of "- r" second] pos_mod_bound [of second "- r"]
    by (simp add: second_def)
  ultimately show "5 \<le> uint (serve_ttl r)" "uint (serve_ttl r) \<le> uint t"
    "r div second \<le> uint (serve_ttl r)" "uint (serve_ttl r) * second < r + second"
    using x f c by (auto simp: second_def)
qed

text \<open>Below \<open>2^24\<close> seconds the floating-point detour is exact.\<close>

lemma serve_ttl_exact:
  assumes "minServeTTL \<le> r" "r \<le> uint (t :: 32 word) * second" "uint t < 2 ^ 24"
  shows "uint (serve_ttl r) = r div second"
proof -
  have r: "0 \<le> r" "r < second * 2 ^ 24" using assms by (simp_all add: minServeTTL_def second_def)
  have "0 \<le> r div second" "r div second < 2 ^ 24"
    using r int_div_less [of r "2 ^ 24" second] by (auto simp: second_def)
  then show ?thesis
    using Seconds_exact [OF r] by (simp add: serve_ttl_def uint_word_of_int_eq take_bit_int_eq_self)
qed

text \<open>What a served answer keeps of the held one: everything but the identifier, the question and the TTLs.\<close>

definition rebased :: "msg \<Rightarrow> msg \<Rightarrow> 32 word \<Rightarrow> msg \<Rightarrow> bool" where
  "rebased m r t m' \<longleftrightarrow>
     msg_id m' = msg_id r \<and> Question m' = take 1 (Question r) \<and> Rcode m' = Rcode m \<and>
     Truncated m' = Truncated m \<and> Answer m' = setTTL_rrs t (Answer m) \<and>
     Ns m' = setTTL_rrs t (Ns m) \<and> Extra m' = setTTL_rrs t (Extra m)"

lemma get_hit:
  assumes sr: "set_rcode_ok (setRcode E)" and "\<not> req_Do rq" "\<not> CheckingDisabled (req_Req rq)"
    and e: "c_Get (ops E) (s_c s) (key E rq) = Some e" and r: "minServeTTL \<le> get_remaining now e"
    and p: "e_msg e < h_next (s_heap s)"
  obtains s' where "get E now rq s = (Some (h_next (s_heap s)), s')"
    "s_c s' = s_c s" "storeEntries s' = storeEntries s" "h_next (s_heap s') = Suc (h_next (s_heap s))"
    "\<forall>q. q \<noteq> h_next (s_heap s) \<longrightarrow> h_cell (s_heap s') q = h_cell (s_heap s) q"
    "rebased (h_cell (s_heap s) (e_msg e)) (req_Req rq) (serve_ttl (get_remaining now e))
       (h_cell (s_heap s') (h_next (s_heap s)))"
proof -
  have "\<not> get_remaining now e < minServeTTL" using r by simp
  then obtain s' where "get E now rq s = (Some (h_next (s_heap s)), s')"
    and "s' = s\<lparr>s_heap := (s_heap s)\<lparr>h_cell := (h_cell (s_heap s))(h_next (s_heap s) :=
           setTTL (setRcode E (h_cell (s_heap s) (e_msg e)) (req_Req rq) (Rcode (h_cell (s_heap s) (e_msg e))))
             (serve_ttl (get_remaining now e))), h_next := Suc (h_next (s_heap s))\<rparr>\<rparr>"
    using assms(2,3) e by (simp add: get_def Let_def heap_defs)
  then show thesis using that set_rcode_okD [OF sr] by (simp add: rebased_def)
qed

lemma get_miss:
  assumes "req_Do rq \<or> CheckingDisabled (req_Req rq) \<or> c_Get (ops E) (s_c s) (key E rq) = None"
  shows "get E now rq s = (None, s)"
  using assms by (auto simp: get_def Let_def)

lemma get_expired:
  assumes "\<not> req_Do rq" "\<not> CheckingDisabled (req_Req rq)"
    and "c_Get (ops E) (s_c s) (key E rq) = Some e" "get_remaining now e < minServeTTL"
  shows "get E now rq s =
    (None, s\<lparr>s_c := c_Remove (ops E) (key E rq) (s_c s),
             storeEntries := c_Len (ops E) (c_Remove (ops E) (key E rq) (s_c s))\<rparr>)"
  using assms by (simp add: get_def Let_def)

lemma put_stored:
  assumes "storable E t rq (Some (h_cell (s_heap s) p))"
    and "minTTL (h_cell (s_heap s) p) = Some ttl" "minServeTTL \<le> uint ttl * second"
  shows "put E t now rq (Some p) s =
    (let c = c_Add (ops E) (key E rq) \<lparr>e_msg = h_next (s_heap s), e_stored = now, e_origTTL = ttl\<rparr> (s_c s)
     in s\<lparr>s_c := c, storeEntries := c_Len (ops E) c,
          s_heap := snd (h_copy (s_heap s) p)\<rparr>)"
  using assms by (simp add: put_def Let_def heap_defs)

definition put_accepts :: "'c store_env \<Rightarrow> int \<Rightarrow> request \<Rightarrow> msg \<Rightarrow> bool" where
  "put_accepts E t rq m \<longleftrightarrow>
     storable E t rq (Some m) \<and> (\<exists>ttl. minTTL m = Some ttl \<and> minServeTTL \<le> uint ttl * second)"

lemma put_ignored: "\<not> put_accepts E t rq (h_cell (s_heap s) p) \<Longrightarrow> put E t now rq (Some p) s = s"
  by (auto simp: put_accepts_def put_def split: option.splits)


subsection \<open>The store among its callers\<close>

text \<open>
  The store as it runs: its callers hold pointers to messages (the answers they resolved
  and the ones the store gave them), may change those messages at any time, and call
  \<open>put\<close> and \<open>get\<close> in any order while the clock advances. The log of accepted answers is
  a history variable: it is read by the theorems only.
\<close>

record 'c sys =
  sy_store :: "'c store"
  sy_callers :: "ptr list"
  sy_clock :: int
  sy_log :: "(request \<times> msg \<times> int) list"

definition sys_init :: "'c store_env \<Rightarrow> 'c sys \<Rightarrow> bool" where
  "sys_init E y \<longleftrightarrow>
     sy_log y = [] \<and> sy_store y = newStore E storeCapacity (s_heap (sy_store y)) \<and>
     list_all (\<lambda>p. p < h_next (s_heap (sy_store y))) (sy_callers y)"

inductive sys_step :: "'c store_env \<Rightarrow> 'c sys \<Rightarrow> 'c sys \<Rightarrow> bool" for E :: "'c store_env" where
  sys_alloc:
    "h_alloc (s_heap (sy_store y)) m = (p, h) \<Longrightarrow>
     sys_step E y (y\<lparr>sy_store := (sy_store y)\<lparr>s_heap := h\<rparr>, sy_callers := p # sy_callers y\<rparr>)"
| sys_write:
    "p \<in> set (sy_callers y) \<Longrightarrow>
     sys_step E y (y\<lparr>sy_store := (sy_store y)\<lparr>s_heap := h_write (s_heap (sy_store y)) p m\<rparr>\<rparr>)"
| sys_put:
    "p \<in> set (sy_callers y) \<Longrightarrow> sy_clock y \<le> now \<Longrightarrow>
     sys_step E y (y\<lparr>sy_store := put E t now rq (Some p) (sy_store y), sy_clock := now,
       sy_log := (if put_accepts E t rq (h_cell (s_heap (sy_store y)) p)
                  then (rq, h_cell (s_heap (sy_store y)) p, now) # sy_log y else sy_log y)\<rparr>)"
| sys_get:
    "sy_clock y \<le> now \<Longrightarrow> get E now rq (sy_store y) = (po, s) \<Longrightarrow>
     sys_step E y (y\<lparr>sy_store := s,
       sy_callers := (case po of None \<Rightarrow> sy_callers y | Some p \<Rightarrow> p # sy_callers y),
       sy_clock := now\<rparr>)"

text \<open>
  An entry is sound when its message is the store's own copy of a logged answer for its
  key, not younger than the clock.
\<close>

definition entry_ok :: "'c store_env \<Rightarrow> 'c sys \<Rightarrow> 64 word \<Rightarrow> entry \<Rightarrow> bool" where
  "entry_ok E y k e \<longleftrightarrow>
     e_msg e < h_next (s_heap (sy_store y)) \<and> e_msg e \<notin> set (sy_callers y) \<and>
     e_stored e \<le> sy_clock y \<and>
     minTTL (h_cell (s_heap (sy_store y)) (e_msg e)) = Some (e_origTTL e) \<and>
     minServeTTL \<le> uint (e_origTTL e) * second \<and>
     (\<exists>rq. key E rq = k \<and> (rq, h_cell (s_heap (sy_store y)) (e_msg e), e_stored e) \<in> set (sy_log y))"

definition log_ok :: "'c store_env \<Rightarrow> request \<times> msg \<times> int \<Rightarrow> bool" where
  "log_ok E = (\<lambda>(rq, m, _).
     \<not> req_Do rq \<and> \<not> CheckingDisabled (req_Req rq) \<and> \<not> Truncated m \<and>
     (\<exists>t. typify E m t \<noteq> OtherType) \<and> minTTL m \<noteq> None)"

definition sys_ok :: "'c store_env \<Rightarrow> 'c sys \<Rightarrow> bool" where
  "sys_ok E y \<longleftrightarrow>
     (\<forall>k e. c_Get (ops E) (s_c (sy_store y)) k = Some e \<longrightarrow> entry_ok E y k e) \<and>
     (\<forall>p \<in> set (sy_callers y). p < h_next (s_heap (sy_store y))) \<and>
     (\<forall>l \<in> set (sy_log y). log_ok E l) \<and>
     storeEntries (sy_store y) = c_Len (ops E) (s_c (sy_store y))"

lemma put_accepts_log: "put_accepts E t rq m \<Longrightarrow> log_ok E (rq, m, now)"
  by (auto simp: put_accepts_def storable_def log_ok_def split: if_splits response_type.splits
      intro: exI [of _ t])

lemma sys_ok_init: "cache_ok (ops E) \<Longrightarrow> sys_init E y \<Longrightarrow> sys_ok E y"
  unfolding sys_init_def sys_ok_def cache_ok_def newStore_def
  by (metis list_all_iff option.distinct(1) set_empty2 empty_iff store.select_convs(1,3))

lemma cache_okD:
  assumes "cache_ok C"
  shows "c_Get C (c_Add C k e c) k = Some e"
    "k' \<noteq> k \<Longrightarrow> c_Get C (c_Add C k e c) k' = Some e' \<Longrightarrow> c_Get C c k' = Some e'"
    "c_Get C (c_Remove C k c) k = None"
    "k' \<noteq> k \<Longrightarrow> c_Get C (c_Remove C k c) k' = c_Get C c k'"
  using assms unfolding cache_ok_def by blast+

text \<open>An entry stays sound while its cell is untouched.\<close>

lemma entry_ok_frame:
  assumes "entry_ok E y k e"
    and "h_next (s_heap (sy_store y)) \<le> h_next (s_heap (sy_store z))"
    and "h_cell (s_heap (sy_store z)) (e_msg e) = h_cell (s_heap (sy_store y)) (e_msg e)"
    and "e_msg e \<notin> set (sy_callers z)" "sy_clock y \<le> sy_clock z" "set (sy_log y) \<subseteq> set (sy_log z)"
  shows "entry_ok E z k e"
  using assms unfolding entry_ok_def by (metis less_le_trans order_trans subsetD)

lemma entry_okD:
  assumes "entry_ok E y k e"
  shows "e_msg e < h_next (s_heap (sy_store y))" "e_msg e \<noteq> h_next (s_heap (sy_store y))"
    "e_msg e \<notin> set (sy_callers y)" "e_stored e \<le> sy_clock y" "minServeTTL \<le> uint (e_origTTL e) * second"
    "minTTL (h_cell (s_heap (sy_store y)) (e_msg e)) = Some (e_origTTL e)"
  using assms by (auto simp: entry_ok_def)

lemma sys_ok_put:
  assumes ok: "cache_ok (ops E)" and inv: "sys_ok E y" and p: "p \<in> set (sy_callers y)"
    and now: "sy_clock y \<le> now" and acc: "put_accepts E t rq (h_cell (s_heap (sy_store y)) p)"
  shows "sys_ok E (y\<lparr>sy_store := put E t now rq (Some p) (sy_store y), sy_clock := now,
           sy_log := (rq, h_cell (s_heap (sy_store y)) p, now) # sy_log y\<rparr>)"
proof -
  obtain ttl where ttl: "storable E t rq (Some (h_cell (s_heap (sy_store y)) p))"
    "minTTL (h_cell (s_heap (sy_store y)) p) = Some ttl" "minServeTTL \<le> uint ttl * second"
    using acc by (auto simp: put_accepts_def)
  have fresh: "h_next (s_heap (sy_store y)) \<notin> set (sy_callers y)" using inv by (auto simp: sys_ok_def)
  let ?y = "y\<lparr>sy_store := put E t now rq (Some p) (sy_store y), sy_clock := now,
           sy_log := (rq, h_cell (s_heap (sy_store y)) p, now) # sy_log y\<rparr>"
  have "entry_ok E ?y k e" if "c_Get (ops E) (s_c (sy_store ?y)) k = Some e" for k e
  proof (cases "k = key E rq")
    case True
    then have "e = \<lparr>e_msg = h_next (s_heap (sy_store y)), e_stored = now, e_origTTL = ttl\<rparr>"
      using that ok by (simp add: put_stored [OF ttl] Let_def cache_okD(1) [OF ok])
    then show ?thesis
      unfolding entry_ok_def True put_stored [OF ttl] Let_def heap_defs using ttl(2,3) fresh
      by (auto intro!: exI [of _ rq])
  next
    case False
    moreover have "c_Get (ops E) (c_Add (ops E) (key E rq)
        \<lparr>e_msg = h_next (s_heap (sy_store y)), e_stored = now, e_origTTL = ttl\<rparr> (s_c (sy_store y))) k = Some e"
      using that by (simp add: put_stored [OF ttl] Let_def)
    ultimately have "c_Get (ops E) (s_c (sy_store y)) k = Some e" by (rule cache_okD(2) [OF ok])
    then have e: "entry_ok E y k e" using inv by (auto simp: sys_ok_def)
    then show ?thesis
      by (rule entry_ok_frame)
        (use now entry_okD [OF e] in \<open>auto simp: put_stored [OF ttl] Let_def heap_defs\<close>)
  qed
  moreover have "log_ok E (rq, h_cell (s_heap (sy_store y)) p, now)" using acc by (rule put_accepts_log)
  moreover have "\<forall>q \<in> set (sy_callers y). q < h_next (s_heap (put E t now rq (Some p) (sy_store y)))"
    using inv by (simp add: sys_ok_def put_stored [OF ttl] Let_def heap_defs less_SucI)
  moreover have "storeEntries (put E t now rq (Some p) (sy_store y)) = c_Len (ops E) (s_c (put E t now rq (Some p) (sy_store y)))"
    by (simp add: put_stored [OF ttl] Let_def)
  ultimately show ?thesis using inv by (simp add: sys_ok_def)
qed

lemma sys_ok_clock:
  assumes "sys_ok E y" "sy_clock y \<le> now"
  shows "sys_ok E (y\<lparr>sy_clock := now\<rparr>)"
  using assms unfolding sys_ok_def entry_ok_def by fastforce

lemma sys_ok_get:
  assumes ok: "cache_ok (ops E)" and sr: "set_rcode_ok (setRcode E)" and inv: "sys_ok E y"
    and g: "get E now rq (sy_store y) = (po, s)"
  shows "sys_ok E (y\<lparr>sy_store := s,
           sy_callers := (case po of None \<Rightarrow> sy_callers y | Some p \<Rightarrow> p # sy_callers y)\<rparr>)"
proof -
  consider (miss) "req_Do rq \<or> CheckingDisabled (req_Req rq) \<or> c_Get (ops E) (s_c (sy_store y)) (key E rq) = None"
    | (expired) e where "\<not> req_Do rq" "\<not> CheckingDisabled (req_Req rq)"
        "c_Get (ops E) (s_c (sy_store y)) (key E rq) = Some e" "get_remaining now e < minServeTTL"
    | (hit) e where "\<not> req_Do rq" "\<not> CheckingDisabled (req_Req rq)"
        "c_Get (ops E) (s_c (sy_store y)) (key E rq) = Some e" "minServeTTL \<le> get_remaining now e"
    using not_less by blast
  then show ?thesis
  proof cases
    case miss
    then have "po = None" "s = sy_store y" using g by (simp_all add: get_miss)
    then show ?thesis using inv by simp
  next
    case (expired e)
    have "entry_ok E y k e'" if "c_Get (ops E) (c_Remove (ops E) (key E rq) (s_c (sy_store y))) k = Some e'" for k e'
      using that inv cache_okD(3,4) [OF ok] unfolding sys_ok_def by (metis option.distinct(1))
    with g get_expired [OF expired] inv show ?thesis by (auto simp: sys_ok_def entry_ok_def)
  next
    case (hit e)
    then have "e_msg e < h_next (s_heap (sy_store y))" using inv by (auto simp: sys_ok_def entry_ok_def)
    from get_hit [OF sr hit this] g
    have s: "po = Some (h_next (s_heap (sy_store y)))" "s_c s = s_c (sy_store y)"
      "storeEntries s = storeEntries (sy_store y)" "h_next (s_heap s) = Suc (h_next (s_heap (sy_store y)))"
      "\<And>q. q \<noteq> h_next (s_heap (sy_store y)) \<Longrightarrow> h_cell (s_heap s) q = h_cell (s_heap (sy_store y)) q"
      by auto
    have "entry_ok E (y\<lparr>sy_store := s, sy_callers := h_next (s_heap (sy_store y)) # sy_callers y\<rparr>) k e'"
      if "entry_ok E y k e'" for k e'
      using that s by (auto simp: entry_ok_def)
    then show ?thesis using inv s by (auto simp: sys_ok_def)
  qed
qed

lemma sys_ok_step:
  assumes ok: "cache_ok (ops E)" and sr: "set_rcode_ok (setRcode E)" and inv: "sys_ok E y" and st: "sys_step E y z"
  shows "sys_ok E z"
  using st
proof cases
  case (sys_alloc m p h)
  have "entry_ok E z k e" if "entry_ok E y k e" for k e
    by (rule entry_ok_frame [OF that]) (use sys_alloc entry_okD [OF that] in \<open>auto simp: heap_defs\<close>)
  then show ?thesis using inv sys_alloc by (auto simp: sys_ok_def heap_defs)
next
  case (sys_write p m)
  have "entry_ok E z k e" if "entry_ok E y k e" for k e
  proof -
    have "e_msg e \<noteq> p" using that sys_write(2) by (auto simp: entry_ok_def)
    then show ?thesis using that sys_write(1) by (simp add: entry_ok_def heap_defs)
  qed
  then show ?thesis using inv sys_write by (simp add: sys_ok_def heap_defs)
next
  case (sys_put p now t rq)
  then show ?thesis
    using sys_ok_put [OF ok inv] sys_ok_clock [OF inv] put_ignored [of E t rq "sy_store y" p now] by auto
next
  case (sys_get now rq po s)
  then show ?thesis
    using sys_ok_clock [OF sys_ok_get [OF ok sr inv sys_get(3)], of now] by simp
qed


interpretation probe_store: inductive_invariant "sys_init E" "sys_step E"
  "\<lambda>y. cache_ok (ops E) \<longrightarrow> set_rcode_ok (setRcode E) \<longrightarrow> sys_ok E y" for E :: "'c store_env"
  by unfold_locales (auto intro: sys_ok_init sys_ok_step)

subsection \<open>Properties\<close>

lemma minTTL_lifetimes:
  assumes "minTTL m = Some ttl"
  shows "lifetimes m \<noteq> []" "ttl \<in> set (lifetimes m)" "x \<in> set (lifetimes m) \<Longrightarrow> ttl \<le> x"
proof -
  show "lifetimes m \<noteq> []" using assms by (auto simp: minTTL_eq)
  then show "ttl \<in> set (lifetimes m)" "x \<in> set (lifetimes m) \<Longrightarrow> ttl \<le> x"
    using assms Min_in [of "set (lifetimes m)"] by (auto simp: minTTL_eq)
qed

lemma put_accepts_iff:
  "put_accepts E t rq m \<longleftrightarrow>
     \<not> Truncated m \<and> \<not> req_Do rq \<and> \<not> CheckingDisabled (req_Req rq) \<and> typify E m t \<noteq> OtherType \<and>
     lifetimes m \<noteq> [] \<and> list_all (\<lambda>x. 5 \<le> x) (lifetimes m)"
proof -
  have w: "minServeTTL \<le> uint x * second \<longleftrightarrow> 5 \<le> x" for x :: "32 word"
    by (simp add: minServeTTL_def second_def word_le_def)
  have "(\<exists>ttl. minTTL m = Some ttl \<and> minServeTTL \<le> uint ttl * second) \<longleftrightarrow>
    lifetimes m \<noteq> [] \<and> list_all (\<lambda>x. 5 \<le> x) (lifetimes m)"
    by (auto simp: minTTL_eq w list_all_iff)
  moreover have "storable E t rq (Some m) \<longleftrightarrow>
    \<not> Truncated m \<and> \<not> req_Do rq \<and> \<not> CheckingDisabled (req_Req rq) \<and> typify E m t \<noteq> OtherType"
    by (auto simp: storable_def split: response_type.splits)
  ultimately show ?thesis by (auto simp: put_accepts_def)
qed

text \<open>
  An answer is held exactly when it is there, not truncated, asked without DO and CD,
  classified as a positive, empty or name-error answer, and carries at least one lifetime,
  all of at least five seconds; the entry is then a copy of the answer, dated now, with
  the least lifetime of its non-OPT records. Otherwise the store is unchanged.
\<close>

theorem put_holds_exactly:
  assumes "cache_ok (ops E)"
  shows "if \<exists>p. mp = Some p \<and> \<not> Truncated (h_cell (s_heap s) p) \<and> \<not> req_Do rq \<and>
              \<not> CheckingDisabled (req_Req rq) \<and> typify E (h_cell (s_heap s) p) t \<noteq> OtherType \<and>
              lifetimes (h_cell (s_heap s) p) \<noteq> [] \<and>
              list_all (\<lambda>x. 5 \<le> x) (lifetimes (h_cell (s_heap s) p))
         then let s' = put E t now rq mp s
              in \<exists>e. c_Get (ops E) (s_c s') (key E rq) = Some e \<and> e_stored e = now \<and>
                   e_msg e = h_next (s_heap s) \<and> h_cell (s_heap s') (e_msg e) = h_cell (s_heap s) (the mp) \<and>
                   e_origTTL e = Min (set (lifetimes (h_cell (s_heap s) (the mp)))) \<and>
                   len E s' = storeEntries s'
         else put E t now rq mp s = s"
proof (cases "\<exists>p. mp = Some p \<and> put_accepts E t rq (h_cell (s_heap s) p)")
  case True
  then obtain p ttl where "mp = Some p" and st: "storable E t rq (Some (h_cell (s_heap s) p))"
    "minTTL (h_cell (s_heap s) p) = Some ttl" "minServeTTL \<le> uint ttl * second"
    by (auto simp: put_accepts_def)
  moreover have "ttl = Min (set (lifetimes (h_cell (s_heap s) p)))"
    using st(2) by (simp add: minTTL_eq split: if_splits)
  ultimately show ?thesis
    using True put_stored [OF st] cache_okD(1) [OF assms]
    by (simp add: put_accepts_iff Let_def heap_defs len_def)
next
  case False
  then have "put E t now rq mp s = s"
    by (cases mp) (auto simp: put_ignored, simp add: put_def)
  then show ?thesis using False by (auto simp: put_accepts_iff)
qed

theorem put_holds_exactly_witness:
  "let E = sample_store_env; h = \<lparr>h_cell = (\<lambda>_. new_msg\<lparr>Answer := [\<lparr>rr_type = 1, rr_ttl = 300, rr_rest = ''x''\<rparr>]\<rparr>), h_next = 1\<rparr>;
       rq = \<lparr>req_Name = ''a.'', req_QType = 1, req_QClass = 1, req_Do = False, req_Req = new_msg\<rparr>;
       s' = put E 0 7 rq (Some 0) (newStore E storeCapacity h)
   in \<exists>e. c_Get (ops E) (s_c s') (key E rq) = Some e \<and> e_stored e = 7 \<and> e_msg e = 1 \<and> e_origTTL e = 300"
  using put_holds_exactly [of sample_store_env "Some 0"
      "newStore sample_store_env storeCapacity \<lparr>h_cell = (\<lambda>_. new_msg\<lparr>Answer := [\<lparr>rr_type = 1, rr_ttl = 300, rr_rest = ''x''\<rparr>]\<rparr>), h_next = 1\<rparr>"
      "\<lparr>req_Name = ''a.'', req_QType = 1, req_QClass = 1, req_Do = False, req_Req = new_msg\<rparr>" 0 7] map_cache_ok
  by (simp add: sample_store_env_def newStore_def new_msg_def lifetimes_def TypeOPT_def Let_def) blast

lemma put_get_remaining:
  assumes "cache_ok (ops E)" "set_rcode_ok (setRcode E)"
    and acc: "put_accepts E t rq (h_cell (s_heap s) p)" and "stored \<le> now"
    and "\<not> req_Do rq'" "\<not> CheckingDisabled (req_Req rq')" and k: "key E rq' = key E rq"
    and "h_next (s_heap s) < h_next h" "h_cell h (h_next (s_heap s)) = h_cell (s_heap s) p"
    and remaining: "remaining = uint (Min (set (lifetimes (h_cell (s_heap s) p)))) * second - (now - stored)"
  shows "let r = get E now rq' ((put E t stored rq (Some p) s)\<lparr>s_heap := h\<rparr>)
         in if remaining < minServeTTL
            then fst r = None \<and> c_Get (ops E) (s_c (snd r)) (key E rq) = None
            else \<exists>ttl. fst r = Some (h_next h) \<and>
                   rebased (h_cell (s_heap s) p) (req_Req rq') ttl (h_cell (s_heap (snd r)) (h_next h)) \<and>
                   remaining div second \<le> uint ttl \<and> uint ttl * second < remaining + second \<and>
                   (uint (Min (set (lifetimes (h_cell (s_heap s) p)))) < 2 ^ 24 \<longrightarrow> uint ttl = remaining div second)"
proof -
  obtain ttl where st: "storable E t rq (Some (h_cell (s_heap s) p))"
    "minTTL (h_cell (s_heap s) p) = Some ttl" "minServeTTL \<le> uint ttl * second"
    using acc by (auto simp: put_accepts_def)
  define e where "e = \<lparr>e_msg = h_next (s_heap s), e_stored = stored, e_origTTL = ttl\<rparr>"
  define z where "z = (put E t stored rq (Some p) s)\<lparr>s_heap := h\<rparr>"
  have ttl: "ttl = Min (set (lifetimes (h_cell (s_heap s) p)))"
    using st(2) by (simp add: minTTL_eq split: if_splits)
  have e: "c_Get (ops E) (s_c z) (key E rq') = Some e"
    using assms(1) k by (simp add: z_def e_def put_stored [OF st] Let_def cache_okD(1))
  have h: "s_heap z = h" by (simp add: z_def)
  have em: "e_msg e = h_next (s_heap s)" by (simp add: e_def)
  have rem: "get_remaining now e = uint ttl * second - min maxDuration (now - stored)"
    using get_remaining_eq [of e now] assms(4) by (simp add: e_def)
  have small: "uint ttl * second < maxDuration"
    using uint_lt2p [of ttl] by (simp add: second_def maxDuration_def)
  show ?thesis
  proof (cases "remaining < minServeTTL")
    case True
    then have "get_remaining now e < minServeTTL"
      using rem small remaining ttl by (auto simp: min_def minServeTTL_def second_def)
    from get_expired [OF assms(5,6) e this] True show ?thesis
      using cache_okD(3) [OF assms(1)] k by (simp add: z_def)
  next
    case False
    then have r: "get_remaining now e = remaining"
      using rem small remaining ttl by (auto simp: min_def minServeTTL_def second_def)
    have "minServeTTL \<le> get_remaining now e" using False r by simp
    from get_hit [OF assms(2,5,6) e this] assms(8,9) h
    obtain s' where "get E now rq' z = (Some (h_next h), s')"
      "rebased (h_cell (s_heap s) p) (req_Req rq') (serve_ttl remaining) (h_cell (s_heap s') (h_next h))"
      unfolding r by (auto simp: em)
    moreover have "remaining \<le> uint ttl * second" using remaining ttl assms(4) by simp
    ultimately show ?thesis
      using False ttl serve_ttl_bounds(3,4) [of remaining ttl] serve_ttl_exact [of remaining ttl]
      by (auto simp: z_def Let_def)
  qed
qed


text \<open>
  C13: what a store holds comes back until it is about to expire, whatever happens to other
  messages in between: a later \<open>get\<close> under the same key, on any heap that agrees on the
  store's own copy, gives a fresh message with the asker's identifier and question, the
  held code and records, and in every non-OPT record the remaining time, in seconds,
  rounded by less than one second, and exactly the whole seconds left when the held
  lifetime is below \<open>2^24\<close> seconds (half a year). With less than five seconds left there
  is no answer and the entry is gone.
\<close>

theorem put_get_rebased:
  assumes "cache_ok (ops E)" "set_rcode_ok (setRcode E)"
    and acc: "put_accepts E t rq (h_cell (s_heap s) p)" and "stored \<le> now"
    and "\<not> req_Do rq'" "\<not> CheckingDisabled (req_Req rq')" and k: "key E rq' = key E rq"
    and "h_next (s_heap s) < h_next h" "h_cell h (h_next (s_heap s)) = h_cell (s_heap s) p"
    and remaining: "remaining = uint (Min (set (lifetimes (h_cell (s_heap s) p)))) * second - (now - stored)"
  shows "let r = get E now rq' ((put E t stored rq (Some p) s)\<lparr>s_heap := h\<rparr>)
         in if remaining < minServeTTL
            then fst r = None \<and> c_Get (ops E) (s_c (snd r)) (key E rq) = None
            else \<exists>ttl. fst r = Some (h_next h) \<and>
                   rebased (h_cell (s_heap s) p) (req_Req rq') ttl (h_cell (s_heap (snd r)) (h_next h)) \<and>
                   remaining div second \<le> uint ttl \<and> uint ttl * second < remaining + second \<and>
                   (uint (Min (set (lifetimes (h_cell (s_heap s) p)))) < 2 ^ 24 \<longrightarrow> uint ttl = remaining div second)"
  using assms by (rule put_get_remaining)

text \<open>A concrete system: one A record with five minutes to live.\<close>

definition sample_answer :: msg where
  "sample_answer = new_msg\<lparr>Answer := [\<lparr>rr_type = 1, rr_ttl = 300, rr_rest = ''x''\<rparr>]\<rparr>"

definition sample_query :: "string \<Rightarrow> request" where
  "sample_query n =
     \<lparr>req_Name = n, req_QType = 1, req_QClass = 1, req_Do = False,
      req_Req = new_msg\<lparr>msg_id := 7, Question := [\<lparr>q_name = n, q_type = 1, q_class = 1\<rparr>]\<rparr>\<rparr>"

definition sample_sys :: "(64 word \<rightharpoonup> entry) sys" where
  "sample_sys =
     \<lparr>sy_store = newStore sample_store_env storeCapacity \<lparr>h_cell = (\<lambda>_. sample_answer), h_next = 1\<rparr>,
      sy_callers = [0], sy_clock = 0, sy_log = []\<rparr>"

lemmas sample_defs =
  sample_answer_def sample_query_def sample_sys_def sample_store_env_def map_cache_def new_msg_def

lemma sample_accepts: "put_accepts sample_store_env t (sample_query n) sample_answer"
  by (simp add: put_accepts_iff sample_defs lifetimes_def TypeOPT_def)

lemma sample_ok: "cache_ok (ops sample_store_env)" "set_rcode_ok (setRcode sample_store_env)"
  using map_cache_ok set_rcode0_ok by (simp_all add: sample_store_env_def)

theorem put_get_rebased_witness:
  "let s = sy_store sample_sys; s1 = put sample_store_env 0 0 (sample_query ''a.'') (Some 0) s
   in fst (get sample_store_env (10 * second) (sample_query ''a.'') s1) = Some 2 \<and>
      fst (get sample_store_env (296 * second) (sample_query ''a.'') s1) = None"
proof -
  let ?s = "sy_store sample_sys" and ?q = "sample_query ''a.''"
  let ?h = "s_heap (put sample_store_env 0 0 ?q (Some 0) ?s)"
  have acc: "put_accepts sample_store_env 0 ?q (h_cell (s_heap ?s) 0)"
    using sample_accepts [of 0 "''a.''"] by (simp add: sample_sys_def newStore_def)
  have q: "\<not> req_Do ?q" "\<not> CheckingDisabled (req_Req ?q)" by (simp_all add: sample_defs)
  have h: "h_next (s_heap ?s) < h_next ?h" "h_cell ?h (h_next (s_heap ?s)) = h_cell (s_heap ?s) 0" "h_next ?h = 2"
    by (simp_all add: go_eval sample_defs second_def)
  have "Min (set (lifetimes (h_cell (s_heap ?s) 0))) = 300"
    by (simp add: sample_defs newStore_def lifetimes_def TypeOPT_def)
  moreover have "(0 :: int) \<le> 10 * second" "(0 :: int) \<le> 296 * second" unfolding second_def by simp_all
  ultimately show ?thesis
    using put_get_rebased [OF sample_ok acc _ q refl h(1,2) refl, of 0 "10 * second"]
      put_get_rebased [OF sample_ok acc _ q refl h(1,2) refl, of 0 "296 * second"] h(3)
    by (auto simp: Let_def minServeTTL_def second_def)
qed

text \<open>
  C6: in every run, with any interleaving of lookups, insertions and changes the callers
  make to their own messages, an answer that is served was accepted for a query with the
  same key; it is that answer as it was at that time, readdressed, and its lifetime is at
  least five seconds, never more than any lifetime the answer had, and less than one
  second above what is left of it. The message is the asker's own, not shared with the
  store or with an earlier answer, and no answer is served to a DO or CD query.
\<close>

theorem served_answer_was_put:
  assumes "cache_ok (ops E)" "set_rcode_ok (setRcode E)" and "reach (sys_init E) (sys_step E) y"
    and "sy_clock y \<le> now" and g: "get E now rq (sy_store y) = (Some p, s')"
  shows "\<exists>rq0 m0 t0 ttl. (rq0, m0, t0) \<in> set (sy_log y) \<and> log_ok E (rq0, m0, t0) \<and>
     key E rq0 = key E rq \<and> rebased m0 (req_Req rq) ttl (h_cell (s_heap s') p) \<and> 5 \<le> uint ttl \<and>
     list_all (\<lambda>x. ttl \<le> x) (lifetimes m0) \<and>
     uint ttl * second < uint (Min (set (lifetimes m0))) * second - min maxDuration (now - t0) + second \<and>
     p \<notin> set (sy_callers y) \<and> \<not> req_Do rq \<and> \<not> CheckingDisabled (req_Req rq)"
proof -
  have ok: "sys_ok E y" using probe_store.reachable_invar [OF assms(3)] assms(1,2) by blast
  obtain e where q: "\<not> req_Do rq" "\<not> CheckingDisabled (req_Req rq)"
    and e: "c_Get (ops E) (s_c (sy_store y)) (key E rq) = Some e" and r: "minServeTTL \<le> get_remaining now e"
    using g by (auto simp: get_def Let_def not_less split: if_splits option.splits)
  have eok: "entry_ok E y (key E rq) e" using ok e by (auto simp: sys_ok_def)
  then obtain rq0 where l: "key E rq0 = key E rq"
    "(rq0, h_cell (s_heap (sy_store y)) (e_msg e), e_stored e) \<in> set (sy_log y)"
    by (auto simp: entry_ok_def)
  have c: "e_stored e \<le> now" using entry_okD(4) [OF eok] assms(4) by simp
  note ttl = entry_okD(6) [OF eok]
  have m: "e_origTTL e = Min (set (lifetimes (h_cell (s_heap (sy_store y)) (e_msg e))))"
    using ttl by (simp add: minTTL_eq split: if_splits)
  have b: "5 \<le> uint (serve_ttl (get_remaining now e))" "serve_ttl (get_remaining now e) \<le> e_origTTL e"
    "uint (serve_ttl (get_remaining now e)) * second < get_remaining now e + second"
    using serve_ttl_bounds [OF r get_remaining_le [OF c]] by (simp_all add: word_le_def)
  have "p = h_next (s_heap (sy_store y)) \<and> rebased (h_cell (s_heap (sy_store y)) (e_msg e)) (req_Req rq)
      (serve_ttl (get_remaining now e)) (h_cell (s_heap s') p)"
    using get_hit [OF assms(2) q e r entry_okD(1) [OF eok]] g by auto
  moreover have "list_all (\<lambda>x. serve_ttl (get_remaining now e) \<le> x)
      (lifetimes (h_cell (s_heap (sy_store y)) (e_msg e)))"
    using minTTL_lifetimes(3) [OF ttl] b(2) by (auto simp: list_all_iff intro: order_trans)
  moreover have "h_next (s_heap (sy_store y)) \<notin> set (sy_callers y)" "log_ok E (rq0, h_cell (s_heap (sy_store y)) (e_msg e), e_stored e)"
    using ok l(2) by (auto simp: sys_ok_def)
  ultimately show ?thesis
    using l q b get_remaining_eq [OF c] m by metis
qed


definition sample_sys1 :: "(64 word \<rightharpoonup> entry) sys" where
  "sample_sys1 = sample_sys\<lparr>sy_store := put sample_store_env 0 0 (sample_query ''a.'') (Some 0) (sy_store sample_sys),
     sy_clock := 0, sy_log := [(sample_query ''a.'', sample_answer, 0)]\<rparr>"

definition sample_sys2 :: "(64 word \<rightharpoonup> entry) sys" where
  "sample_sys2 = sample_sys1\<lparr>sy_store := (sy_store sample_sys1)\<lparr>s_heap := h_write (s_heap (sy_store sample_sys1)) 0 new_msg\<rparr>\<rparr>"

lemma sample_sys2_reach: "reach (sys_init sample_store_env) (sys_step sample_store_env) sample_sys2"
proof (rule reach_step, rule reach_step)
  show "reach (sys_init sample_store_env) (sys_step sample_store_env) sample_sys"
    by (rule reach_init) (simp add: sys_init_def sample_sys_def newStore_def)
  have "h_cell (s_heap (sy_store sample_sys)) 0 = sample_answer" by (simp add: sample_sys_def newStore_def)
  then show "sys_step sample_store_env sample_sys sample_sys1"
    using sys_put [of 0 sample_sys 0 sample_store_env 0 "sample_query ''a.''"] sample_accepts [of 0 "''a.''"]
    by (simp add: sample_sys1_def) (simp add: sample_sys_def)
  show "sys_step sample_store_env sample_sys1 sample_sys2"
    unfolding sample_sys2_def by (rule sys_write) (simp add: sample_sys1_def sample_sys_def)
qed

theorem served_answer_was_put_witness:
  "\<exists>p s' ttl. get sample_store_env (10 * second) (sample_query ''a.'') (sy_store sample_sys2) = (Some p, s') \<and>
     rebased sample_answer (req_Req (sample_query ''a.'')) ttl (h_cell (s_heap s') p) \<and>
     5 \<le> uint ttl \<and> uint ttl < 291"
proof -
  let ?g = "get sample_store_env (10 * second) (sample_query ''a.'') (sy_store sample_sys2)"
  have "fst ?g = Some 2"
    by (simp add: sample_sys2_def sample_sys1_def sample_defs go_eval lifetimes_def
        wrap64_def time_Sub_def minDuration_def maxDuration_def second_def)
  then have g: "?g = (Some 2, snd ?g)" by (simp add: prod_eq_iff)
  have l: "sy_clock sample_sys2 \<le> 10 * second" "set (sy_log sample_sys2) = {(sample_query ''a.'', sample_answer, 0)}"
    by (simp_all add: sample_sys2_def sample_sys1_def sample_sys_def second_def)
  have "Min (set (lifetimes sample_answer)) = 300" by (simp add: sample_answer_def lifetimes_def TypeOPT_def new_msg_def)
  with served_answer_was_put [OF sample_ok sample_sys2_reach l(1) g] l(2) g show ?thesis
    by (auto simp: second_def maxDuration_def)
qed

subsection \<open>Keys\<close>

lemma two_bytes_inject:
  "char_of (unat (drop_bit 8 a)) = (char_of (unat (drop_bit 8 b)) :: char) \<Longrightarrow>
   char_of (unat a) = (char_of (unat b) :: char) \<Longrightarrow> (a :: 16 word) = b"
proof -
  assume hi: "char_of (unat (drop_bit 8 a)) = (char_of (unat (drop_bit 8 b)) :: char)"
    and lo: "char_of (unat a) = (char_of (unat b) :: char)"
  have d: "unat (drop_bit 8 x) = unat x div 256" for x :: "16 word"
    unfolding unat_drop_bit_eq by (simp add: drop_bit_eq_div)
  have "unat x < 2 ^ LENGTH(16)" for x :: "16 word" by (rule unsigned_less)
  then have l: "unat x div 256 < 256" for x :: "16 word" by (simp add: less_mult_imp_div_less)
  from lo have "unat a mod 256 = unat b mod 256"
    by (metis of_char_of)
  moreover from hi have "unat a div 256 mod 256 = unat b div 256 mod 256"
    unfolding d by (metis of_char_of)
  then have "unat a div 256 = unat b div 256" using l by simp
  ultimately have "unat a = unat b" by (metis div_mult_mod_eq)
  then show "a = b" by (simp add: word_unat_eq_iff)
qed

text \<open>The bytes that are hashed determine the name, the type and the class.\<close>

lemma key_bytes_inject:
  assumes "key_bytes a = key_bytes b"
  shows "req_Name a = req_Name b" "req_QType a = req_QType b" "req_QClass a = req_QClass b"
  using assms two_bytes_inject [of "req_QType a" "req_QType b"] two_bytes_inject [of "req_QClass a" "req_QClass b"]
  by (auto simp: key_bytes_def)


definition wide_names :: "string set" where
  "wide_names = (\<lambda>bs. take 33 bs @ ''.'' @ drop 33 bs @ ''.'') ` {bs. set bs \<subseteq> {CHR ''a'', CHR ''b''} \<and> length bs = 66}"

text \<open>
  There are more names of two labels of 33 letters over \<open>a\<close> and \<open>b\<close> than keys, so two of
  them share one whatever the hash is.
\<close>

lemma wide_names_card: "card wide_names = 2 ^ 66"
proof -
  let ?B = "{bs. set bs \<subseteq> {CHR ''a'', CHR ''b''} \<and> length bs = 66}"
  have "inj_on (\<lambda>bs. take 33 bs @ ''.'' @ drop 33 bs @ ''.'') ?B"
  proof (rule inj_onI)
    fix x y assume "x \<in> ?B" "y \<in> ?B" and "take 33 x @ ''.'' @ drop 33 x @ ''.'' = take 33 y @ ''.'' @ drop 33 y @ ''.''"
    moreover from this have "length (take 33 x) = length (take 33 y)" by simp
    ultimately have "take 33 x = take 33 y" "drop 33 x = drop 33 y" by auto
    then show "x = y" by (metis append_take_drop_id)
  qed
  then show ?thesis
    unfolding wide_names_def by (simp add: card_image card_lists_length_eq numeral_2_eq_2 [symmetric])
qed

lemma wide_names_collide:
  "\<exists>n1 n2. n1 \<in> wide_names \<and> n2 \<in> wide_names \<and> n1 \<noteq> n2 \<and> key E (sample_query n1) = key E (sample_query n2)"
proof -
  have "card ((\<lambda>n. key E (sample_query n)) ` wide_names) \<le> card (UNIV :: 64 word set)"
    by (rule card_mono) simp_all
  also have "\<dots> < card wide_names" by (simp add: card_word wide_names_card)
  finally have "\<not> inj_on (\<lambda>n. key E (sample_query n)) wide_names" by (rule pigeonhole)
  then show ?thesis by (auto simp: inj_on_def)
qed

text \<open>
  C38: the key is a 64-bit hash and an entry does not record its question, so for every hash
  function there are two different names of 68 bytes such that the answer held for
  the first is served, readdressed, to a query for the second.
\<close>

theorem key_collision_serves_other_name:
  assumes "cache_ok (ops E)" "set_rcode_ok (setRcode E)"
    and "\<And>n. put_accepts E t (sample_query n) (h_cell (s_heap s) p)"
  shows "\<exists>n1 n2. n1 \<noteq> n2 \<and> length n1 = 68 \<and> length n2 = 68 \<and>
     (\<exists>q s'. get E 0 (sample_query n2) (put E t 0 (sample_query n1) (Some p) s) = (Some q, s') \<and>
        map q_name (Question (h_cell (s_heap s') q)) = [n2] \<and>
        map rr_rest (Answer (h_cell (s_heap s') q)) = map rr_rest (Answer (h_cell (s_heap s) p)))"
proof -
  obtain n1 n2 where n: "n1 \<in> wide_names" "n2 \<in> wide_names" "n1 \<noteq> n2"
    and k: "key E (sample_query n1) = key E (sample_query n2)"
    using wide_names_collide by blast
  obtain ttl where st: "storable E t (sample_query n1) (Some (h_cell (s_heap s) p))"
    "minTTL (h_cell (s_heap s) p) = Some ttl" "minServeTTL \<le> uint ttl * second"
    using assms(3) by (auto simp: put_accepts_def)
  let ?e = "\<lparr>e_msg = h_next (s_heap s), e_stored = 0, e_origTTL = ttl\<rparr>"
  let ?s = "put E t 0 (sample_query n1) (Some p) s"
  have "c_Get (ops E) (s_c ?s) (key E (sample_query n2)) = Some ?e"
    using k cache_okD(1) [OF assms(1)] by (simp add: put_stored [OF st] Let_def)
  moreover have "minServeTTL \<le> get_remaining 0 ?e"
    using st(3) get_remaining_eq [of ?e 0] by (simp add: maxDuration_def)
  moreover have "\<not> req_Do (sample_query n2)" "\<not> CheckingDisabled (req_Req (sample_query n2))"
    by (simp_all add: sample_query_def new_msg_def)
  moreover have "e_msg ?e < h_next (s_heap ?s)" "h_cell (s_heap ?s) (e_msg ?e) = h_cell (s_heap s) p"
    by (simp_all add: put_stored [OF st] Let_def heap_defs)
  ultimately obtain s' where "get E 0 (sample_query n2) ?s = (Some (h_next (s_heap ?s)), s')"
    and "\<exists>x. rebased (h_cell (s_heap s) p) (req_Req (sample_query n2)) x (h_cell (s_heap s') (h_next (s_heap ?s)))"
    using get_hit [OF assms(2), of "sample_query n2" ?s ?e 0] by metis
  moreover have "length n1 = 68" "length n2 = 68" using n(1,2) by (auto simp: wide_names_def)
  ultimately show ?thesis
    using n(3) by (intro exI [of _ n1] exI [of _ n2])
      (auto simp: rebased_def setTTL_rrs_def sample_query_def comp_def if_distrib cong: if_cong)
qed

theorem key_collision_serves_other_name_witness:
  "\<exists>n1 n2. n1 \<noteq> n2 \<and>
     (\<exists>q s'. get sample_store_env 0 (sample_query n2)
               (put sample_store_env 0 0 (sample_query n1) (Some 0) (sy_store sample_sys)) = (Some q, s') \<and>
        map q_name (Question (h_cell (s_heap s') q)) = [n2] \<and>
        map rr_rest (Answer (h_cell (s_heap s') q)) = [''x''])"
proof -
  have "h_cell (s_heap (sy_store sample_sys)) 0 = sample_answer" by (simp add: sample_sys_def newStore_def)
  moreover have "map rr_rest (Answer sample_answer) = [''x'']" by (simp add: sample_answer_def)
  ultimately show ?thesis
    using key_collision_serves_other_name [OF sample_ok, of 0 "sy_store sample_sys" 0] sample_accepts
    by metis
qed

end
