(* ===== verification/Leg_Race.thy ===== *)
theory Leg_Race
  imports Homedns_Prelude
begin

text \<open>
  The concurrency pattern of \<open>Race.dispatch\<close> and of \<open>PeerCache.race\<close>: one goroutine per
  leg sends one result into a channel buffered for all of them, and a collector receives
  at most that many results, returning at the first one that ends the contest, or when
  its context is done. The pattern is modelled once, over the body of the collector's
  loop (\<open>body\<close>), its code after the loop (\<open>fin\<close>) and its return on a done context
  (\<open>can\<close>); each plugin instantiates it with its own.

  \<open>collect\<close> is the collector as a function of what its \<open>select\<close> chooses, and \<open>lr_step\<close>
  the goroutines and the collector running together.
\<close>

subsection \<open>The collector\<close>

datatype ('a, 'o) turn = Continue 'a | Return 'o

text \<open>
  The loop over \<open>n\<close> results; an event is a result, or \<open>None\<close> when \<open>select\<close> takes the done
  context. The value is \<open>None\<close> while the collector is still waiting.
\<close>

fun collect ::
  "('a \<Rightarrow> 'r \<Rightarrow> ('a, 'o) turn) \<Rightarrow> ('a \<Rightarrow> 'o) \<Rightarrow> 'o \<Rightarrow> nat \<Rightarrow> 'a \<Rightarrow> 'r option list \<Rightarrow> 'o option" where
  "collect body fin can 0 a evs = Some (fin a)"
| "collect body fin can (Suc n) a [] = None"
| "collect body fin can (Suc n) a (None # evs) = Some can"
| "collect body fin can (Suc n) a (Some r # evs) =
     (case body a r of
        Continue a' \<Rightarrow> collect body fin can n a' evs
      | Return x \<Rightarrow> Some x)"

text \<open>The local variables after a sequence of results none of which ended the loop.\<close>

fun runs :: "('a \<Rightarrow> 'r \<Rightarrow> ('a, 'o) turn) \<Rightarrow> 'a \<Rightarrow> 'r list \<Rightarrow> 'a option" where
  "runs body a [] = Some a"
| "runs body a (r # rs) =
     (case body a r of Continue a' \<Rightarrow> runs body a' rs | Return x \<Rightarrow> None)"

lemma runs_append:
  "runs body a (rs @ ts) = (case runs body a rs of None \<Rightarrow> None | Some a' \<Rightarrow> runs body a' ts)"
  by (induction body a rs rule: runs.induct) (auto split: turn.splits)

lemma collect_runs:
  "runs body a rs = Some a' \<Longrightarrow> length rs \<le> n \<Longrightarrow>
   collect body fin can n a (map Some rs @ evs) = collect body fin can (n - length rs) a' evs"
proof (induction body a rs arbitrary: n rule: runs.induct)
  case (2 body a r rs)
  then show ?case by (cases n) (auto split: turn.splits)
qed simp

text \<open>
  The contract of a collector that takes the first useful result: a useful result ends
  the loop, any other is noted and the loop goes on.
\<close>

locale first_useful =
  fixes body :: "'a \<Rightarrow> 'r \<Rightarrow> ('a, 'o) turn"
    and useful_res :: "'r \<Rightarrow> bool"
    and note_res :: "'a \<Rightarrow> 'r \<Rightarrow> 'a"
    and win :: "'r \<Rightarrow> 'o"
  assumes body_useful: "useful_res r \<Longrightarrow> body a r = Return (win r)"
    and body_lost: "\<not> useful_res r \<Longrightarrow> body a r = Continue (note_res a r)"
begin

lemma runs_lost:
  "list_all (\<lambda>r. \<not> useful_res r) rs \<Longrightarrow> runs body a rs = Some (foldl note_res a rs)"
  by (induction rs arbitrary: a) (simp_all add: body_lost)

lemma runs_Some_iff: "runs body a rs = Some a' \<longleftrightarrow> list_all (\<lambda>r. \<not> useful_res r) rs \<and> a' = foldl note_res a rs"
proof (induction rs arbitrary: a)
  case (Cons r rs)
  then show ?case by (cases "useful_res r") (simp_all add: body_useful body_lost)
qed auto

lemma first_useful_wins:
  assumes "list_all (\<lambda>r. \<not> useful_res r) rs" "useful_res r" "length rs < n"
  shows "collect body fin can n a (map Some rs @ Some r # evs) = Some (win r)"
proof -
  obtain k where "n - length rs = Suc k" using assms(3) by (cases "n - length rs") auto
  then show ?thesis
    using collect_runs [OF runs_lost [OF assms(1)], where n = n and fin = fin and can = can and evs = "Some r # evs"] assms(2,3)
    by (simp add: body_useful)
qed

lemma all_lost:
  assumes "list_all (\<lambda>r. \<not> useful_res r) rs" "length rs = n"
  shows "collect body fin can n a (map Some rs @ evs) = Some (fin (foldl note_res a rs))"
  using collect_runs [OF runs_lost [OF assms(1)], where n = n and fin = fin and can = can and evs = evs] assms(2) by simp

lemma cancelled:
  assumes "list_all (\<lambda>r. \<not> useful_res r) rs" "length rs < n"
  shows "collect body fin can n a (map Some rs @ None # evs) = Some can"
proof -
  obtain k where "n - length rs = Suc k" using assms(2) by (cases "n - length rs") auto
  then show ?thesis
    using collect_runs [OF runs_lost [OF assms(1)], where n = n and fin = fin and can = can and evs = "None # evs"] assms(2) by simp
qed

text \<open>These are all the ways in which the collector returns.\<close>

lemma collect_cases:
  assumes "collect body fin can n a evs = Some x"
  obtains (won) rs r rest where "evs = map Some rs @ Some r # rest" "list_all (\<lambda>r. \<not> useful_res r) rs"
      "useful_res r" "length rs < n" "x = win r"
  | (lost) rs rest where "evs = map Some rs @ rest" "list_all (\<lambda>r. \<not> useful_res r) rs"
      "length rs = n" "x = fin (foldl note_res a rs)"
  | (stopped) rs rest where "evs = map Some rs @ None # rest" "list_all (\<lambda>r. \<not> useful_res r) rs"
      "length rs < n" "x = can"
  using assms
proof (induction n arbitrary: a evs thesis)
  case 0
  from 0(2) [of "[]" evs] 0(4) show thesis by simp
next
  case (Suc n)
  show thesis
  proof (cases evs)
    case Nil
    then show thesis using Suc.prems(4) by simp
  next
    case (Cons ev evs')
    show thesis
    proof (cases ev)
      case None
      then show thesis using Suc.prems(3) [of "[]" evs'] Suc.prems(4) Cons by simp
    next
      case (Some r)
      show thesis
      proof (cases "useful_res r")
        case True
        then show thesis using Suc.prems(1) [of "[]" r evs'] Suc.prems(4) Cons Some by (simp add: body_useful)
      next
        case False
        then have c: "collect body fin can n (note_res a r) evs' = Some x"
          using Suc.prems(4) Cons Some by (simp add: body_lost)
        show thesis
        proof (rule Suc.IH [OF _ _ _ c])
          fix rs r' rest
          assume "evs' = map Some rs @ Some r' # rest" "list_all (\<lambda>r. \<not> useful_res r) rs"
            "useful_res r'" "length rs < n" "x = win r'"
          then show thesis using Suc.prems(1) [of "r # rs" r' rest] Cons Some False by simp
        next
          fix rs rest
          assume "evs' = map Some rs @ rest" "list_all (\<lambda>r. \<not> useful_res r) rs"
            "length rs = n" "x = fin (foldl note_res (note_res a r) rs)"
          then show thesis using Suc.prems(2) [of "r # rs" rest] Cons Some False by simp
        next
          fix rs rest
          assume "evs' = map Some rs @ None # rest" "list_all (\<lambda>r. \<not> useful_res r) rs"
            "length rs < n" "x = can"
          then show thesis using Suc.prems(3) [of "r # rs" rest] Cons Some False by simp
        qed
      qed
    qed
  qed
qed

end

subsection \<open>The goroutines\<close>

text \<open>
  A leg is working, has its result and is about to send it, or has sent it. Results carry
  the index of their leg, as a history; \<open>lr_taken\<close> is what the collector has received,
  and its length is the loop counter.
\<close>

datatype 'r leg = Working | Computed 'r | Sent

record ('r, 'a, 'o) legs =
  lr_legs :: "'r leg list"
  lr_chan :: "(nat \<times> 'r) list"
  lr_taken :: "(nat \<times> 'r) list"
  lr_acc :: 'a
  lr_out :: "'o option"
  lr_ctx :: bool

definition lr_init :: "nat \<Rightarrow> 'a \<Rightarrow> ('r, 'a, 'o) legs \<Rightarrow> bool" where
  "lr_init n a0 s \<longleftrightarrow>
     lr_legs s = replicate n Working \<and> lr_chan s = [] \<and> lr_taken s = [] \<and> lr_acc s = a0 \<and>
     lr_out s = None"

text \<open>
  \<open>outcome i r\<close> says that leg \<open>i\<close> may produce \<open>r\<close>; \<open>n\<close> is both the number of legs and the
  capacity of the channel. A send waits for room in the channel.
\<close>

inductive lr_step ::
  "('a \<Rightarrow> 'r \<Rightarrow> ('a, 'o) turn) \<Rightarrow> ('a \<Rightarrow> 'o) \<Rightarrow> 'o \<Rightarrow> (nat \<Rightarrow> 'r \<Rightarrow> bool) \<Rightarrow> nat \<Rightarrow>
   ('r, 'a, 'o) legs \<Rightarrow> ('r, 'a, 'o) legs \<Rightarrow> bool"
  for body fin can outcome n where
  leg_done:
    "i < length (lr_legs s) \<Longrightarrow> lr_legs s ! i = Working \<Longrightarrow> outcome i r \<Longrightarrow>
     lr_step body fin can outcome n s (s\<lparr>lr_legs := (lr_legs s)[i := Computed r]\<rparr>)"
| leg_send:
    "i < length (lr_legs s) \<Longrightarrow> lr_legs s ! i = Computed r \<Longrightarrow> length (lr_chan s) < n \<Longrightarrow>
     lr_step body fin can outcome n s
       (s\<lparr>lr_legs := (lr_legs s)[i := Sent], lr_chan := lr_chan s @ [(i, r)]\<rparr>)"
| take_lost:
    "lr_out s = None \<Longrightarrow> length (lr_taken s) < n \<Longrightarrow> lr_chan s = (i, r) # c \<Longrightarrow>
     body (lr_acc s) r = Continue a \<Longrightarrow>
     lr_step body fin can outcome n s
       (s\<lparr>lr_chan := c, lr_taken := lr_taken s @ [(i, r)], lr_acc := a\<rparr>)"
| take_won:
    "lr_out s = None \<Longrightarrow> length (lr_taken s) < n \<Longrightarrow> lr_chan s = (i, r) # c \<Longrightarrow>
     body (lr_acc s) r = Return x \<Longrightarrow>
     lr_step body fin can outcome n s
       (s\<lparr>lr_chan := c, lr_taken := lr_taken s @ [(i, r)], lr_out := Some x\<rparr>)"
| take_done:
    "lr_out s = None \<Longrightarrow> length (lr_taken s) < n \<Longrightarrow> lr_ctx s \<Longrightarrow>
     lr_step body fin can outcome n s (s\<lparr>lr_out := Some can\<rparr>)"
| after_loop:
    "lr_out s = None \<Longrightarrow> length (lr_taken s) = n \<Longrightarrow>
     lr_step body fin can outcome n s (s\<lparr>lr_out := Some (fin (lr_acc s))\<rparr>)"
| ctx_done: "\<not> lr_ctx s \<Longrightarrow> lr_step body fin can outcome n s (s\<lparr>lr_ctx := True\<rparr>)"

inductive_simps lr_step_simps [step_simps]: "lr_step body fin can outcome n s t"

text \<open>What holds in every reachable state.\<close>

definition sent_log :: "(nat \<Rightarrow> 'r \<Rightarrow> bool) \<Rightarrow> nat \<Rightarrow> 'r leg list \<Rightarrow> (nat \<times> 'r) list \<Rightarrow> bool" where
  "sent_log outcome n ls l \<longleftrightarrow>
     length ls = n \<and> distinct (map fst l) \<and> set (map fst l) = {i. i < n \<and> ls ! i = Sent} \<and>
     list_all (\<lambda>(i, r). outcome i r) l \<and> (\<forall>i < n. \<forall>r. ls ! i = Computed r \<longrightarrow> outcome i r)"

definition sent_ok :: "(nat \<Rightarrow> 'r \<Rightarrow> bool) \<Rightarrow> nat \<Rightarrow> ('r, 'a, 'o) legs \<Rightarrow> bool" where
  "sent_ok outcome n s \<longleftrightarrow> sent_log outcome n (lr_legs s) (lr_taken s @ lr_chan s)"

definition out_ok ::
  "('a \<Rightarrow> 'r \<Rightarrow> ('a, 'o) turn) \<Rightarrow> ('a \<Rightarrow> 'o) \<Rightarrow> 'o \<Rightarrow> nat \<Rightarrow> 'a \<Rightarrow> ('r, 'a, 'o) legs \<Rightarrow> bool" where
  "out_ok body fin can n a0 s \<longleftrightarrow>
     (case lr_out s of
        None \<Rightarrow> runs body a0 (map snd (lr_taken s)) = Some (lr_acc s) \<and> length (lr_taken s) \<le> n
      | Some x \<Rightarrow>
          collect body fin can n a0 (map Some (map snd (lr_taken s))) = Some x \<or>
          lr_ctx s \<and> collect body fin can n a0 (map Some (map snd (lr_taken s)) @ [None]) = Some x)"

definition lr_invar ::
  "('a \<Rightarrow> 'r \<Rightarrow> ('a, 'o) turn) \<Rightarrow> ('a \<Rightarrow> 'o) \<Rightarrow> 'o \<Rightarrow> (nat \<Rightarrow> 'r \<Rightarrow> bool) \<Rightarrow> nat \<Rightarrow> 'a \<Rightarrow>
   ('r, 'a, 'o) legs \<Rightarrow> bool" where
  "lr_invar body fin can outcome n a0 s \<longleftrightarrow> sent_ok outcome n s \<and> out_ok body fin can n a0 s"

lemma sent_log_Computed:
  assumes "sent_log outcome n ls l" "i < length ls" "ls ! i = Working" "outcome i r"
  shows "sent_log outcome n (ls[i := Computed r]) l"
proof -
  have "{j. j < n \<and> ls[i := Computed r] ! j = Sent} = {j. j < n \<and> ls ! j = Sent}"
    using assms by (auto simp: sent_log_def nth_list_update split: if_splits)
  then show ?thesis using assms by (auto simp: sent_log_def nth_list_update)
qed

lemma sent_log_Sent:
  assumes "sent_log outcome n ls l" "i < length ls" "ls ! i = Computed r"
  shows "sent_log outcome n (ls[i := Sent]) (l @ [(i, r)])"
proof -
  have "{j. j < n \<and> ls[i := Sent] ! j = Sent} = insert i {j. j < n \<and> ls ! j = Sent}"
    using assms by (auto simp: sent_log_def nth_list_update split: if_splits)
  moreover have "i \<notin> set (map fst l)" using assms by (simp add: sent_log_def)
  ultimately show ?thesis using assms by (simp add: sent_log_def nth_list_update)
qed

lemma sent_ok_step:
  assumes "sent_ok outcome n s" "lr_step body fin can outcome n s t"
  shows "sent_ok outcome n t"
  using assms(2)
proof cases
  case (leg_send i r)
  then show ?thesis using assms(1) sent_log_Sent [of outcome n "lr_legs s" "lr_taken s @ lr_chan s" i r] by (simp add: sent_ok_def)
qed (use assms(1) in \<open>simp_all add: sent_ok_def sent_log_Computed\<close>)

lemma collect_snoc_Return:
  assumes "runs body a rs = Some a'" "length rs < n" "body a' r = Return x"
  shows "collect body fin can n a (map Some (rs @ [r])) = Some x"
proof -
  obtain k where "n - length rs = Suc k" using assms(2) by (cases "n - length rs") auto
  then show ?thesis
    using collect_runs [OF assms(1), where n = n and fin = fin and can = can and evs = "[Some r]"] assms(2,3)
    by simp
qed

lemma out_ok_step:
  assumes inv: "out_ok body fin can n a0 s" and st: "lr_step body fin can outcome n s t"
  shows "out_ok body fin can n a0 t"
  using st
proof cases
  case (take_lost i r c a)
  then show ?thesis using inv by (simp add: out_ok_def runs_append)
next
  case (take_won i r c x)
  then show ?thesis
    using inv collect_snoc_Return [of body a0 "map snd (lr_taken s)" "lr_acc s" n r x fin can]
    by (simp add: out_ok_def)
next
  case take_done
  then have "runs body a0 (map snd (lr_taken s)) = Some (lr_acc s)" using inv by (simp add: out_ok_def)
  from collect_runs [OF this, where n = n and fin = fin and can = can and evs = "[None]"] take_done
  show ?thesis by (cases "n - length (lr_taken s)") (auto simp: out_ok_def)
next
  case after_loop
  then have "runs body a0 (map snd (lr_taken s)) = Some (lr_acc s)" using inv by (simp add: out_ok_def)
  from collect_runs [OF this, where n = n and fin = fin and can = can and evs = "[]"] after_loop
  show ?thesis by (simp add: out_ok_def)
qed (use inv in \<open>auto simp: out_ok_def split: option.splits\<close>)

interpretation race_legs: inductive_invariant "lr_init n a0" "lr_step body fin can outcome n"
  "lr_invar body fin can outcome n a0" for body :: "'a \<Rightarrow> 'r \<Rightarrow> ('a, 'o) turn" and fin can outcome n a0
proof
  fix s :: "('r, 'a, 'o) legs"
  assume "lr_init n a0 s"
  then show "lr_invar body fin can outcome n a0 s"
    by (auto simp: lr_init_def lr_invar_def sent_ok_def sent_log_def out_ok_def)
next
  fix s t
  assume "lr_invar body fin can outcome n a0 s" "lr_step body fin can outcome n s t"
  then show "lr_invar body fin can outcome n a0 t"
    unfolding lr_invar_def by (meson sent_ok_step out_ok_step)
qed

subsection \<open>No leg blocks, every run ends\<close>

lemma sent_count: "sent_ok outcome n s \<Longrightarrow> length (lr_taken s) + length (lr_chan s) = card {i. i < n \<and> lr_legs s ! i = Sent}"
proof -
  assume ok: "sent_ok outcome n s"
  let ?l = "map fst (lr_taken s @ lr_chan s)"
  have "distinct ?l" and "set ?l = {i. i < n \<and> lr_legs s ! i = Sent}"
    using ok unfolding sent_ok_def sent_log_def by blast+
  from distinct_card [OF this(1)] this(2)
  show "length (lr_taken s) + length (lr_chan s) = card {i. i < n \<and> lr_legs s ! i = Sent}" by simp
qed

lemma leg_never_blocked:
  assumes "sent_ok outcome n s" "i < n" "lr_legs s ! i = Computed r"
  shows "length (lr_chan s) < n"
proof -
  have "i \<notin> {j. j < n \<and> lr_legs s ! j = Sent}" "i \<in> {..<n}" "{j. j < n \<and> lr_legs s ! j = Sent} \<subseteq> {..<n}"
    using assms(2,3) by simp_all blast
  then have "{j. j < n \<and> lr_legs s ! j = Sent} \<subset> {..<n}" by blast
  then have "card {j. j < n \<and> lr_legs s ! j = Sent} < card {..<n}" by (intro psubset_card_mono) simp_all
  then show ?thesis using sent_count [OF assms(1)] by simp
qed

text \<open>Every step makes progress.\<close>

definition leg_weight :: "'r leg \<Rightarrow> nat" where
  "leg_weight l = (case l of Working \<Rightarrow> 3 | Computed _ \<Rightarrow> 2 | Sent \<Rightarrow> 0)"

definition lr_measure :: "('r, 'a, 'o) legs \<Rightarrow> nat" where
  "lr_measure s = sum_list (map leg_weight (lr_legs s)) + length (lr_chan s) +
     (if lr_out s = None then 1 else 0) + (if lr_ctx s then 0 else 1)"

lemma lr_step_measure:
  assumes "lr_step body fin can outcome n s t"
  shows "lr_measure t < lr_measure s"
  using assms
proof cases
  case (leg_done i r)
  then show ?thesis
    using sum_list_map_update [of i "lr_legs s" leg_weight "Computed r"]
    by (simp add: lr_measure_def leg_weight_def)
next
  case (leg_send i r)
  then show ?thesis
    using sum_list_map_update [of i "lr_legs s" leg_weight Sent]
    by (simp add: lr_measure_def leg_weight_def)
qed (simp_all add: lr_measure_def)

lemma lr_step_terminates: "wfp (\<lambda>t s. lr_step body fin can outcome n s t)"
  by (rule wfp_if_convertible_to_nat [where f = lr_measure]) (rule lr_step_measure)


subsection \<open>Complete runs\<close>

text \<open>
  A state in which nothing more happens: only the context could still be cancelled. When
  every leg can finish, the collector has then returned and every goroutine has ended.
\<close>

definition lr_final :: "('a \<Rightarrow> 'r \<Rightarrow> ('a, 'o) turn) \<Rightarrow> ('a \<Rightarrow> 'o) \<Rightarrow> 'o \<Rightarrow> (nat \<Rightarrow> 'r \<Rightarrow> bool) \<Rightarrow> nat \<Rightarrow> ('r, 'a, 'o) legs \<Rightarrow> bool" where
  "lr_final body fin can outcome n s \<longleftrightarrow>
     (\<forall>t. lr_step body fin can outcome n s t \<longrightarrow> t = s\<lparr>lr_ctx := True\<rparr>)"

lemma lr_final_legs:
  assumes inv: "lr_invar body fin can outcome n a0 s" and fn: "lr_final body fin can outcome n s"
    and can_finish: "\<And>i. i < n \<Longrightarrow> \<exists>r. outcome i r"
  shows "lr_legs s = replicate n Sent" "lr_out s \<noteq> None"
proof -
  have so: "sent_ok outcome n s" and oo: "out_ok body fin can n a0 s" using inv by (auto simp: lr_invar_def)
  have len: "length (lr_legs s) = n" using so by (simp add: sent_ok_def sent_log_def)
  have no: "lr_legs t = lr_legs s" "lr_taken t = lr_taken s" "lr_out t = lr_out s"
    if "lr_step body fin can outcome n s t" for t
    using fn that by (auto simp: lr_final_def)
  have sent: "lr_legs s ! i = Sent" if i: "i < n" for i
  proof (cases "lr_legs s ! i")
    case Working
    obtain r where "outcome i r" using can_finish [OF i] by blast
    from no(1) [OF leg_done [of i s outcome r, OF _ Working this]] i len have "(lr_legs s)[i := Computed r] = lr_legs s" by simp
    then show ?thesis using Working i len by (metis leg.distinct(1) nth_list_update_eq)
  next
    case (Computed r)
    from no(1) [OF leg_send [OF _ this leg_never_blocked [OF so i this]]] i len
    have "(lr_legs s)[i := Sent] = lr_legs s" by simp
    then show ?thesis using i len by (metis nth_list_update_eq)
  qed
  then show "lr_legs s = replicate n Sent" using len by (simp add: list_eq_iff_nth_eq)
  have "{i. i < n \<and> lr_legs s ! i = Sent} = {..<n}" using sent by blast
  then have count: "length (lr_taken s) + length (lr_chan s) = n" using sent_count [OF so] by simp
  show "lr_out s \<noteq> None"
  proof
    assume out: "lr_out s = None"
    show False
    proof (cases "lr_chan s")
      case Nil
      with count no(3) [OF after_loop [OF out]] out show False by simp
    next
      case (Cons p c)
      obtain i r where p: "p = (i, r)" by (cases p)
      have lt: "length (lr_taken s) < n" using count Cons by simp
      show False
      proof (cases "body (lr_acc s) r")
        case (Continue a)
        from no(2) [OF take_lost [where body = body, OF out lt Cons [unfolded p] this]] show False by simp
      next
        case (Return x)
        from no(2) [OF take_won [where body = body, OF out lt Cons [unfolded p] this]] show False by simp
      qed
    qed
  qed
qed

text \<open>
  From any state that is not cancelled the legs and the collector can run on to such a
  state without a cancellation.
\<close>

lemma lr_step_ctx: "lr_step body fin can outcome n s t \<Longrightarrow> t = s\<lparr>lr_ctx := True\<rparr> \<or> lr_ctx t = lr_ctx s"
  by (auto simp: lr_step_simps)

lemma lr_runs_on:
  assumes "reach I (lr_step body fin can outcome n) s" "\<not> lr_ctx s"
  obtains t where "reach I (lr_step body fin can outcome n) t" "\<not> lr_ctx t" "lr_final body fin can outcome n t"
  using assms
proof (induction "lr_measure s" arbitrary: s thesis rule: less_induct)
  case less
  show thesis
  proof (cases "lr_final body fin can outcome n s")
    case True
    then show thesis using less.prems by blast
  next
    case False
    then obtain t where t: "lr_step body fin can outcome n s t" "t \<noteq> s\<lparr>lr_ctx := True\<rparr>" by (auto simp: lr_final_def)
    have "reach I (lr_step body fin can outcome n) t" using less.prems(2) t(1) by (rule reach_step)
    moreover have "\<not> lr_ctx t" using lr_step_ctx [OF t(1)] t(2) less.prems(3) by simp
    ultimately show thesis using less.hyps [OF lr_step_measure [OF t(1)]] less.prems(1) by blast
  qed
qed

lemma lr_complete_run:
  obtains t where "reach (lr_init n a0) (lr_step body fin can outcome n) t" "\<not> lr_ctx t" "lr_final body fin can outcome n t"
proof -
  let ?s = "\<lparr>lr_legs = replicate n Working, lr_chan = [], lr_taken = [], lr_acc = a0, lr_out = None, lr_ctx = False\<rparr>"
  have "reach (lr_init n a0) (lr_step body fin can outcome n) ?s" by (rule reach_init) (simp add: lr_init_def)
  then show thesis by (rule lr_runs_on) (simp_all add: that)
qed

text \<open>
  What a returned collector returned: the value of \<open>collect\<close> on results of different
  legs, in the order they were received.
\<close>

lemma lr_out_collect:
  assumes "lr_invar body fin can outcome n a0 s" "lr_out s = Some x"
  obtains evs where "collect body fin can n a0 evs = Some x"
    "distinct (map fst (lr_taken s))" "list_all (\<lambda>(i, r). i < n \<and> outcome i r) (lr_taken s)"
    "evs = map (Some \<circ> snd) (lr_taken s) \<or> lr_ctx s \<and> evs = map (Some \<circ> snd) (lr_taken s) @ [None]"
proof -
  let ?l = "lr_taken s @ lr_chan s"
  have so: "sent_log outcome n (lr_legs s) ?l" and oo: "out_ok body fin can n a0 s"
    using assms(1) by (simp_all add: lr_invar_def sent_ok_def)
  have "set (map fst ?l) \<subseteq> {..<n}" using so by (auto simp: sent_log_def)
  then have "list_all (\<lambda>(i, r). i < n \<and> outcome i r) (lr_taken s)" "distinct (map fst (lr_taken s))"
    using so by (auto simp: sent_log_def list_all_iff)
  then show thesis using that oo assms(2) by (auto simp: out_ok_def)
qed


text \<open>When as many results as legs were received, every leg is among them.\<close>

lemma all_taken:
  assumes "distinct (map fst l)" "list_all (\<lambda>(i, r). i < n \<and> outcome i r) l" "n \<le> length l" "i < n"
  obtains r where "(i, r) \<in> set l" "outcome i r"
proof -
  have "set (map fst l) \<subseteq> {..<n}" using assms(2) by (auto simp: list_all_iff)
  moreover have "card (set (map fst l)) = length l" using assms(1) by (metis distinct_card length_map)
  ultimately have "set (map fst l) = {..<n}"
    using assms(3) by (intro card_seteq) simp_all
  then have "i \<in> set (map fst l)" using assms(4) by simp
  then obtain r where "(i, r) \<in> set l" by auto
  then show thesis using that assms(2) by (auto simp: list_all_iff)
qed


context first_useful
begin

text \<open>
  A leg that can only produce useful results decides every contest that has ended without
  a cancellation: some leg has won.
\<close>

lemma returned_won:
  assumes inv: "lr_invar body fin can outcome n a0 s" and x: "lr_out s = Some x" and "\<not> lr_ctx s"
    and i: "i < n" and good: "\<And>r. outcome i r \<Longrightarrow> useful_res r"
  obtains j r where "j < n" "outcome j r" "useful_res r" "x = win r"
proof -
  obtain evs where c: "collect body fin can n a0 evs = Some x" and d: "distinct (map fst (lr_taken s))"
    and l: "list_all (\<lambda>(i, r). i < n \<and> outcome i r) (lr_taken s)" and evs: "evs = map (Some \<circ> snd) (lr_taken s)"
    using lr_out_collect [OF inv x] assms(3) by (metis (no_types, lifting))
  from c show thesis
  proof (cases rule: collect_cases)
    case (won rs r rest)
    have "Some r \<in> set evs" using won(1) by simp
    then obtain j where "(j, r) \<in> set (lr_taken s)" using evs by auto
    then show thesis using that won l by (auto simp: list_all_iff)
  next
    case (lost rs rest)
    have len: "length (lr_taken s) = n + length rest" using arg_cong [OF lost(1), of length] lost(3) evs by simp
    then obtain r where r: "(i, r) \<in> set (lr_taken s)" "outcome i r"
      using all_taken [OF d l _ i] by (metis le_add1)
    have "set (map fst (lr_taken s)) \<subseteq> {..<n}" using l by (auto simp: list_all_iff)
    from card_mono [OF _ this] have "length (lr_taken s) \<le> n" using distinct_card [OF d] by simp
    then have "rest = []" using len by simp
    then have "set (map Some rs) = set (map (Some \<circ> snd) (lr_taken s))" using evs lost(1) by simp
    moreover have "Some r \<in> set (map (Some \<circ> snd) (lr_taken s))" using r(1) by force
    ultimately have "r \<in> set rs" by auto
    then show thesis using lost(2) good [OF r(2)] by (auto simp: list_all_iff)
  next
    case (stopped rs rest)
    have "None \<in> set evs" using stopped(1) by simp
    then show thesis using evs by auto
  qed
qed

end

text \<open>The results a collector has processed are a prefix of those it received.\<close>

lemma taken_prefix:
  assumes "evs = map Some rs @ rest"
    and "evs = map (Some \<circ> snd) l \<or> b \<and> evs = map (Some \<circ> snd) l @ [None]"
  shows "take (length rs) (map snd l) = rs \<and> length rs \<le> length l"
proof -
  have le: "length rs \<le> length l"
  proof (rule ccontr)
    assume n: "\<not> length rs \<le> length l"
    then have "evs ! length l = Some (rs ! length l)" using assms(1) by (simp add: nth_append)
    moreover have "length l < length evs" using n assms(1) by simp
    ultimately show False using assms(2) by (auto simp: nth_append)
  qed
  have "take (length rs) evs = map Some rs" using assms(1) by simp
  moreover have "take (length rs) evs = map Some (take (length rs) (map snd l))"
    using assms(2) le by (auto simp: take_map)
  ultimately have "take (length rs) (map snd l) = rs" by (metis list.inj_map_strong option.inject)
  then show ?thesis using le by blast
qed

end
