(* ===== verification/Race.thy ===== *)
theory Race
  imports Dns_Types Leg_Race
begin

text \<open>
  The race plugin (\<open>plugin/race/race.go\<close>, with the counters of \<open>metrics.go\<close>): one leg
  per upstream with its bounded retries on dead pooled connections, and the dispatcher
  that answers with the first useful reply.

  The connection pool is not part of the repository: what the successive
  \<open>proxy.Connect\<close> calls of a leg return is a parameter (\<open>conn\<close>), as are
  \<open>request.Match\<close>, \<open>plugin.Name.Matches\<close>, \<open>Msg.SetRcode\<close> and the rest of the plugin
  chain. The counters a function increments are its list of \<open>race_count\<close>s.
\<close>

subsection \<open>State\<close>

text \<open>
  What the plugin sets of a \<open>proxy.Proxy\<close>: its address and transport, the TLS
  configuration it was given, and the settings of its connection pool. Of a TLS
  configuration the plugin sets the server name and the size of the session cache.
\<close>

record tls_config =
  ServerName :: string
  sessionCache :: nat

record proxy =
  px_addr :: string
  px_trans :: string
  px_tls :: "tls_config option"
  px_expire :: int
  px_maxIdle :: nat

record Race =
  race_from :: string
  proxies :: "proxy list"
  race_expire :: int
  tlsServerName :: string
  tlsConfig :: "tls_config option"

datatype race_count =
  WinsCount string | LegFailures string string | StaleConns string | QueriesCount string

record legResult =
  lg_to :: string
  lg_msg :: "msg option"
  lg_err :: "goerr option"

definition maxIdleConns :: nat where "maxIdleConns = 8"

definition maxConnectAttempts :: nat where "maxConnectAttempts = maxIdleConns + 2"

definition errNoAnswer :: goerr where
  "errNoAnswer = mk_err (Other ''no upstream produced an answer'')"

definition errMismatch :: goerr where
  "errMismatch = mk_err (Other ''upstream answered a different question'')"

subsection \<open>A leg\<close>

definition race_useful :: "msg option \<Rightarrow> bool" where
  "race_useful mo =
     (case mo of
        None \<Rightarrow> False
      | Some m \<Rightarrow>
          if Truncated m then False else Rcode m = RcodeSuccess \<or> Rcode m = RcodeNameError)"

definition staleConn :: "goerr option \<Rightarrow> bool" where
  "staleConn eo =
     (case eo of
        None \<Rightarrow> False
      | Some e \<Rightarrow> errors_is e ErrCachedClosed \<or> errors_is e EOF \<or> errors_is e EPIPE \<or> errors_is e ECONNRESET)"

text \<open>The \<open>k\<close>-th \<open>Connect\<close> of the leg gives a message and an error.\<close>

type_synonym connect = "nat \<Rightarrow> msg option \<times> goerr option"

fun exchange_loop ::
  "connect \<Rightarrow> string \<Rightarrow> nat \<Rightarrow> nat \<Rightarrow> msg option \<times> goerr option \<Rightarrow> race_count list \<Rightarrow>
   (msg option \<times> goerr option) \<times> race_count list" where
  "exchange_loop conn to k 0 res cs = (res, cs)"
| "exchange_loop conn to k (Suc n) res cs =
     (case conn k of (ret, err) \<Rightarrow>
        if \<not> staleConn err then ((ret, err), cs)
        else exchange_loop conn to (k + 1) n (ret, err) (cs @ [StaleConns to]))"

definition exchange ::
  "(msg \<Rightarrow> msg option \<Rightarrow> bool) \<Rightarrow> connect \<Rightarrow> string \<Rightarrow> msg \<Rightarrow> legResult \<times> race_count list" where
  "exchange match_reply conn to m =
     (case exchange_loop conn to 0 maxConnectAttempts (None, None) [] of ((ret, err), cs) \<Rightarrow>
        (case err of
           Some e \<Rightarrow>
             (\<lparr>lg_to = to, lg_msg = None, lg_err = Some e\<rparr>, cs @ [LegFailures to ''error''])
         | None \<Rightarrow>
             if \<not> match_reply m ret
             then (\<lparr>lg_to = to, lg_msg = None, lg_err = Some errMismatch\<rparr>,
                   cs @ [LegFailures to ''mismatch''])
             else (\<lparr>lg_to = to, lg_msg = ret, lg_err = None\<rparr>,
                   if \<not> race_useful ret then cs @ [LegFailures to ''unusable''] else cs)))"

subsection \<open>The dispatcher\<close>

definition race_reply :: "set_rcode \<Rightarrow> live_writer \<Rightarrow> msg \<Rightarrow> msg \<Rightarrow> served" where
  "race_reply sr w r m =
     (let m' = sr m r (Rcode m)
      in case lw_write w m' of
           Some e \<Rightarrow> \<lparr>sv_rcode = RcodeServerFailure, sv_err = Some e, sv_written = []\<rparr>
         | None \<Rightarrow> \<lparr>sv_rcode = RcodeSuccess, sv_err = None, sv_written = [m']\<rparr>)"

text \<open>The variables of the loop: the message of \<open>fallback\<close>, and \<open>lastErr\<close>.\<close>

type_synonym dispatch_vars = "msg option \<times> goerr option"

type_synonym dispatch_out = "served \<times> race_count list"

definition dispatch_body ::
  "set_rcode \<Rightarrow> live_writer \<Rightarrow> msg \<Rightarrow> dispatch_vars \<Rightarrow> legResult \<Rightarrow> (dispatch_vars, dispatch_out) turn" where
  "dispatch_body sr w r vars res =
     (case vars of (fallback, lastErr) \<Rightarrow>
        let lastErr' = (if lg_err res \<noteq> None then lg_err res else lastErr);
            fallback' = (if lg_msg res \<noteq> None then lg_msg res else fallback)
        in if \<not> race_useful (lg_msg res) then Continue (fallback', lastErr')
           else case lg_msg res of
                  None \<Rightarrow> Continue (fallback', lastErr')
                | Some m \<Rightarrow> Return (race_reply sr w r m, [WinsCount (lg_to res), QueriesCount ''won'']))"

definition dispatch_after :: "set_rcode \<Rightarrow> live_writer \<Rightarrow> msg \<Rightarrow> dispatch_vars \<Rightarrow> dispatch_out" where
  "dispatch_after sr w r vars =
     (case vars of (fallback, lastErr) \<Rightarrow>
        case fallback of
          Some m \<Rightarrow> (race_reply sr w r m, [QueriesCount ''fallback''])
        | None \<Rightarrow>
            (let e = (case lastErr of None \<Rightarrow> errNoAnswer | Some e \<Rightarrow> e)
             in (\<lparr>sv_rcode = RcodeServerFailure, sv_err = Some (plugin_error ''race'' e), sv_written = []\<rparr>,
                 [QueriesCount ''failed''])))"

definition dispatch_cancelled :: "goerr \<Rightarrow> dispatch_out" where
  "dispatch_cancelled cerr = (\<lparr>sv_rcode = RcodeServerFailure, sv_err = Some cerr, sv_written = []\<rparr>, [])"

definition dispatch ::
  "set_rcode \<Rightarrow> Race \<Rightarrow> goerr \<Rightarrow> live_writer \<Rightarrow> msg \<Rightarrow> legResult option list \<Rightarrow> dispatch_out option" where
  "dispatch sr rc cerr w r evs =
     collect (dispatch_body sr w r) (dispatch_after sr w r) (dispatch_cancelled cerr)
       (length (proxies rc)) (None, None) evs"

definition race_ServeDNS ::
  "(string \<Rightarrow> string \<Rightarrow> bool) \<Rightarrow> handler \<Rightarrow> set_rcode \<Rightarrow> Race \<Rightarrow> goerr \<Rightarrow> live_writer \<Rightarrow> string \<Rightarrow> msg \<Rightarrow>
   legResult option list \<Rightarrow> dispatch_out option" where
  "race_ServeDNS name_matches nxt sr rc cerr w name r evs =
     (if \<not> name_matches (race_from rc) name then Some (nxt r, [])
      else dispatch sr rc cerr w r evs)"

text \<open>
  The dispatcher with its legs running: \<open>conns i\<close> says which connection histories leg \<open>i\<close>
  can meet.
\<close>

definition leg_outcome ::
  "(msg \<Rightarrow> msg option \<Rightarrow> bool) \<Rightarrow> (nat \<Rightarrow> connect \<Rightarrow> bool) \<Rightarrow> Race \<Rightarrow> msg \<Rightarrow> nat \<Rightarrow> legResult \<Rightarrow> bool" where
  "leg_outcome match_reply conns rc m i res \<longleftrightarrow>
     (\<exists>conn. conns i conn \<and> res = fst (exchange match_reply conn (px_addr (proxies rc ! i)) m))"

definition dispatch_init :: "Race \<Rightarrow> (legResult, dispatch_vars, dispatch_out) legs \<Rightarrow> bool" where
  "dispatch_init rc = lr_init (length (proxies rc)) (None, None)"

definition dispatch_step ::
  "set_rcode \<Rightarrow> (msg \<Rightarrow> msg option \<Rightarrow> bool) \<Rightarrow> (nat \<Rightarrow> connect \<Rightarrow> bool) \<Rightarrow> Race \<Rightarrow> goerr \<Rightarrow> live_writer \<Rightarrow> msg \<Rightarrow>
   (legResult, dispatch_vars, dispatch_out) legs \<Rightarrow> (legResult, dispatch_vars, dispatch_out) legs \<Rightarrow> bool" where
  "dispatch_step sr match_reply conns rc cerr w r =
     lr_step (dispatch_body sr w r) (dispatch_after sr w r) (dispatch_cancelled cerr)
       (leg_outcome match_reply conns rc r) (length (proxies rc))"

lemmas race_defs [go_eval] =
  maxIdleConns_def maxConnectAttempts_def errNoAnswer_def errMismatch_def race_useful_def
  staleConn_def exchange_def race_reply_def dispatch_body_def dispatch_after_def
  dispatch_cancelled_def dispatch_def race_ServeDNS_def

subsection \<open>The retries of a leg\<close>

lemma exchange_loop_stale:
  "(\<And>j. j < n \<Longrightarrow> staleConn (snd (conn (k + j)))) \<Longrightarrow> n \<le> m \<Longrightarrow>
   exchange_loop conn to k m res cs =
     exchange_loop conn to (k + n) (m - n) (if n = 0 then res else conn (k + n - 1)) (cs @ replicate n (StaleConns to))"
proof (induction n arbitrary: k m res cs)
  case (Suc n)
  obtain m' where m: "m = Suc m'" using Suc.prems(2) by (cases m) auto
  obtain ret err where c: "conn k = (ret, err)" by (cases "conn k")
  have "staleConn err" using Suc.prems(1) [of 0] c by simp
  then have "exchange_loop conn to k m res cs = exchange_loop conn to (Suc k) m' (ret, err) (cs @ [StaleConns to])"
    by (simp add: m c)
  also have "\<dots> = exchange_loop conn to (Suc k + n) (m' - n) (if n = 0 then (ret, err) else conn (Suc k + n - 1))
      ((cs @ [StaleConns to]) @ replicate n (StaleConns to))"
    by (rule Suc.IH) (use Suc.prems(1) [of "Suc _"] Suc.prems(2) m in auto)
  finally show ?case using c m by (simp split: if_splits)
qed simp

lemma exchange_loop_first:
  assumes "\<And>j. j < n \<Longrightarrow> staleConn (snd (conn j))" "\<not> staleConn (snd (conn n))" "n < m"
  shows "exchange_loop conn to 0 m res [] = (conn n, replicate n (StaleConns to))"
proof -
  obtain m' where "m - n = Suc m'" using assms(3) by (cases "m - n") auto
  then show ?thesis
    using exchange_loop_stale [of n conn 0 m to res "[]"] assms by (cases "conn n") simp
qed

lemma exchange_loop_all_stale:
  assumes "\<And>j. j < m \<Longrightarrow> staleConn (snd (conn j))" "0 < m"
  shows "exchange_loop conn to 0 m res [] = (conn (m - 1), replicate m (StaleConns to))"
  using exchange_loop_stale [of m conn 0 m to res "[]"] assms by simp


text \<open>What a leg makes of the attempt it ends with.\<close>

definition leg_of ::
  "(msg \<Rightarrow> msg option \<Rightarrow> bool) \<Rightarrow> msg option \<times> goerr option \<Rightarrow> string \<Rightarrow> msg \<Rightarrow> legResult \<times> race_count list" where
  "leg_of match_reply att to m =
     (case att of
        (_, Some e) \<Rightarrow> (\<lparr>lg_to = to, lg_msg = None, lg_err = Some e\<rparr>, [LegFailures to ''error''])
      | (ret, None) \<Rightarrow>
          if match_reply m ret
          then (\<lparr>lg_to = to, lg_msg = ret, lg_err = None\<rparr>, if race_useful ret then [] else [LegFailures to ''unusable''])
          else (\<lparr>lg_to = to, lg_msg = None, lg_err = Some errMismatch\<rparr>, [LegFailures to ''mismatch'']))"

lemma exchange_leg_of:
  "exchange_loop conn to 0 maxConnectAttempts (None, None) [] = (att, cs) \<Longrightarrow>
   exchange match_reply conn to m = map_prod id (\<lambda>fs. cs @ fs) (leg_of match_reply att to m)"
  by (cases att) (auto simp: exchange_def leg_of_def split: option.splits)

text \<open>
  C18: a leg ends after at most ten attempts: it skips, and counts, the attempts that found
  a dead pooled connection, and its result is that of the first attempt that did not (a
  failure, a reply to another question, or the reply), or of the tenth one. Nine dead
  connections, one more than a pool holds, therefore never cost a leg its answer.
\<close>

theorem exchange_total:
  "\<exists>n < maxConnectAttempts.
     list_all (\<lambda>j. staleConn (snd (conn j))) [0..<n] \<and>
     (staleConn (snd (conn n)) \<longleftrightarrow> n = maxIdleConns + 1 \<and> list_all (\<lambda>j. staleConn (snd (conn j))) [0..<maxConnectAttempts]) \<and>
     exchange match_reply conn to m =
       map_prod id (\<lambda>fs. replicate (if staleConn (snd (conn n)) then n + 1 else n) (StaleConns to) @ fs)
         (leg_of match_reply (conn n) to m)"
proof (cases "\<exists>n < maxConnectAttempts. \<not> staleConn (snd (conn n))")
  case True
  then obtain k where k: "k < maxConnectAttempts" "\<not> staleConn (snd (conn k))" by blast
  define n where "n = (LEAST n. \<not> staleConn (snd (conn n)))"
  have n: "\<not> staleConn (snd (conn n))" "n \<le> k" and l: "\<And>j. j < n \<Longrightarrow> staleConn (snd (conn j))"
    unfolding n_def using LeastI [of "\<lambda>n. \<not> staleConn (snd (conn n))", OF k(2)]
      Least_le [of "\<lambda>n. \<not> staleConn (snd (conn n))", OF k(2)]
      not_less_Least [of _ "\<lambda>n. \<not> staleConn (snd (conn n))"] by blast+
  have lt: "n < maxConnectAttempts" using n(2) k(1) by simp
  have "\<not> list_all (\<lambda>j. staleConn (snd (conn j))) [0..<maxConnectAttempts]"
    using n(1) lt by (auto simp: list_all_iff)
  moreover have "list_all (\<lambda>j. staleConn (snd (conn j))) [0..<n]" using l by (simp add: list_all_iff)
  ultimately show ?thesis
    using lt n(1) exchange_leg_of [OF exchange_loop_first [of n conn, OF l n(1) lt]] by (intro exI [of _ n]) simp
next
  case False
  then have l: "\<And>j. j < maxConnectAttempts \<Longrightarrow> staleConn (snd (conn j))" by blast
  have m: "maxConnectAttempts - 1 = maxIdleConns + 1" "Suc (maxIdleConns + 1) = maxConnectAttempts" "0 < maxConnectAttempts"
    by (simp_all add: maxConnectAttempts_def)
  have "list_all (\<lambda>j. staleConn (snd (conn j))) [0..<maxConnectAttempts]"
    "list_all (\<lambda>j. staleConn (snd (conn j))) [0..<maxIdleConns + 1]"
    using l m by (auto simp: list_all_iff)
  moreover have "staleConn (snd (conn (maxIdleConns + 1)))" using l m by simp
  ultimately show ?thesis
    using exchange_leg_of [OF exchange_loop_all_stale [of _ conn, OF l m(3)]] m
    by (intro exI [of _ "maxIdleConns + 1"]) simp
qed

subsection \<open>The contest\<close>

definition race_note :: "dispatch_vars \<Rightarrow> legResult \<Rightarrow> dispatch_vars" where
  "race_note vars res =
     (if lg_msg res \<noteq> None then lg_msg res else fst vars, if lg_err res \<noteq> None then lg_err res else snd vars)"

definition race_win :: "set_rcode \<Rightarrow> live_writer \<Rightarrow> msg \<Rightarrow> legResult \<Rightarrow> dispatch_out" where
  "race_win sr w r res =
     (race_reply sr w r (the (lg_msg res)), [WinsCount (lg_to res), QueriesCount ''won''])"

lemma race_useful_Some: "race_useful mo \<Longrightarrow> \<exists>m. mo = Some m"
  by (auto simp: race_useful_def split: option.splits)

interpretation contest: first_useful "dispatch_body sr w r" "\<lambda>res. race_useful (lg_msg res)" race_note "race_win sr w r"
  for sr w r
proof
  fix res vars
  show "dispatch_body sr w r vars res = Return (race_win sr w r res)" if "race_useful (lg_msg res)"
    using race_useful_Some [OF that] that by (auto simp: dispatch_body_def race_win_def Let_def split: prod.splits)
  show "dispatch_body sr w r vars res = Continue (race_note vars res)" if "\<not> race_useful (lg_msg res)"
    using that by (simp add: dispatch_body_def race_note_def split: prod.splits)
qed

text \<open>What is left of the results that did not win: the last message and the last error.\<close>

lemma race_note_foldl:
  "foldl race_note (a, b) rs =
     (case rev (filter (\<lambda>x. lg_msg x \<noteq> None) rs) of [] \<Rightarrow> a | x # _ \<Rightarrow> lg_msg x,
      case rev (filter (\<lambda>x. lg_err x \<noteq> None) rs) of [] \<Rightarrow> b | x # _ \<Rightarrow> lg_err x)"
  by (induction rs rule: rev_induct) (simp_all add: race_note_def)

text \<open>
  The outcome when every upstream has reported and none was useful: the last reply there
  was, or else the last error.
\<close>

definition fallback_out :: "set_rcode \<Rightarrow> live_writer \<Rightarrow> msg \<Rightarrow> legResult list \<Rightarrow> dispatch_out" where
  "fallback_out sr w r lost =
     (case rev (filter (\<lambda>x. lg_msg x \<noteq> None) lost) of
        res # _ \<Rightarrow> (race_reply sr w r (the (lg_msg res)), [QueriesCount ''fallback''])
      | [] \<Rightarrow>
          (\<lparr>sv_rcode = RcodeServerFailure,
            sv_err = Some (plugin_error ''race''
              (case rev (filter (\<lambda>x. lg_err x \<noteq> None) lost) of
                 x # _ \<Rightarrow> the (lg_err x) | [] \<Rightarrow> errNoAnswer)),
            sv_written = []\<rparr>, [QueriesCount ''failed'']))"

lemma dispatch_after_lost: "dispatch_after sr w r (foldl race_note (None, None) lost) = fallback_out sr w r lost"
proof -
  let ?ms = "rev (filter (\<lambda>x. lg_msg x \<noteq> None) lost)" and ?es = "rev (filter (\<lambda>x. lg_err x \<noteq> None) lost)"
  have m: "lg_msg x \<noteq> None" if "?ms = x # xs" for x xs
    using arg_cong [OF that, of set] by auto
  have e: "lg_err x \<noteq> None" if "?es = x # xs" for x xs
    using arg_cong [OF that, of set] by auto
  show ?thesis
  proof (cases ?ms)
    case (Cons x xs)
    then obtain y where "lg_msg x = Some y" using m by blast
    with Cons show ?thesis unfolding race_note_foldl dispatch_after_def fallback_out_def by simp
  next
    case Nil
    show ?thesis
    proof (cases ?es)
      case (Cons x xs)
      then obtain y where "lg_err x = Some y" using e by blast
      with Nil Cons show ?thesis
        unfolding race_note_foldl dispatch_after_def fallback_out_def Let_def Nil Cons by simp
    next
      case Nil2: Nil
      show ?thesis
        unfolding race_note_foldl dispatch_after_def fallback_out_def Let_def Nil Nil2 by simp
    qed
  qed
qed

text \<open>
  C11: the dispatcher returns in exactly three ways. Either a useful reply arrived, after
  results that were not useful: the first one is readdressed to the client and written.
  Or all upstreams reported and none was useful: the last reply there was is written,
  or the last error is returned with SERVFAIL when there was no reply at all. Or the
  context was done before: SERVFAIL with the context's error, and nothing is written.
\<close>

theorem dispatch_decides:
  "dispatch sr rc cerr w r evs = Some out \<longleftrightarrow>
     (\<exists>lost res rest. evs = map Some lost @ Some res # rest \<and> length lost < length (proxies rc) \<and>
        list_all (\<lambda>x. \<not> race_useful (lg_msg x)) lost \<and> race_useful (lg_msg res) \<and>
        out = (race_reply sr w r (the (lg_msg res)), [WinsCount (lg_to res), QueriesCount ''won''])) \<or>
     (\<exists>lost rest. evs = map Some lost @ rest \<and> length lost = length (proxies rc) \<and>
        list_all (\<lambda>x. \<not> race_useful (lg_msg x)) lost \<and> out = fallback_out sr w r lost) \<or>
     (\<exists>lost rest. evs = map Some lost @ None # rest \<and> length lost < length (proxies rc) \<and>
        list_all (\<lambda>x. \<not> race_useful (lg_msg x)) lost \<and>
        out = (\<lparr>sv_rcode = RcodeServerFailure, sv_err = Some cerr, sv_written = []\<rparr>, []))"
  (is "_ \<longleftrightarrow> ?won \<or> ?lost \<or> ?cancelled")
proof
  assume "dispatch sr rc cerr w r evs = Some out"
  then show "?won \<or> ?lost \<or> ?cancelled"
    unfolding dispatch_def
  proof (cases rule: contest.collect_cases)
    case (won rs res rest)
    then show ?thesis unfolding race_win_def by blast
  next
    case (lost rs rest)
    then show ?thesis unfolding dispatch_after_lost by blast
  next
    case (stopped rs rest)
    then show ?thesis unfolding dispatch_cancelled_def by blast
  qed
next
  assume "?won \<or> ?lost \<or> ?cancelled"
  then show "dispatch sr rc cerr w r evs = Some out"
    unfolding dispatch_def
    using contest.first_useful_wins [of _ _ "length (proxies rc)" sr w r "dispatch_after sr w r" "dispatch_cancelled cerr" "(None, None)"]
      contest.all_lost [of _ "length (proxies rc)" sr w r "dispatch_after sr w r" "dispatch_cancelled cerr" "(None, None)"]
      contest.cancelled [of _ "length (proxies rc)" sr w r "dispatch_after sr w r" "dispatch_cancelled cerr" "(None, None)"]
    unfolding dispatch_after_lost race_win_def dispatch_cancelled_def by blast
qed


subsection \<open>The legs running\<close>

lemma dispatch_run_invar:
  "reach (dispatch_init rc) (dispatch_step sr mr conns rc cerr w r) s \<Longrightarrow>
   lr_invar (dispatch_body sr w r) (dispatch_after sr w r) (dispatch_cancelled cerr)
     (leg_outcome mr conns rc r) (length (proxies rc)) (None, None) s"
  unfolding dispatch_init_def dispatch_step_def by (rule race_legs.reachable_invar)

text \<open>
  C19: whatever the interleaving of the legs, the dispatcher and the context, no leg ever
  waits for room in the channel, so losing legs end on their own after the query has been
  answered; the dispatcher's outcome is its decision on results that different upstreams
  delivered, in the order they came in, and a cancellation only when the context is done;
  and every run is finite.
\<close>

theorem dispatch_run_safe:
  assumes "reach (dispatch_init rc) (dispatch_step sr mr conns rc cerr w r) s"
  shows "\<not> (\<exists>i res. i < length (proxies rc) \<and> lr_legs s ! i = Computed res \<and> length (proxies rc) \<le> length (lr_chan s)) \<and>
     (\<forall>out. lr_out s = Some out \<longrightarrow>
        dispatch sr rc cerr w r (map (Some \<circ> snd) (lr_taken s)) = Some out \<or>
        lr_ctx s \<and> dispatch sr rc cerr w r (map (Some \<circ> snd) (lr_taken s) @ [None]) = Some out) \<and>
     distinct (map fst (lr_taken s)) \<and>
     list_all (\<lambda>(i, res). leg_outcome mr conns rc r i res) (lr_taken s) \<and>
     wfp (\<lambda>t s. dispatch_step sr mr conns rc cerr w r s t)"
proof -
  note inv = dispatch_run_invar [OF assms]
  have so: "sent_ok (leg_outcome mr conns rc r) (length (proxies rc)) s" using inv by (simp add: lr_invar_def)
  have "\<not> (\<exists>i res. i < length (proxies rc) \<and> lr_legs s ! i = Computed res \<and> length (proxies rc) \<le> length (lr_chan s))"
    using leg_never_blocked [OF so] by fastforce
  moreover have "dispatch sr rc cerr w r (map (Some \<circ> snd) (lr_taken s)) = Some out \<or>
        lr_ctx s \<and> dispatch sr rc cerr w r (map (Some \<circ> snd) (lr_taken s) @ [None]) = Some out"
    if "lr_out s = Some out" for out
    using inv that by (auto simp: lr_invar_def out_ok_def dispatch_def comp_def)
  moreover have "distinct (map fst (lr_taken s))" "list_all (\<lambda>(i, res). leg_outcome mr conns rc r i res) (lr_taken s)"
    using so by (auto simp: sent_ok_def sent_log_def)
  moreover have "wfp (\<lambda>t s. dispatch_step sr mr conns rc cerr w r s t)"
    unfolding dispatch_step_def by (rule lr_step_terminates)
  ultimately show ?thesis by blast
qed

lemma race_reply_writes:
  assumes "set_rcode_ok sr" "lw_write w (sr m r (Rcode m)) = None"
  shows "race_reply sr w r m = \<lparr>sv_rcode = RcodeSuccess, sv_err = None, sv_written = [sr m r (Rcode m)]\<rparr>"
  using assms by (simp add: race_reply_def)

lemma race_useful_readdressed:
  "set_rcode_ok sr \<Longrightarrow> race_useful (Some m) \<Longrightarrow> race_useful (Some (sr m r (Rcode m)))"
  by (simp add: race_useful_def set_rcode_okD split: if_splits)

text \<open>With such an upstream the dispatcher only ever returns with one useful reply.\<close>

lemma dispatch_returned_useful:
  assumes "reach (dispatch_init rc) (dispatch_step sr mr conns rc cerr w r) s" "lr_out s = Some out" "\<not> lr_ctx s"
    and i: "i < length (proxies rc)"
    and good: "\<And>conn. conns i conn \<Longrightarrow> race_useful (lg_msg (fst (exchange mr conn (px_addr (proxies rc ! i)) r)))"
    and sr: "set_rcode_ok sr" and wr: "\<And>m. lw_write w m = None"
  obtains m where "fst out = \<lparr>sv_rcode = RcodeSuccess, sv_err = None, sv_written = [m]\<rparr>"
    "race_useful (Some m)" "msg_id m = msg_id r" "Question m = take 1 (Question r)"
proof -
  have "race_useful (lg_msg res)" if "leg_outcome mr conns rc r i res" for res
    using that good by (auto simp: leg_outcome_def)
  then obtain res where res: "race_useful (lg_msg res)" "out = race_win sr w r res"
    using contest.returned_won [OF dispatch_run_invar [OF assms(1)] assms(2,3) i] by metis
  then obtain m where m: "lg_msg res = Some m" "race_useful (Some m)" using race_useful_Some by metis
  then show thesis
    using res(2) race_useful_readdressed [OF sr m(2), of r] set_rcode_okD [OF sr] that
    by (auto simp: race_win_def race_reply_writes [OF sr wr])
qed

text \<open>A contest whose legs can all end returns.\<close>

lemma dispatch_final_returned:
  assumes "reach (dispatch_init rc) (dispatch_step sr mr conns rc cerr w r) s"
    and fin: "lr_final (dispatch_body sr w r) (dispatch_after sr w r) (dispatch_cancelled cerr)
      (leg_outcome mr conns rc r) (length (proxies rc)) s"
    and ends: "\<And>j. j < length (proxies rc) \<Longrightarrow> \<exists>conn. conns j conn"
  shows "\<exists>out. lr_out s = Some out"
proof -
  have "\<exists>res. leg_outcome mr conns rc r j res" if "j < length (proxies rc)" for j
    using ends [OF that] by (auto simp: leg_outcome_def)
  from lr_final_legs(2) [OF dispatch_run_invar [OF assms(1)] fin this] show ?thesis by auto
qed

text \<open>
  C5: one upstream that answers is enough. When some upstream can only produce useful
  replies, the others merely end, the context is not cancelled and the client's writer
  works, every complete run has written exactly one message: a useful reply with
  the client's identifier and question.
\<close>

theorem dispatch_answers:
  assumes "reach (dispatch_init rc) (dispatch_step sr mr conns rc cerr w r) s"
    and fin: "\<And>t. dispatch_step sr mr conns rc cerr w r s t \<Longrightarrow> t = s\<lparr>lr_ctx := True\<rparr>" and "\<not> lr_ctx s"
    and ends: "\<And>j. j < length (proxies rc) \<Longrightarrow> \<exists>conn. conns j conn" and i: "i < length (proxies rc)"
    and good: "\<And>conn. conns i conn \<Longrightarrow> race_useful (lg_msg (fst (exchange mr conn (px_addr (proxies rc ! i)) r)))"
    and sr: "set_rcode_ok sr" and wr: "\<And>m. lw_write w m = None"
  shows "\<exists>m counts. lr_out s = Some (\<lparr>sv_rcode = RcodeSuccess, sv_err = None, sv_written = [m]\<rparr>, counts) \<and>
     race_useful (Some m) \<and> msg_id m = msg_id r \<and> Question m = take 1 (Question r)"
proof -
  have "lr_final (dispatch_body sr w r) (dispatch_after sr w r) (dispatch_cancelled cerr)
      (leg_outcome mr conns rc r) (length (proxies rc)) s"
    using fin by (simp add: lr_final_def dispatch_step_def)
  from dispatch_final_returned [OF assms(1) this ends] obtain out where out: "lr_out s = Some out" by blast
  obtain m where "fst out = \<lparr>sv_rcode = RcodeSuccess, sv_err = None, sv_written = [m]\<rparr>"
    "race_useful (Some m)" "msg_id m = msg_id r" "Question m = take 1 (Question r)"
    by (rule dispatch_returned_useful [OF assms(1) out assms(3) i good sr wr])
  then show ?thesis using out by (cases out) auto
qed

subsection \<open>A concrete run\<close>

text \<open>One upstream that answers at once, and the run in which it wins.\<close>

definition sample_race :: Race where
  "sample_race = \<lparr>race_from = ''.'', proxies = [\<lparr>px_addr = ''9.9.9.9:53'', px_trans = ''dns'', px_tls = None, px_expire = 0, px_maxIdle = 8\<rparr>], race_expire = 0, tlsServerName = [], tlsConfig = None\<rparr>"

definition sample_writer :: live_writer where
  "sample_writer = \<lparr>lw_local = ''l'', lw_remote = ''r'', lw_write = (\<lambda>_. None)\<rparr>"

definition sample_conns :: "nat \<Rightarrow> connect \<Rightarrow> bool" where
  "sample_conns i conn \<longleftrightarrow> conn = (\<lambda>_. (Some new_msg, None))"

definition sample_res :: legResult where
  "sample_res = \<lparr>lg_to = ''9.9.9.9:53'', lg_msg = Some new_msg, lg_err = None\<rparr>"

definition sample_legs :: "nat \<Rightarrow> (legResult, dispatch_vars, dispatch_out) legs" where
  "sample_legs k =
     \<lparr>lr_legs = [if k = 0 then Working else if k = 1 then Computed sample_res else Sent],
      lr_chan = (if k = 2 then [(0, sample_res)] else []), lr_taken = (if k = 3 then [(0, sample_res)] else []),
      lr_acc = (None, None),
      lr_out = (if k = 3 then Some (race_win set_rcode0 sample_writer (new_msg\<lparr>msg_id := 7\<rparr>) sample_res) else None),
      lr_ctx = False\<rparr>"

abbreviation sample_step where
  "sample_step \<equiv> dispatch_step set_rcode0 (\<lambda>_ _. True) sample_conns sample_race [] sample_writer (new_msg\<lparr>msg_id := 7\<rparr>)"

lemma sample_exchange: "fst (exchange (\<lambda>_ _. True) (\<lambda>_. (Some new_msg, None)) ''9.9.9.9:53'' m) = sample_res"
proof -
  have "0 < maxConnectAttempts" by (simp add: maxConnectAttempts_def)
  then show ?thesis
    using exchange_leg_of [OF exchange_loop_first [of 0 "\<lambda>_. (Some new_msg, None)"]]
    by (simp add: sample_res_def staleConn_def leg_of_def)
qed

lemma sample_useful: "race_useful (lg_msg sample_res)"
  by (simp add: sample_res_def race_useful_def new_msg_def RcodeSuccess_def)

lemma sample_run: "reach (dispatch_init sample_race) sample_step (sample_legs 3)"
proof (rule reach_step, rule reach_step, rule reach_step)
  show "reach (dispatch_init sample_race) sample_step (sample_legs 0)"
    by (rule reach_init) (simp add: dispatch_init_def lr_init_def sample_legs_def sample_race_def)
  have "leg_outcome (\<lambda>_ _. True) sample_conns sample_race m 0 sample_res" for m
    using sample_exchange by (simp add: leg_outcome_def sample_conns_def sample_race_def)
  then show "sample_step (sample_legs 0) (sample_legs 1)"
    unfolding dispatch_step_def lr_step_simps by (intro disjI1) (auto simp: sample_legs_def)
  show "sample_step (sample_legs 1) (sample_legs 2)"
    unfolding dispatch_step_def lr_step_simps by (simp add: sample_legs_def sample_race_def)
  have "dispatch_body sr w r a sample_res = Return (race_win sr w r sample_res)" for sr w r a
    using sample_useful by (rule contest.body_useful)
  then show "sample_step (sample_legs 2) (sample_legs 3)"
    unfolding dispatch_step_def lr_step_simps by (simp add: sample_legs_def sample_race_def)
qed

theorem dispatch_run_safe_witness:
  "dispatch set_rcode0 sample_race [] sample_writer (new_msg\<lparr>msg_id := 7\<rparr>) [Some sample_res] = lr_out (sample_legs 3)"
proof -
  have "lr_out (sample_legs 3) = Some (race_win set_rcode0 sample_writer (new_msg\<lparr>msg_id := 7\<rparr>) sample_res)"
    "lr_taken (sample_legs 3) = [(0, sample_res)]" "\<not> lr_ctx (sample_legs 3)"
    by (simp_all add: sample_legs_def)
  then show ?thesis using dispatch_run_safe [OF sample_run] by simp
qed

theorem dispatch_answers_witness:
  "\<exists>m counts. lr_out (sample_legs 3) = Some (\<lparr>sv_rcode = RcodeSuccess, sv_err = None, sv_written = [m]\<rparr>, counts) \<and>
     race_useful (Some m) \<and> msg_id m = 7 \<and> Question m = []"
proof -
  have "t = (sample_legs 3)\<lparr>lr_ctx := True\<rparr>" if "sample_step (sample_legs 3) t" for t
    using that unfolding dispatch_step_def lr_step_simps by (auto simp: sample_legs_def)
  moreover have "\<not> lr_ctx (sample_legs 3)" "0 < length (proxies sample_race)"
    by (simp_all add: sample_legs_def sample_race_def)
  moreover have "\<exists>conn. sample_conns j conn" for j by (simp add: sample_conns_def)
  moreover have "race_useful (lg_msg (fst (exchange (\<lambda>_ _. True) conn (px_addr (proxies sample_race ! 0)) m)))"
    if "sample_conns 0 conn" for conn m
    using that sample_exchange sample_useful by (simp add: sample_conns_def sample_race_def)
  ultimately show ?thesis
    using dispatch_answers [OF sample_run _ _ _ _ _ set_rcode0_ok, of 0]
    by (simp add: new_msg_def sample_writer_def)
qed

end
