(* ===== verification/Peercache.thy ===== *)
theory Peercache
  imports Store Leg_Race
begin

text \<open>
  The peercache plugin (\<open>plugin/peercache/peercache.go\<close>, with the counters of
  \<open>metrics.go\<close>): the query handler, the race of the sibling probes and the upstream leg,
  and the reply.

  What happens outside is a parameter: the rest of the plugin chain, the exchange of a
  probe with a sibling, \<open>Msg.SetRcode\<close>, and the parameters of the store. A function that
  touches the store maps the store it finds to the one it leaves. The message that a leg
  delivered is a cell of the heap that only the race holds, so that the store's copy
  and the rewriting of its header are modelled as the code does them.
\<close>

subsection \<open>State\<close>

record PeerCache =
  selector :: string
  port :: int
  peers :: "string list option"

definition sourcePeer :: string where "sourcePeer = ''peer''"

definition sourceUpstream :: string where "sourceUpstream = ''upstream''"

datatype pc_count =
  PcWins string | ProbesCount string | ProbeDuration string int | ProbeFailures string

record peer_leg =
  pl_source :: string
  pl_msg :: "msg option"
  pl_rcode :: int
  pl_err :: "goerr option"

type_synonym 'c pc_effect = "'c store \<Rightarrow> served \<times> pc_count list \<times> 'c store"

subsection \<open>The legs\<close>

definition peerList :: "PeerCache \<Rightarrow> string list" where
  "peerList p = (case peers p of Some v \<Rightarrow> v | None \<Rightarrow> [])"

definition pc_useful :: "msg option \<Rightarrow> bool" where
  "pc_useful mo =
     (case mo of
        None \<Rightarrow> False
      | Some m \<Rightarrow>
          if Truncated m then False else Rcode m = RcodeSuccess \<or> Rcode m = RcodeNameError)"

definition isTimeout :: "goerr option \<Rightarrow> bool" where
  "isTimeout eo = (case eo of None \<Rightarrow> False | Some e \<Rightarrow> errors_as_net e = Some True)"

text \<open>A probe, given what \<open>ExchangeContext\<close> returned and how long it took.\<close>

definition probe :: "msg option \<times> goerr option \<Rightarrow> int \<Rightarrow> peer_leg \<times> pc_count list" where
  "probe out elapsed =
     (case out of (m, err) \<Rightarrow>
        let sent = [ProbesCount ''sent'', ProbeDuration ''sent'' elapsed];
            none = \<lparr>pl_source = sourcePeer, pl_msg = None, pl_rcode = 0, pl_err = None\<rparr>;
            is = (\<lambda>t. case err of None \<Rightarrow> False | Some e \<Rightarrow> errors_is e t)
        in if is Canceled then (none, sent)
           else if is DeadlineExceeded \<or> isTimeout err then (none, sent @ [ProbeFailures ''timeout''])
           else if err \<noteq> None then (none, sent @ [ProbeFailures ''error''])
           else (none\<lparr>pl_msg := m\<rparr>, sent))"

text \<open>
  The upstream leg: the chain returns a code and an error, and the messages it wrote went
  to a detached writer.
\<close>

definition upstream_leg :: "live_writer \<Rightarrow> int \<times> goerr option \<times> msg list \<Rightarrow> peer_leg" where
  "upstream_leg w out =
     (case out of (rcode, err, ms) \<Rightarrow>
        \<lparr>pl_source = sourceUpstream, pl_msg = dw_Msg (detached_write_all (detached_New w) ms),
         pl_rcode = rcode, pl_err = err\<rparr>)"

subsection \<open>The race\<close>

definition pc_reply ::
  "set_rcode \<Rightarrow> live_writer \<Rightarrow> msg \<Rightarrow> ptr \<Rightarrow> goerr option \<Rightarrow> 'c store \<Rightarrow> served \<times> 'c store" where
  "pc_reply sr w r p err s =
     (let m = h_cell (s_heap s) p;
          s' = s\<lparr>s_heap := h_write (s_heap s) p (sr m r (Rcode m))\<rparr>;
          m' = h_cell (s_heap s') p
      in case lw_write w m' of
           Some werr \<Rightarrow> (\<lparr>sv_rcode = RcodeServerFailure, sv_err = Some werr, sv_written = []\<rparr>, s')
         | None \<Rightarrow> (\<lparr>sv_rcode = RcodeSuccess, sv_err = err, sv_written = [m']\<rparr>, s'))"

text \<open>A query in progress: the arguments that do not change during the race.\<close>

record 'c query =
  qy_env :: "'c store_env"
  qy_w :: live_writer
  qy_state :: request
  qy_time :: int
  qy_now :: int

definition race_body :: "'c query \<Rightarrow> peer_leg option \<Rightarrow> peer_leg \<Rightarrow> (peer_leg option, 'c pc_effect) turn" where
  "race_body q upstream res =
     (let upstream' = (if pl_source res = sourceUpstream then Some res else upstream)
      in if \<not> pc_useful (pl_msg res) then Continue upstream'
         else case pl_msg res of
                None \<Rightarrow> Continue upstream'
              | Some m \<Rightarrow> Return (\<lambda>s.
                  case h_alloc (s_heap s) m of (p, h) \<Rightarrow>
                    let s1 = put (qy_env q) (qy_time q) (qy_now q) (qy_state q) (Some p) (s\<lparr>s_heap := h\<rparr>)
                    in case pc_reply (setRcode (qy_env q)) (qy_w q) (req_Req (qy_state q)) p (pl_err res) s1 of
                         (sv, s2) \<Rightarrow> (sv, [PcWins (pl_source res)], s2)))"

definition no_leg :: goerr where
  "no_leg = mk_err (Other ''no leg produced an answer'')"

definition race_after :: "'c query \<Rightarrow> peer_leg option \<Rightarrow> 'c pc_effect" where
  "race_after q upstream =
     (case upstream of
        None \<Rightarrow> (\<lambda>s.
          (\<lparr>sv_rcode = RcodeServerFailure, sv_err = Some (plugin_error ''peercache'' no_leg), sv_written = []\<rparr>, [], s))
      | Some u \<Rightarrow>
          (case pl_msg u of
             None \<Rightarrow> (\<lambda>s. (\<lparr>sv_rcode = pl_rcode u, sv_err = pl_err u, sv_written = []\<rparr>, [], s))
           | Some m \<Rightarrow> (\<lambda>s.
               case h_alloc (s_heap s) m of (p, h) \<Rightarrow>
                 case pc_reply (setRcode (qy_env q)) (qy_w q) (req_Req (qy_state q)) p (pl_err u) (s\<lparr>s_heap := h\<rparr>) of
                   (sv, s') \<Rightarrow> (sv, [], s'))))"

definition race_cancelled :: "goerr \<Rightarrow> 'c pc_effect" where
  "race_cancelled cerr =
     (\<lambda>s. (\<lparr>sv_rcode = RcodeServerFailure, sv_err = Some cerr, sv_written = []\<rparr>, [], s))"

definition race :: "'c query \<Rightarrow> goerr \<Rightarrow> string list \<Rightarrow> peer_leg option list \<Rightarrow> 'c pc_effect option" where
  "race q cerr ps evs =
     collect (race_body q) (race_after q) (race_cancelled cerr) (length ps + 1) None evs"

text \<open>
  The handler. Without siblings the chain runs on the live writer behind a recorder:
  \<open>direct\<close> is what it returned and wrote, and the recorder's message.
\<close>

definition pc_ServeDNS ::
  "PeerCache \<Rightarrow> 'c query \<Rightarrow> goerr \<Rightarrow> served \<times> msg option \<Rightarrow> peer_leg option list \<Rightarrow> 'c pc_effect option" where
  "pc_ServeDNS p q cerr direct evs =
     (let ps = peerList p
      in if length ps = 0
         then (case direct of (sv, rec) \<Rightarrow> Some (\<lambda>s.
                 case rec of
                   None \<Rightarrow> (sv, [], s)
                 | Some m \<Rightarrow>
                     (case h_alloc (s_heap s) m of (cell, h) \<Rightarrow>
                        (sv, [], put (qy_env q) (qy_time q) (qy_now q) (qy_state q) (Some cell) (s\<lparr>s_heap := h\<rparr>)))))
         else race q cerr ps evs)"

text \<open>
  The race with its goroutines running: leg \<open>i\<close> probes sibling \<open>i\<close>, and the last leg is
  the upstream. \<open>answers i\<close> and \<open>chain\<close> say what the outside world may do.
\<close>

definition peer_outcome ::
  "(nat \<Rightarrow> msg option \<times> goerr option \<Rightarrow> bool) \<Rightarrow> (int \<times> goerr option \<times> msg list \<Rightarrow> bool) \<Rightarrow> live_writer \<Rightarrow>
   string list \<Rightarrow> nat \<Rightarrow> peer_leg \<Rightarrow> bool" where
  "peer_outcome answers chain w ps i res \<longleftrightarrow>
     (if i < length ps then \<exists>out elapsed. answers i out \<and> res = fst (probe out elapsed)
      else \<exists>out. chain out \<and> res = upstream_leg w out)"

definition race_init :: "string list \<Rightarrow> (peer_leg, peer_leg option, 'c pc_effect) legs \<Rightarrow> bool" where
  "race_init ps = lr_init (length ps + 1) None"

definition race_step ::
  "'c query \<Rightarrow> goerr \<Rightarrow> string list \<Rightarrow> (nat \<Rightarrow> msg option \<times> goerr option \<Rightarrow> bool) \<Rightarrow>
   (int \<times> goerr option \<times> msg list \<Rightarrow> bool) \<Rightarrow> (peer_leg, peer_leg option, 'c pc_effect) legs \<Rightarrow>
   (peer_leg, peer_leg option, 'c pc_effect) legs \<Rightarrow> bool" where
  "race_step q cerr ps answers chain =
     lr_step (race_body q) (race_after q) (race_cancelled cerr) (peer_outcome answers chain (qy_w q) ps) (length ps + 1)"

lemmas peercache_defs [go_eval] =
  peerList_def pc_useful_def isTimeout_def probe_def upstream_leg_def pc_reply_def race_body_def
  race_after_def race_cancelled_def race_def pc_ServeDNS_def sourcePeer_def sourceUpstream_def no_leg_def

subsection \<open>The contest\<close>

definition keep_upstream :: "peer_leg option \<Rightarrow> peer_leg \<Rightarrow> peer_leg option" where
  "keep_upstream u res = (if pl_source res = sourceUpstream then Some res else u)"

definition race_won :: "'c query \<Rightarrow> peer_leg \<Rightarrow> 'c pc_effect" where
  "race_won q res = (case race_body q None res of Return x \<Rightarrow> x | Continue _ \<Rightarrow> race_cancelled [])"

lemma pc_useful_Some: "pc_useful mo \<Longrightarrow> \<exists>m. mo = Some m"
  by (auto simp: pc_useful_def split: option.splits)

interpretation peer_contest: first_useful "race_body q" "\<lambda>res. pc_useful (pl_msg res)" keep_upstream "race_won q"
  for q :: "'c query"
proof
  fix res u
  show "race_body q u res = Return (race_won q res)" if "pc_useful (pl_msg res)"
    using pc_useful_Some [OF that] that by (auto simp: race_body_def race_won_def Let_def)
  show "race_body q u res = Continue (keep_upstream u res)" if "\<not> pc_useful (pl_msg res)"
    using that by (simp add: race_body_def keep_upstream_def)
qed

text \<open>What the winner of a race was: a useful message. Readdressing and ageing keep it useful.\<close>

lemma race_body_Return_useful: "race_body q u res = Return x \<Longrightarrow> pc_useful (pl_msg res)"
  by (auto simp: race_body_def Let_def split: if_splits)

lemma rebased_useful: "rebased m r t m' \<Longrightarrow> pc_useful (Some m) \<Longrightarrow> pc_useful (Some m')"
  by (auto simp: rebased_def pc_useful_def)

lemma keep_upstream_foldl:
  "foldl keep_upstream u rs =
     (case rev (filter (\<lambda>x. pl_source x = sourceUpstream) rs) of [] \<Rightarrow> u | x # _ \<Rightarrow> Some x)"
  by (induction rs rule: rev_induct) (simp_all add: keep_upstream_def)

lemma probe_source [simp]: "pl_source (fst (probe out elapsed)) = sourcePeer" "pl_err (fst (probe out elapsed)) = None"
  by (auto simp: probe_def Let_def split: prod.splits)

lemma sources_differ [simp]: "sourcePeer \<noteq> sourceUpstream" "sourceUpstream \<noteq> sourcePeer"
  by (simp_all add: sourcePeer_def sourceUpstream_def)

text \<open>
  A sibling's probe contributes a message only when the exchange succeeded; a failed
  one contributes nothing, is counted once as a timeout or an error, and is not counted
  at all when the context was cancelled.
\<close>

lemma probe_outcome:
  "fst (probe (m, err) elapsed) =
     \<lparr>pl_source = sourcePeer, pl_msg = (if err = None then m else None), pl_rcode = 0, pl_err = None\<rparr> \<and>
   snd (probe (m, err) elapsed) = [ProbesCount ''sent'', ProbeDuration ''sent'' elapsed] @
     (case err of
        None \<Rightarrow> []
      | Some e \<Rightarrow>
          if errors_is e Canceled then []
          else if errors_is e DeadlineExceeded \<or> errors_as_net e = Some True then [ProbeFailures ''timeout'']
          else [ProbeFailures ''error''])"
  by (simp add: probe_def Let_def isTimeout_def split: option.splits)

subsection \<open>The legs running\<close>

lemma race_run_invar:
  "reach (race_init ps) (race_step q cerr ps answers chain) s \<Longrightarrow>
   lr_invar (race_body q) (race_after q) (race_cancelled cerr)
     (peer_outcome answers chain (qy_w q) ps) (length ps + 1) None s"
  unfolding race_init_def race_step_def by (rule race_legs.reachable_invar)

lemma peer_outcome_source:
  "peer_outcome answers chain w ps i res \<Longrightarrow> pl_source res = sourceUpstream \<longleftrightarrow> \<not> i < length ps"
  by (auto simp: peer_outcome_def upstream_leg_def split: if_splits prod.splits)

text \<open>When every leg has reported, the upstream leg is the one that was kept.\<close>

lemma upstream_kept:
  assumes "distinct (map fst l)" "list_all (\<lambda>(i, r). i < length ps + 1 \<and> peer_outcome answers chain w ps i r) l"
    and "length ps + 1 \<le> length l"
  obtains out where "chain out" "foldl keep_upstream None (map snd l) = Some (upstream_leg w out)"
proof -
  obtain res where r: "(length ps, res) \<in> set l" "peer_outcome answers chain w ps (length ps) res"
    using all_taken [OF assms, of "length ps"] by auto
  obtain out where out: "chain out" "res = upstream_leg w out" using r(2) by (auto simp: peer_outcome_def)
  let ?us = "filter (\<lambda>x. pl_source x = sourceUpstream) (map snd l)"
  have "x = res" if x: "x \<in> set ?us" for x
  proof -
    obtain i where i: "(i, x) \<in> set l" "pl_source x = sourceUpstream" using x by auto
    then have "i = length ps" using assms(2) peer_outcome_source by (fastforce simp: list_all_iff)
    then show "x = res" using i(1) r(1) assms(1) by (metis eq_key_imp_eq_value)
  qed
  moreover have "res \<in> set ?us" using r peer_outcome_source by force
  ultimately obtain y ys where "rev ?us = y # ys" "y = res"
    by (metis list.exhaust list.set_intros(1) list.set(1) empty_iff set_rev)
  then show thesis using that out by (simp add: keep_upstream_foldl)
qed

lemma race_out_cases:
  assumes inv: "lr_invar (race_body q) (race_after q) (race_cancelled cerr)
      (peer_outcome answers chain (qy_w q) ps) (length ps + 1) None s"
    and x: "lr_out s = Some x"
  obtains (won) i res where "i \<le> length ps" "peer_outcome answers chain (qy_w q) ps i res"
      "pc_useful (pl_msg res)" "race_body q None res = Return x"
  | (lost) out where "chain out" "x = race_after q (Some (upstream_leg (qy_w q) out))"
  | (stopped) "lr_ctx s" "x = race_cancelled cerr"
proof -
  obtain evs where c: "collect (race_body q) (race_after q) (race_cancelled cerr) (length ps + 1) None evs = Some x"
    and d: "distinct (map fst (lr_taken s))"
    and l: "list_all (\<lambda>(i, r). i < length ps + 1 \<and> peer_outcome answers chain (qy_w q) ps i r) (lr_taken s)"
    and evs: "evs = map (Some \<circ> snd) (lr_taken s) \<or> lr_ctx s \<and> evs = map (Some \<circ> snd) (lr_taken s) @ [None]"
    by (rule lr_out_collect [OF inv x])
  from c show thesis
  proof (cases rule: peer_contest.collect_cases)
    case (won rs res rest)
    have "Some res \<in> set evs" using won(1) by simp
    then obtain i where "(i, res) \<in> set (lr_taken s)" using evs by auto
    then have "i \<le> length ps" "peer_outcome answers chain (qy_w q) ps i res" using l by (auto simp: list_all_iff)
    then show thesis using that(1) won peer_contest.body_useful [OF won(3)] by blast
  next
    case (lost rs rest)
    define k where "k = length rs"
    from taken_prefix [OF lost(1) evs] lost(3)
    have k: "length ps + 1 \<le> length (take k (lr_taken s))" "map snd (take k (lr_taken s)) = rs"
      by (simp_all add: k_def take_map)
    have "distinct (map fst (take k (lr_taken s)))" using d by (simp flip: take_map)
    moreover have "list_all (\<lambda>(i, r). i < length ps + 1 \<and> peer_outcome answers chain (qy_w q) ps i r) (take k (lr_taken s))"
      using l by (auto simp: list_all_iff dest: in_set_takeD)
    ultimately obtain out where "chain out" "foldl keep_upstream None (map snd (take k (lr_taken s))) = Some (upstream_leg (qy_w q) out)"
      by (rule upstream_kept [OF _ _ k(1)])
    then show thesis using lost(4) that(2) unfolding k(2) by simp
  next
    case (stopped rs rest)
    have "None \<in> set evs" using stopped(1) by simp
    then show thesis using evs stopped(4) that(3) by auto
  qed
qed

text \<open>
  C12: in every run of the race no leg ever waits for room in the channel, every run is
  finite, and the outcome is one of three: the answer of the first leg that delivered a
  useful one; when all legs have reported and none was useful, exactly what the upstream
  produced, never the internal error for a race without answers; or, only if the context
  is done, its error.
\<close>

theorem race_run_outcome:
  assumes "reach (race_init ps) (race_step q cerr ps answers chain) s"
  shows "\<not> (\<exists>i res. i < length ps + 1 \<and> lr_legs s ! i = Computed res \<and> length ps + 1 \<le> length (lr_chan s)) \<and>
     wfp (\<lambda>t s. race_step q cerr ps answers chain s t) \<and>
     (\<forall>x. lr_out s = Some x \<longrightarrow>
        (\<exists>i res. i \<le> length ps \<and> peer_outcome answers chain (qy_w q) ps i res \<and> pc_useful (pl_msg res) \<and>
           race_body q None res = Return x) \<or>
        (\<exists>out. chain out \<and> x = race_after q (Some (upstream_leg (qy_w q) out))) \<or>
        lr_ctx s \<and> x = race_cancelled cerr)"
proof -
  note inv = race_run_invar [OF assms]
  have so: "sent_ok (peer_outcome answers chain (qy_w q) ps) (length ps + 1) s" using inv by (simp add: lr_invar_def)
  have "\<not> (\<exists>i res. i < length ps + 1 \<and> lr_legs s ! i = Computed res \<and> length ps + 1 \<le> length (lr_chan s))"
    using leg_never_blocked [OF so] by (meson not_less)
  moreover have "wfp (\<lambda>t s. race_step q cerr ps answers chain s t)"
    unfolding race_step_def by (rule lr_step_terminates)
  moreover have "(\<exists>i res. i \<le> length ps \<and> peer_outcome answers chain (qy_w q) ps i res \<and> pc_useful (pl_msg res) \<and>
           race_body q None res = Return x) \<or>
        (\<exists>out. chain out \<and> x = race_after q (Some (upstream_leg (qy_w q) out))) \<or>
        lr_ctx s \<and> x = race_cancelled cerr" if "lr_out s = Some x" for x
    by (rule race_out_cases [OF inv that]) blast+
  ultimately show ?thesis by blast
qed

subsection \<open>What the client sees\<close>

text \<open>
  The upstream's outcome as the client would see it through the readdressing reply.
\<close>

definition client_view :: "set_rcode \<Rightarrow> live_writer \<Rightarrow> msg \<Rightarrow> int \<times> goerr option \<times> msg list \<Rightarrow> served" where
  "client_view sr w r out =
     (case out of (rcode, err, ms) \<Rightarrow>
        if ms = [] then \<lparr>sv_rcode = rcode, sv_err = err, sv_written = []\<rparr>
        else let m = sr (last ms) r (Rcode (last ms))
             in case lw_write w m of
                  None \<Rightarrow> \<lparr>sv_rcode = RcodeSuccess, sv_err = err, sv_written = [m]\<rparr>
                | Some e \<Rightarrow> \<lparr>sv_rcode = RcodeServerFailure, sv_err = Some e, sv_written = []\<rparr>)"

lemma put_keeps_cells:
  "q < h_next (s_heap s) \<Longrightarrow> h_cell (s_heap (put E t now rq (Some p) s)) q = h_cell (s_heap s) q"
  by (auto simp: put_def Let_def heap_defs split: option.splits)

lemma race_body_served:
  assumes "race_body q u res = Return x" "pl_msg res = Some m"
  shows "fst (x s) =
    (let m' = setRcode (qy_env q) m (req_Req (qy_state q)) (Rcode m)
     in case lw_write (qy_w q) m' of
          None \<Rightarrow> \<lparr>sv_rcode = RcodeSuccess, sv_err = pl_err res, sv_written = [m']\<rparr>
        | Some e \<Rightarrow> \<lparr>sv_rcode = RcodeServerFailure, sv_err = Some e, sv_written = []\<rparr>)"
proof -
  let ?s = "s\<lparr>s_heap := snd (h_alloc (s_heap s) m)\<rparr>" and ?p = "h_next (s_heap s)"
  let ?s1 = "put (qy_env q) (qy_time q) (qy_now q) (qy_state q) (Some ?p) ?s"
  have "h_cell (s_heap ?s1) ?p = m" by (simp add: put_keeps_cells heap_defs)
  moreover have "x = (\<lambda>s. case h_alloc (s_heap s) m of (p, h) \<Rightarrow>
      let s1 = put (qy_env q) (qy_time q) (qy_now q) (qy_state q) (Some p) (s\<lparr>s_heap := h\<rparr>)
      in case pc_reply (setRcode (qy_env q)) (qy_w q) (req_Req (qy_state q)) p (pl_err res) s1 of
           (sv, s2) \<Rightarrow> (sv, [PcWins (pl_source res)], s2))"
    using assms by (auto simp: race_body_def Let_def split: if_splits)
  ultimately show ?thesis
    by (simp add: h_alloc_def pc_reply_def h_write_def Let_def split: option.splits)
qed

text \<open>
  C20: siblings that are down change nothing for the client. When no probe succeeds and the
  context is not done, the handler's result and what is written to the client are
  the upstream's own outcome, readdressed.
\<close>

theorem dead_siblings_transparent:
  assumes "reach (race_init ps) (race_step q cerr ps answers chain) s" "lr_out s = Some x" "\<not> lr_ctx s"
    and dead: "\<And>i out. answers i out \<Longrightarrow> snd out \<noteq> None"
  shows "\<exists>out. chain out \<and>
    fst (x st) = client_view (setRcode (qy_env q)) (qy_w q) (req_Req (qy_state q)) out"
  using race_run_invar [OF assms(1)] assms(2)
proof (cases rule: race_out_cases)
  case (won i res)
  have "\<not> i < length ps"
  proof
    assume "i < length ps"
    then obtain out elapsed where "answers i out" "res = fst (probe out elapsed)"
      using won(2) by (auto simp: peer_outcome_def)
    then have "pl_msg res = None" using dead [of i out] probe_outcome [of "fst out" "snd out" elapsed] by auto
    then show False using won(3) by (simp add: pc_useful_def)
  qed
  then obtain rcode err ms where out: "chain (rcode, err, ms)" "res = upstream_leg (qy_w q) (rcode, err, ms)"
    using won(2) by (auto simp: peer_outcome_def)
  then have "ms \<noteq> []" "pl_msg res = Some (last ms)"
    using won(3) by (auto simp: upstream_leg_def detached_New_def pc_useful_def split: if_splits)
  moreover have "pl_err res = err" using out(2) by (simp add: upstream_leg_def)
  ultimately show ?thesis
    using out(1) race_body_served [OF won(4), of "last ms" st]
    by (intro exI [of _ "(rcode, err, ms)"]) (simp add: client_view_def Let_def split: option.splits)
next
  case (lost out)
  then show ?thesis
    by (intro exI [of _ out])
      (auto simp: race_after_def upstream_leg_def client_view_def detached_New_def pc_reply_def heap_defs Let_def
        split: prod.splits option.splits)
next
  case stopped
  then show ?thesis using assms(3) by simp
qed

text \<open>
  When the rest of the chain always writes one useful message, so does the race, whatever
  the siblings do.
\<close>

lemma race_returned_useful:
  assumes "reach (race_init ps) (race_step q cerr ps answers chain) s" "lr_out s = Some x" "\<not> lr_ctx s"
    and chain: "\<And>out. chain out \<Longrightarrow> \<exists>m. out = (RcodeSuccess, None, [m]) \<and> pc_useful (Some m)"
    and sr: "set_rcode_ok (setRcode (qy_env q))" and wr: "\<And>m. lw_write (qy_w q) m = None"
  obtains m where "fst (x st) = \<lparr>sv_rcode = RcodeSuccess, sv_err = None, sv_written = [m]\<rparr>"
    "pc_useful (Some m)" "msg_id m = msg_id (req_Req (qy_state q))" "Question m = take 1 (Question (req_Req (qy_state q)))"
proof -
  let ?sr = "setRcode (qy_env q)" and ?r = "req_Req (qy_state q)"
  obtain m where m: "pc_useful (Some m)" "fst (x st) = \<lparr>sv_rcode = RcodeSuccess, sv_err = None, sv_written = [?sr m ?r (Rcode m)]\<rparr>"
    using race_run_invar [OF assms(1)] assms(2)
  proof (cases rule: race_out_cases)
    case (won i res)
    obtain m where pm: "pl_msg res = Some m" using pc_useful_Some [OF won(3)] by blast
    have "pl_err res = None"
    proof (cases "i < length ps")
      case True
      then show ?thesis using won(2) by (auto simp: peer_outcome_def)
    next
      case False
      then obtain out where "chain out" "res = upstream_leg (qy_w q) out" using won(2) by (auto simp: peer_outcome_def)
      moreover from chain [OF this(1)] obtain m' where "out = (RcodeSuccess, None, [m'])" by blast
      ultimately show ?thesis by (simp add: upstream_leg_def)
    qed
    then show ?thesis using that [of m] race_body_served [OF won(4) pm, of st] won(3) pm wr by (simp add: Let_def)
  next
    case (lost out)
    obtain m where "out = (RcodeSuccess, None, [m])" "pc_useful (Some m)" using chain [OF lost(1)] by blast
    then show ?thesis using that [of m] lost(2) wr
      by (simp add: race_after_def upstream_leg_def detached_New_def pc_reply_def heap_defs Let_def)
  qed (use assms(3) in simp)
  moreover have "pc_useful (Some (?sr m ?r (Rcode m)))"
    using m(1) set_rcode_okD [OF sr] by (simp add: pc_useful_def split: if_splits)
  ultimately show thesis using that set_rcode_okD [OF sr] by metis
qed

text \<open>A race whose legs can all end returns.\<close>

lemma race_final_returned:
  assumes "reach (race_init ps) (race_step q cerr ps answers chain) s"
    and "lr_final (race_body q) (race_after q) (race_cancelled cerr) (peer_outcome answers chain (qy_w q) ps) (length ps + 1) s"
    and "\<And>i. i < length ps \<Longrightarrow> \<exists>out. answers i out" "\<exists>out. chain out"
  shows "\<exists>x. lr_out s = Some x"
proof -
  have "\<exists>res. peer_outcome answers chain (qy_w q) ps i res" for i
    using assms(3) [of i] assms(4) by (cases "i < length ps") (simp_all add: peer_outcome_def, blast+)
  from lr_final_legs(2) [OF race_run_invar [OF assms(1)] assms(2) this] show ?thesis by auto
qed

text \<open>
  What the store gives for a winning answer, after its cell was rewritten for the client.
\<close>

lemma winner_stored:
  assumes "cache_ok (ops (qy_env q))" "set_rcode_ok (setRcode (qy_env q))"
    and m: "pl_msg res = Some m" "race_body q u res = Return x"
    and acc: "put_accepts (qy_env q) (qy_time q) (qy_state q) m" and wr: "\<And>m. lw_write (qy_w q) m = None"
    and rq: "\<not> req_Do rq" "\<not> CheckingDisabled (req_Req rq)" "key (qy_env q) rq = key (qy_env q) (qy_state q)"
    and now: "qy_now q \<le> now"
      "minServeTTL \<le> uint (Min (set (lifetimes m))) * second - (now - qy_now q)"
  obtains p ttl where "fst (get (qy_env q) now rq (snd (snd (x s)))) = Some p"
    "rebased m (req_Req rq) ttl (h_cell (s_heap (snd (get (qy_env q) now rq (snd (snd (x s)))))) p)"
    "(uint (Min (set (lifetimes m))) * second - (now - qy_now q)) div second \<le> uint ttl"
    "uint ttl * second < uint (Min (set (lifetimes m))) * second - (now - qy_now q) + second"
proof -
  let ?sr = "setRcode (qy_env q)" and ?r = "req_Req (qy_state q)" and ?p = "h_next (s_heap s)"
  define s0 where "s0 = s\<lparr>s_heap := snd (h_alloc (s_heap s) m)\<rparr>"
  define s1 where "s1 = put (qy_env q) (qy_time q) (qy_now q) (qy_state q) (Some ?p) s0"
  define h where "h = h_write (s_heap s1) ?p (?sr (h_cell (s_heap s1) ?p) ?r (Rcode (h_cell (s_heap s1) ?p)))"
  have x: "snd (snd (x s)) = s1\<lparr>s_heap := h\<rparr>"
    using m wr unfolding s1_def s0_def h_def
    by (auto simp: race_body_def Let_def h_alloc_def pc_reply_def split: if_splits)
  have cell: "h_cell (s_heap s0) ?p = m" "h_next (s_heap s0) = Suc ?p" by (simp_all add: s0_def heap_defs)
  have acc': "put_accepts (qy_env q) (qy_time q) (qy_state q) (h_cell (s_heap s0) ?p)" using acc cell by simp
  obtain ttl where st: "storable (qy_env q) (qy_time q) (qy_state q) (Some (h_cell (s_heap s0) ?p))"
    "minTTL (h_cell (s_heap s0) ?p) = Some ttl" "minServeTTL \<le> uint ttl * second"
    using acc' by (auto simp: put_accepts_def)
  have hh: "h_next (s_heap s0) < h_next h" "h_cell h (h_next (s_heap s0)) = h_cell (s_heap s0) ?p"
    using cell by (simp_all add: h_def s1_def put_stored [OF st] Let_def heap_defs)
  have "\<not> uint (Min (set (lifetimes m))) * second - (now - qy_now q) < minServeTTL" using now(2) by simp
  with put_get_remaining [OF assms(1,2) acc' now(1) rq hh refl] cell(1)
  show thesis using that unfolding x s1_def [symmetric] by (auto simp: Let_def)
qed

text \<open>
  C14: the answer that wins is held for the siblings as it was received. The client gets it
  once, under the client's identifier and question and with its own TTLs; rewriting that
  message for the client does not reach the store, and a later lookup under the same key
  gives the received records with what is left of their lifetime.
\<close>

theorem winner_is_shared:
  assumes "cache_ok (ops (qy_env q))" "set_rcode_ok (setRcode (qy_env q))"
    and m: "pl_msg res = Some m" "race_body q u res = Return x"
    and acc: "put_accepts (qy_env q) (qy_time q) (qy_state q) m" and wr: "\<And>m. lw_write (qy_w q) m = None"
    and rq: "\<not> req_Do rq" "\<not> CheckingDisabled (req_Req rq)" "key (qy_env q) rq = key (qy_env q) (qy_state q)"
    and now: "qy_now q \<le> now"
      "minServeTTL \<le> uint (Min (set (lifetimes m))) * second - (now - qy_now q)"
  shows "\<exists>m' p ttl. fst (x s) = \<lparr>sv_rcode = RcodeSuccess, sv_err = pl_err res, sv_written = [m']\<rparr> \<and>
     msg_id m' = msg_id (req_Req (qy_state q)) \<and> Question m' = take 1 (Question (req_Req (qy_state q))) \<and>
     Rcode m' = Rcode m \<and> Answer m' = Answer m \<and> Ns m' = Ns m \<and> Extra m' = Extra m \<and>
     (let r = get (qy_env q) now rq (snd (snd (x s)))
      in fst r = Some p \<and> rebased m (req_Req rq) ttl (h_cell (s_heap (snd r)) p) \<and>
         uint ttl * second < uint (Min (set (lifetimes m))) * second - (now - qy_now q) + second)"
proof -
  let ?sr = "setRcode (qy_env q)" and ?r = "req_Req (qy_state q)"
  obtain p t where "fst (get (qy_env q) now rq (snd (snd (x s)))) = Some p"
    "rebased m (req_Req rq) t (h_cell (s_heap (snd (get (qy_env q) now rq (snd (snd (x s)))))) p)"
    "uint t * second < uint (Min (set (lifetimes m))) * second - (now - qy_now q) + second"
    by (rule winner_stored [OF assms])
  moreover have "fst (x s) = \<lparr>sv_rcode = RcodeSuccess, sv_err = pl_err res, sv_written = [?sr m ?r (Rcode m)]\<rparr>"
    using race_body_served [OF m(2,1)] wr by (simp add: Let_def)
  ultimately show ?thesis
    using set_rcode_okD [OF assms(2), of m ?r] unfolding Let_def by blast
qed

text \<open>A query for \<open>a.\<close> answered by one sibling.\<close>

definition sample_q :: "(64 word \<rightharpoonup> entry) query" where
  "sample_q =
     \<lparr>qy_env = sample_store_env, qy_w = \<lparr>lw_local = ''l'', lw_remote = ''r'', lw_write = (\<lambda>_. None)\<rparr>,
      qy_state = sample_query ''a.'', qy_time = 0, qy_now = 0\<rparr>"

definition sample_peer_leg :: peer_leg where
  "sample_peer_leg = \<lparr>pl_source = sourcePeer, pl_msg = Some sample_answer, pl_rcode = 0, pl_err = None\<rparr>"

definition sample_won :: "(64 word \<rightharpoonup> entry) pc_effect" where
  "sample_won = race_won sample_q sample_peer_leg"

lemma sample_peer_useful: "pc_useful (pl_msg sample_peer_leg)"
  by (simp add: sample_peer_leg_def pc_useful_def sample_answer_def new_msg_def RcodeSuccess_def)

lemma sample_body: "race_body sample_q u sample_peer_leg = Return sample_won"
  unfolding sample_won_def using sample_peer_useful by (rule peer_contest.body_useful)

theorem winner_is_shared_witness:
  "\<exists>p ttl. let r = get sample_store_env (10 * second) (sample_query ''a.'') (snd (snd (sample_won (sy_store sample_sys))))
     in fst r = Some p \<and> rebased sample_answer (req_Req (sample_query ''a.'')) ttl (h_cell (s_heap (snd r)) p) \<and>
        uint ttl < 291"
proof -
  have "Min (set (lifetimes sample_answer)) = 300" by (simp add: sample_answer_def lifetimes_def TypeOPT_def new_msg_def)
  moreover have "pl_msg sample_peer_leg = Some sample_answer" by (simp add: sample_peer_leg_def)
  moreover have "qy_env sample_q = sample_store_env" "qy_state sample_q = sample_query ''a.''" "qy_now sample_q = 0"
    "qy_time sample_q = 0" "\<And>m. lw_write (qy_w sample_q) m = None"
    by (simp_all add: sample_q_def)
  moreover have "\<not> req_Do (sample_query ''a.'')" "\<not> CheckingDisabled (req_Req (sample_query ''a.''))"
    by (simp_all add: sample_query_def new_msg_def)
  ultimately show ?thesis
    using winner_is_shared [of sample_q sample_peer_leg sample_answer None sample_won "sample_query ''a.''" "10 * second" "sy_store sample_sys"]
      sample_ok sample_body [of None] sample_accepts [of 0 "''a.''"]
    by (auto simp: Let_def second_def minServeTTL_def)
qed

text \<open>A run with one sibling that is down: the upstream leg wins.\<close>

abbreviation sample_up :: peer_leg where
  "sample_up \<equiv> upstream_leg (qy_w sample_q) (0, None, [sample_answer])"

definition sample_peer_legs :: "nat \<Rightarrow> (peer_leg, peer_leg option, (64 word \<rightharpoonup> entry) pc_effect) legs" where
  "sample_peer_legs k =
     \<lparr>lr_legs = [Working, if k = 0 then Working else if k = 1 then Computed sample_up else Sent],
      lr_chan = (if k = 2 then [(1, sample_up)] else []), lr_taken = (if k = 3 then [(1, sample_up)] else []),
      lr_acc = None, lr_out = (if k = 3 then Some (race_won sample_q sample_up) else None), lr_ctx = False\<rparr>"

abbreviation sample_race_step where
  "sample_race_step \<equiv> race_step sample_q [] [''10.0.0.2:5300'']
     (\<lambda>_ out. out = (None, Some (mk_err DeadlineExceeded))) (\<lambda>out. out = (0, None, [sample_answer]))"

lemma sample_up_useful: "pc_useful (pl_msg sample_up)"
  by (simp add: pc_useful_def upstream_leg_def sample_answer_def new_msg_def RcodeSuccess_def)

lemma sample_race_run: "reach (race_init [''10.0.0.2:5300'']) sample_race_step (sample_peer_legs 3)"
proof (rule reach_step, rule reach_step, rule reach_step)
  show "reach (race_init [''10.0.0.2:5300'']) sample_race_step (sample_peer_legs 0)"
    by (rule reach_init) (simp add: race_init_def lr_init_def sample_peer_legs_def)
  have "peer_outcome (\<lambda>_ out. out = (None, Some (mk_err DeadlineExceeded))) (\<lambda>out. out = (0, None, [sample_answer]))
      (qy_w sample_q) [''10.0.0.2:5300''] 1 sample_up"
    by (simp add: peer_outcome_def)
  then show "sample_race_step (sample_peer_legs 0) (sample_peer_legs 1)"
    unfolding race_step_def lr_step_simps
    by (intro disjI1 exI [of _ 1] exI [of _ sample_up]) (simp add: sample_peer_legs_def)
  show "sample_race_step (sample_peer_legs 1) (sample_peer_legs 2)"
    unfolding race_step_def lr_step_simps
    by (intro disjI2 [OF disjI1] exI [of _ 1] exI [of _ sample_up]) (simp add: sample_peer_legs_def)
  have "race_body sample_q a sample_up = Return (race_won sample_q sample_up)" for a
    using sample_up_useful by (rule peer_contest.body_useful)
  then show "sample_race_step (sample_peer_legs 2) (sample_peer_legs 3)"
    unfolding race_step_def lr_step_simps by (simp add: sample_peer_legs_def)
qed

lemma sample_peer_legs_3:
  "lr_out (sample_peer_legs 3) = Some (race_won sample_q sample_up)" "\<not> lr_ctx (sample_peer_legs 3)"
  by (simp_all add: sample_peer_legs_def)

theorem race_run_outcome_witness:
  "lr_out (sample_peer_legs 3) = Some (race_won sample_q sample_up) \<and> wfp (\<lambda>t s. sample_race_step s t)"
  using race_run_outcome [OF sample_race_run] sample_peer_legs_3 by blast

theorem dead_siblings_transparent_witness:
  "fst (race_won sample_q sample_up (sy_store sample_sys)) =
     client_view set_rcode0 (qy_w sample_q) (req_Req (sample_query ''a.'')) (0, None, [sample_answer])"
  using dead_siblings_transparent [OF sample_race_run sample_peer_legs_3, of "sy_store sample_sys"]
  by (simp add: sample_q_def sample_store_env_def)

end
