(* ===== verification/Corefile.thy ===== *)
theory Corefile
  imports Homedns_Prelude
begin

text \<open>
  The configuration file as the setup functions of the plugins see it through
  \<open>caddy.Controller\<close>, which is not part of the repository: the occurrences of a
  plugin's directive in a server block, each with the arguments on its line, whether a
  block is opened there, and the lines of the block with their property and arguments.
\<close>

record stanza =
  st_args :: "string list"
  st_braces :: bool
  st_block :: "(string \<times> string list) list"

text \<open>
  What a setup function leaves with the framework: the functions to run at startup and at
  shutdown, each named by its plugin, and the plugins added to the chain, in order. The
  framework hands every added plugin the next one as its \<open>Next\<close>.
\<close>

record controller =
  on_startup :: "string list"
  on_shutdown :: "string list"
  added :: "string list"

definition fresh_controller :: controller where
  "fresh_controller = \<lparr>on_startup = [], on_shutdown = [], added = []\<rparr>"

text \<open>
  The shape all three setup functions share: parse, report the error under the plugin's
  name, or register the callbacks and the handler.
\<close>

definition wire :: "string \<Rightarrow> ('e, 'p) result \<Rightarrow> controller \<Rightarrow> (string \<times> 'e, 'p \<times> controller) result" where
  "wire name parsed c =
     (case parsed of
        Err e \<Rightarrow> Err (name, e)
      | Ok p \<Rightarrow>
          Ok (p, c\<lparr>on_startup := on_startup c @ [name], on_shutdown := on_shutdown c @ [name],
                   added := added c @ [name]\<rparr>))"

lemma wire_Ok:
  "wire name parsed c = Ok (p, c') \<longleftrightarrow>
     parsed = Ok p \<and> c' = c\<lparr>on_startup := on_startup c @ [name], on_shutdown := on_shutdown c @ [name], added := added c @ [name]\<rparr>"
  by (auto simp: wire_def split: sum.splits)

end
