(* ===== verification/Siblings.thy ===== *)
theory Siblings
  imports Peercache Go_Netip Corefile
begin

text \<open>
  The sides of the peercache plugin that face the other replicas: its configuration and
  start (\<open>setup.go\<close>), the discovery of the sibling pods (\<open>discovery.go\<close>) and the listener
  that answers their probes (\<open>listener.go\<close>).

  The cluster's API, the label-selector parser and the Corefile tokenizer are not part of
  the repository: the pods a lister returns, whether a selector parses, and the
  occurrences of a directive with their arguments and block lines are arguments.
\<close>

subsection \<open>Configuration\<close>

datatype config_error =
  ConfiguredTwice | TakesNoArguments | ArgErr | NotASelector string | NotAPort string |
  UnknownProperty string | NeedsSelector

definition defaultPort :: int where "defaultPort = 8053"

fun parse_block ::
  "(string \<Rightarrow> bool) \<Rightarrow> (string \<times> string list) list \<Rightarrow> PeerCache \<Rightarrow> (config_error, PeerCache) result" where
  "parse_block label_ok [] p = Ok p"
| "parse_block label_ok ((name, args) # ls) p =
     (if name = ''selector'' then
        (case args of
           [a] \<Rightarrow> if \<not> label_ok a then Err (NotASelector a)
                   else parse_block label_ok ls (p\<lparr>selector := a\<rparr>)
         | _ \<Rightarrow> Err ArgErr)
      else if name = ''port'' then
        (case args of
           [a] \<Rightarrow> (case atoi a of
                     None \<Rightarrow> Err (NotAPort a)
                   | Some n \<Rightarrow> if n < 1 \<or> n > 65535 then Err (NotAPort a)
                               else parse_block label_ok ls (p\<lparr>port := n\<rparr>))
         | _ \<Rightarrow> Err ArgErr)
      else Err (UnknownProperty name))"

fun parse_stanzas ::
  "(string \<Rightarrow> bool) \<Rightarrow> stanza list \<Rightarrow> bool \<Rightarrow> PeerCache \<Rightarrow> (config_error, PeerCache) result" where
  "parse_stanzas label_ok [] configured p = Ok p"
| "parse_stanzas label_ok (st # sts) configured p =
     (if configured then Err ConfiguredTwice
      else if st_args st \<noteq> [] then Err TakesNoArguments
      else case parse_block label_ok (st_block st) p of
             Err e \<Rightarrow> Err e
           | Ok p' \<Rightarrow> parse_stanzas label_ok sts True p')"

definition pc_parseConfig :: "(string \<Rightarrow> bool) \<Rightarrow> stanza list \<Rightarrow> (config_error, PeerCache) result" where
  "pc_parseConfig label_ok sts =
     (case parse_stanzas label_ok sts False \<lparr>selector = [], port = defaultPort, peers = None\<rparr> of
        Err e \<Rightarrow> Err e
      | Ok p \<Rightarrow> if selector p = [] then Err NeedsSelector else Ok p)"

definition pc_setup ::
  "(string \<Rightarrow> bool) \<Rightarrow> stanza list \<Rightarrow> controller \<Rightarrow> (string \<times> config_error, PeerCache \<times> controller) result" where
  "pc_setup label_ok sts c = wire ''peercache'' (pc_parseConfig label_ok sts) c"

text \<open>\<open>start\<close>: whether the listener and the discovery are launched, given \<open>POD_IP\<close>.\<close>

definition pc_start :: "string \<Rightarrow> bool" where
  "pc_start self = (self \<noteq> [])"

subsection \<open>Discovery\<close>

record pod =
  podIP :: string
  phase :: string
  deletionTimestamp :: bool

text \<open>The loop over the pods; \<open>pt\<close> is the configured port.\<close>

fun republish_loop :: "string \<Rightarrow> int \<Rightarrow> pod list \<Rightarrow> string list \<Rightarrow> string list" where
  "republish_loop self pt [] addrs = addrs"
| "republish_loop self pt (d # ds) addrs =
     (let ip = podIP d
      in if ip = [] \<or> ip = self \<or> phase d \<noteq> ''Running'' \<or> deletionTimestamp d
         then republish_loop self pt ds addrs
         else republish_loop self pt ds (addrs @ [join_host_port ip (itoa (nat pt))]))"

text \<open>A lister's answer is \<open>None\<close> when it fails; \<open>gauge\<close> is the metric of the peer count.\<close>

definition republish :: "pod list option \<Rightarrow> string \<Rightarrow> PeerCache \<times> nat \<Rightarrow> PeerCache \<times> nat" where
  "republish listed self st =
     (case st of (p, gauge) \<Rightarrow>
        case listed of
          None \<Rightarrow> (p, gauge)
        | Some pods \<Rightarrow>
            (let addrs = sort (republish_loop self (port p) pods [])
             in (p\<lparr>peers := Some addrs\<rparr>, length addrs)))"

text \<open>
  \<open>discover\<close>: four steps that may fail and end it (the namespace file, the cluster
  configuration, the client, the event handler), and then one \<open>republish\<close> per event of
  the informer and one when its cache has synced.
\<close>

definition discover ::
  "bool \<Rightarrow> bool \<Rightarrow> bool \<Rightarrow> bool \<Rightarrow> pod list option list \<Rightarrow> string \<Rightarrow> PeerCache \<times> nat \<Rightarrow> PeerCache \<times> nat" where
  "discover ns_ok cfg_ok client_ok handler_ok listings self st =
     (if \<not> ns_ok then st
      else if \<not> cfg_ok then st
      else if \<not> client_ok then st
      else if \<not> handler_ok then st
      else fold (\<lambda>listed st. republish listed self st) listings st)"

subsection \<open>The listener\<close>

definition bindAttempts :: nat where "bindAttempts = 20"

text \<open>
  \<open>bind\<close>: attempt \<open>i\<close> yields a socket or fails, and after a failure the context may be
  done instead of the delay passing. The loop runs from \<open>i\<close> for \<open>n\<close> more attempts.
\<close>

fun bind_loop :: "(nat \<Rightarrow> 'conn option) \<Rightarrow> (nat \<Rightarrow> bool) \<Rightarrow> nat \<Rightarrow> nat \<Rightarrow> 'conn option" where
  "bind_loop try_listen ctx_done i 0 = None"
| "bind_loop try_listen ctx_done i (Suc n) =
     (case try_listen i of
        Some pc \<Rightarrow> Some pc
      | None \<Rightarrow>
          if i = bindAttempts - 1 then None
          else if ctx_done i then None
          else bind_loop try_listen ctx_done (i + 1) n)"

definition bind :: "(nat \<Rightarrow> 'conn option) \<Rightarrow> (nat \<Rightarrow> bool) \<Rightarrow> 'conn option" where
  "bind try_listen ctx_done = bind_loop try_listen ctx_done 0 bindAttempts"

fun isPeer_loop :: "nat list \<Rightarrow> string list \<Rightarrow> bool" where
  "isPeer_loop ip [] = False"
| "isPeer_loop ip (peer # ps) =
     (case split_host_port peer of
        None \<Rightarrow> isPeer_loop ip ps
      | Some (peerHost, _) \<Rightarrow> if parse_ip peerHost = Some ip then True else isPeer_loop ip ps)"

definition isPeer :: "PeerCache \<Rightarrow> string \<Rightarrow> bool" where
  "isPeer p remote =
     (case split_host_port remote of
        None \<Rightarrow> False
      | Some (host, _) \<Rightarrow>
          (case parse_ip host of None \<Rightarrow> False | Some ip \<Rightarrow> isPeer_loop ip (peerList p)))"

definition send :: "live_writer \<Rightarrow> msg \<Rightarrow> msg list" where
  "send w m = (case lw_write w m of None \<Rightarrow> [m] | Some _ \<Rightarrow> [])"

definition refuse :: "set_rcode \<Rightarrow> live_writer \<Rightarrow> msg \<Rightarrow> msg list" where
  "refuse sr w r = send w (sr new_msg r RcodeRefused)"

text \<open>What is sent, what is counted, and the store that is left.\<close>

definition serveProbe ::
  "'c store_env \<Rightarrow> PeerCache \<Rightarrow> live_writer \<Rightarrow> request \<Rightarrow> int \<Rightarrow> int \<Rightarrow> 'c store \<Rightarrow>
   msg list \<times> pc_count list \<times> 'c store" where
  "serveProbe E p w rq now elapsed s =
     (let r = req_Req rq;
          took = [ProbeDuration ''received'' elapsed]
      in if \<not> isPeer p (lw_remote w)
         then (refuse (setRcode E) w r, [ProbesCount ''received'', ProbeFailures ''not_a_peer''] @ took, s)
         else if length (Question r) \<noteq> 1
         then (refuse (setRcode E) w r, [ProbesCount ''received''] @ took, s)
         else case get E now rq s of
                (None, s') \<Rightarrow> (refuse (setRcode E) w r, [ProbesCount ''received''] @ took, s')
              | (Some m, s') \<Rightarrow> (send w (h_cell (s_heap s') m), [ProbesCount ''received''] @ took, s'))"

lemmas sibling_defs [go_eval] =
  pc_parseConfig_def defaultPort_def pc_start_def republish_def discover_def bindAttempts_def bind_def
  isPeer_def send_def refuse_def serveProbe_def

subsection \<open>Configuration facts\<close>

lemma parse_block_Ok:
  "parse_block label_ok ls p = Ok p' \<Longrightarrow>
   peers p' = peers p \<and>
   (selector p' = selector p \<or> label_ok (selector p') \<and> (''selector'', [selector p']) \<in> set ls) \<and>
   (port p' = port p \<or> 1 \<le> port p' \<and> port p' \<le> 65535 \<and> ''port'' \<in> fst ` set ls)"
proof (induction ls arbitrary: p)
  case (Cons l ls)
  obtain name args where l: "l = (name, args)" by (cases l)
  consider (sel) a where "name = ''selector''" "args = [a]" "label_ok a" "parse_block label_ok ls (p\<lparr>selector := a\<rparr>) = Ok p'"
    | (pt) a n where "name = ''port''" "args = [a]" "1 \<le> n" "n \<le> 65535" "parse_block label_ok ls (p\<lparr>port := n\<rparr>) = Ok p'"
    using Cons.prems l by (auto simp: not_less split: if_splits list.splits option.splits)
  then show ?case
  proof cases
    case sel
    from Cons.IH [OF sel(4)] sel l show ?thesis by auto
  next
    case pt
    from Cons.IH [OF pt(5)] pt l show ?thesis by auto
  qed
qed simp

text \<open>
  A configuration is accepted only with a selector that parses and a port between 1
  and 65535 (8053 unless the block names one), from exactly one directive without
  arguments, and starts without any peers.
\<close>

theorem parseConfig_valid:
  assumes "pc_parseConfig label_ok sts = Ok p"
  shows "\<exists>st. sts = [st] \<and> st_args st = [] \<and> selector p \<noteq> [] \<and> label_ok (selector p) \<and>
     (''selector'', [selector p]) \<in> set (st_block st) \<and> 1 \<le> port p \<and> port p \<le> 65535 \<and>
     (port p = 8053 \<or> ''port'' \<in> fst ` set (st_block st)) \<and> peerList p = []"
proof -
  let ?p0 = "\<lparr>selector = [], port = defaultPort, peers = None\<rparr>"
  have s: "parse_stanzas label_ok sts False ?p0 = Ok p" "selector p \<noteq> []"
    using assms by (auto simp: pc_parseConfig_def split: sum.splits if_splits)
  then obtain st sts' where st: "sts = st # sts'" by (cases sts) auto
  obtain p' where b: "st_args st = []" "parse_block label_ok (st_block st) ?p0 = Ok p'"
    "parse_stanzas label_ok sts' True p' = Ok p"
    using s(1) st by (auto split: if_splits sum.splits)
  then have "sts' = []" "p' = p" by (cases sts'; simp)+
  then show ?thesis
    using st b(1) s(2) parse_block_Ok [OF b(2)] by (auto simp: defaultPort_def peerList_def)
qed

definition sample_stanza :: stanza where
  "sample_stanza = \<lparr>st_args = [], st_braces = True, st_block = [(''selector'', [''app=dns'']), (''port'', [''9053''])]\<rparr>"

theorem parseConfig_valid_witness:
  "pc_parseConfig (\<lambda>_. True) [sample_stanza] = Ok \<lparr>selector = ''app=dns'', port = 9053, peers = None\<rparr> \<and>
   peerList \<lparr>selector = ''app=dns'', port = 9053, peers = None\<rparr> = []"
proof -
  have "pc_parseConfig (\<lambda>_. True) [sample_stanza] = Ok \<lparr>selector = ''app=dns'', port = 9053, peers = None\<rparr>"
    by code_simp
  from parseConfig_valid [OF this] this show ?thesis by blast
qed

subsection \<open>Discovery facts\<close>

definition eligible :: "string \<Rightarrow> pod \<Rightarrow> bool" where
  "eligible self d \<longleftrightarrow> podIP d \<noteq> [] \<and> podIP d \<noteq> self \<and> phase d = ''Running'' \<and> \<not> deletionTimestamp d"

lemma republish_loop_eq:
  "republish_loop self pt ds addrs =
     addrs @ map (\<lambda>d. join_host_port (podIP d) (itoa (nat pt))) (filter (eligible self) ds)"
  by (induction self pt ds addrs rule: republish_loop.induct) (auto simp: eligible_def Let_def)

lemma republish_peers:
  "peerList (fst (republish (Some pods) self (p, g))) =
     sort (map (\<lambda>d. join_host_port (podIP d) (itoa (nat (port p)))) (filter (eligible self) pods))"
  by (simp add: republish_def Let_def peerList_def republish_loop_eq)

lemma isPeer_loop_iff:
  "isPeer_loop ip ps \<longleftrightarrow>
     list_ex (\<lambda>peer. case split_host_port peer of None \<Rightarrow> False | Some (h, _) \<Rightarrow> parse_ip h = Some ip) ps"
proof (induction ps)
  case (Cons peer ps)
  then show ?case by (cases "split_host_port peer") (auto split: if_splits)
qed simp

text \<open>An address as the cluster writes it: without brackets, and one that parses.\<close>

definition plain_ip :: "string \<Rightarrow> bool" where
  "plain_ip h \<longleftrightarrow> CHR ''['' \<notin> set h \<and> CHR '']'' \<notin> set h \<and> parse_ip h \<noteq> None"

lemma split_join_itoa:
  "plain_ip h \<Longrightarrow> split_host_port (join_host_port h (itoa n)) = Some (h, itoa n)"
  by (rule split_join_host_port) (auto simp: plain_ip_def itoa_nonmember)

text \<open>
  C21: discovery and the listener's source check agree. After the informer's pods have been
  published, a probe from any port of an address is accepted exactly when the address is,
  as an IP, that of a listed pod that is running, not being deleted, and not this replica;
  the peer list is sorted, its length is the exported gauge, and a failed listing changes
  nothing.
\<close>

theorem siblings_recognised:
  assumes "list_all (\<lambda>d. podIP d = [] \<or> plain_ip (podIP d)) pods" "plain_ip h"
  shows "(isPeer (fst (republish (Some pods) self (p, g))) (join_host_port h (itoa n)) \<longleftrightarrow>
      list_ex (\<lambda>d. eligible self d \<and> parse_ip (podIP d) = parse_ip h) pods) \<and>
     sorted (peerList (fst (republish (Some pods) self (p, g)))) \<and>
     snd (republish (Some pods) self (p, g)) = length (filter (eligible self) pods) \<and>
     republish None self (p, g) = (p, g)"
proof -
  let ?p = "fst (republish (Some pods) self (p, g))"
  have pl: "plain_ip (podIP d)" if "d \<in> set pods" "eligible self d" for d
    using that assms(1) by (auto simp: list_all_iff eligible_def)
  obtain ip where ip: "parse_ip h = Some ip" using assms(2) by (auto simp: plain_ip_def)
  have "isPeer ?p (join_host_port h (itoa n)) \<longleftrightarrow>
      list_ex (\<lambda>d. case split_host_port (join_host_port (podIP d) (itoa (nat (port p)))) of
        None \<Rightarrow> False | Some (h', _) \<Rightarrow> parse_ip h' = Some ip) (filter (eligible self) pods)"
    unfolding isPeer_def split_join_itoa [OF assms(2)] using ip
    by (simp add: isPeer_loop_iff republish_peers list_ex_iff)
  also have "\<dots> \<longleftrightarrow> list_ex (\<lambda>d. parse_ip (podIP d) = Some ip) (filter (eligible self) pods)"
    by (rule list_ex_cong) (simp_all add: split_join_itoa pl)
  also have "\<dots> \<longleftrightarrow> list_ex (\<lambda>d. eligible self d \<and> parse_ip (podIP d) = parse_ip h) pods"
    using ip by (auto simp: list_ex_iff)
  finally show ?thesis
    by (simp add: republish_peers) (simp add: republish_def Let_def republish_loop_eq)
qed

theorem siblings_recognised_witness:
  "isPeer (fst (republish (Some [\<lparr>podIP = ''10.0.0.1'', phase = ''Running'', deletionTimestamp = False\<rparr>,
                                \<lparr>podIP = ''10.0.0.2'', phase = ''Running'', deletionTimestamp = False\<rparr>])
       ''10.0.0.1'' (\<lparr>selector = ''x'', port = 8053, peers = None\<rparr>, 0))) (join_host_port ''10.0.0.2'' (itoa 40000))"
proof -
  have ip: "parse_ip ''10.0.0.1'' \<noteq> None" "parse_ip ''10.0.0.2'' \<noteq> None" by code_simp+
  have "list_all (\<lambda>d. podIP d = [] \<or> plain_ip (podIP d))
      [\<lparr>podIP = ''10.0.0.1'', phase = ''Running'', deletionTimestamp = False\<rparr>,
       \<lparr>podIP = ''10.0.0.2'', phase = ''Running'', deletionTimestamp = False\<rparr>]" "plain_ip ''10.0.0.2''"
    using ip by (simp_all add: plain_ip_def)
  from siblings_recognised [OF this] show ?thesis by (simp add: eligible_def)
qed

subsection \<open>Listener facts\<close>

text \<open>
  A probe is answered from the store or refused, never forwarded: what is sent is the
  store's answer exactly when the asker is a peer, asks one question and the store has an
  answer, and otherwise a REFUSED message made from the probe; only an accepted probe
  touches the store, and every probe is counted once and timed once.
\<close>

lemma serveProbe_decides:
  "serveProbe E p w rq now elapsed s =
     (if isPeer p (lw_remote w) \<and> length (Question (req_Req rq)) = 1 \<and> fst (get E now rq s) \<noteq> None
      then (send w (h_cell (s_heap (snd (get E now rq s))) (the (fst (get E now rq s)))),
            [ProbesCount ''received'', ProbeDuration ''received'' elapsed], snd (get E now rq s))
      else (send w (setRcode E new_msg (req_Req rq) RcodeRefused),
            [ProbesCount ''received''] @ (if isPeer p (lw_remote w) then [] else [ProbeFailures ''not_a_peer'']) @
              [ProbeDuration ''received'' elapsed],
            if isPeer p (lw_remote w) \<and> length (Question (req_Req rq)) = 1 then snd (get E now rq s) else s))"
  by (auto simp: serveProbe_def refuse_def Let_def split: prod.splits option.splits)

text \<open>
  C22: the listener keeps the replica's resolution history to its siblings. Whoever is not
  a peer, asks no or several questions, or asks with DO or CD, is sent at most one
  message, a REFUSED reply to its own query that carries no record at all, and leaves the
  store as it was; a stranger is counted.
\<close>

theorem strangers_refused:
  assumes "set_rcode_ok (setRcode E)"
    and "\<not> isPeer p (lw_remote w) \<or> length (Question (req_Req rq)) \<noteq> 1 \<or> req_Do rq \<or> CheckingDisabled (req_Req rq)"
  shows "\<exists>m. fst (serveProbe E p w rq now elapsed s) = send w m \<and> Rcode m = RcodeRefused \<and>
       msg_id m = msg_id (req_Req rq) \<and> Answer m = [] \<and> Ns m = [] \<and> Extra m = [] \<and>
     snd (snd (serveProbe E p w rq now elapsed s)) = s \<and>
     (\<not> isPeer p (lw_remote w) \<longleftrightarrow> ProbeFailures ''not_a_peer'' \<in> set (fst (snd (serveProbe E p w rq now elapsed s))))"
proof -
  let ?m = "setRcode E new_msg (req_Req rq) RcodeRefused"
  have "get E now rq s = (None, s)" if "req_Do rq \<or> CheckingDisabled (req_Req rq)"
    using that by (intro get_miss) blast
  then have "fst (serveProbe E p w rq now elapsed s) = send w ?m" "snd (snd (serveProbe E p w rq now elapsed s)) = s"
    "\<not> isPeer p (lw_remote w) \<longleftrightarrow> ProbeFailures ''not_a_peer'' \<in> set (fst (snd (serveProbe E p w rq now elapsed s)))"
    using assms(2) by (auto simp: serveProbe_decides)
  moreover have "Rcode ?m = RcodeRefused" "msg_id ?m = msg_id (req_Req rq)" "Answer ?m = []" "Ns ?m = []" "Extra ?m = []"
    using set_rcode_okD [OF assms(1)] by (simp_all add: new_msg_def)
  ultimately show ?thesis by blast
qed

theorem strangers_refused_witness:
  "\<exists>m. fst (serveProbe sample_store_env \<lparr>selector = ''x'', port = 8053, peers = None\<rparr>
         \<lparr>lw_local = ''l'', lw_remote = ''10.0.0.9:4000'', lw_write = (\<lambda>_. None)\<rparr> (sample_query ''a.'') 0 0 (sy_store sample_sys)) = [m] \<and>
     Rcode m = RcodeRefused \<and> Answer m = []"
proof -
  have "\<not> isPeer \<lparr>selector = ''x'', port = 8053, peers = None\<rparr> r" for r
    by (simp add: isPeer_def peerList_def split: option.splits)
  then show ?thesis
    using strangers_refused [OF sample_ok(2), of "\<lparr>selector = ''x'', port = 8053, peers = None\<rparr>"
        "\<lparr>lw_local = ''l'', lw_remote = ''10.0.0.9:4000'', lw_write = (\<lambda>_. None)\<rparr>" "sample_query ''a.''" 0 0 "sy_store sample_sys"]
    by (auto simp: send_def)
qed

lemma bind_loop_iff:
  "i + n = bindAttempts \<Longrightarrow>
   bind_loop f d i n = Some pc \<longleftrightarrow>
     (\<exists>k. i \<le> k \<and> k < bindAttempts \<and> f k = Some pc \<and> list_all (\<lambda>j. f j = None \<and> \<not> d j) [i..<k])"
proof (induction n arbitrary: i)
  case (Suc n)
  then have i: "i < bindAttempts" by simp
  have split: "(\<exists>k. i \<le> k \<and> k < bindAttempts \<and> f k = Some pc \<and> list_all (\<lambda>j. f j = None \<and> \<not> d j) [i..<k]) \<longleftrightarrow>
      f i = Some pc \<or> f i = None \<and> \<not> d i \<and>
        (\<exists>k. Suc i \<le> k \<and> k < bindAttempts \<and> f k = Some pc \<and> list_all (\<lambda>j. f j = None \<and> \<not> d j) [Suc i..<k])"
    (is "?L \<longleftrightarrow> ?R")
  proof
    assume ?L
    then obtain k where k: "i \<le> k" "k < bindAttempts" "f k = Some pc" "list_all (\<lambda>j. f j = None \<and> \<not> d j) [i..<k]" by blast
    show ?R
    proof (cases "k = i")
      case False
      then have "[i..<k] = i # [Suc i..<k]" using k(1) by (simp add: upt_conv_Cons)
      with k False show ?R by (intro disjI2 conjI exI [of _ k]) auto
    qed (use k in simp)
  next
    assume ?R
    then show ?L
    proof
      assume "f i = Some pc"
      then show ?L using i by (intro exI [of _ i]) simp
    next
      assume r: "f i = None \<and> \<not> d i \<and>
        (\<exists>k. Suc i \<le> k \<and> k < bindAttempts \<and> f k = Some pc \<and> list_all (\<lambda>j. f j = None \<and> \<not> d j) [Suc i..<k])"
      then obtain k where k: "Suc i \<le> k" "k < bindAttempts" "f k = Some pc" "list_all (\<lambda>j. f j = None \<and> \<not> d j) [Suc i..<k]"
        by blast
      have "[i..<k] = i # [Suc i..<k]" using k(1) by (simp add: upt_conv_Cons)
      with r k show ?L by (intro exI [of _ k]) simp
    qed
  qed
  show ?case
  proof (cases "i = bindAttempts - 1")
    case True
    then have none: "\<not> (\<exists>k. Suc i \<le> k \<and> k < bindAttempts \<and> f k = Some pc \<and> list_all (\<lambda>j. f j = None \<and> \<not> d j) [Suc i..<k])"
      by auto
    show ?thesis unfolding split using True none by (auto split: option.splits)
  next
    case False
    then show ?thesis unfolding split using Suc.IH [of "Suc i"] Suc.prems by (auto split: option.splits)
  qed
qed simp

text \<open>
  The listener binds with the first of its twenty attempts that succeeds, provided
  the context was not done while it waited.
\<close>

lemma bind_iff:
  "bind f d = Some pc \<longleftrightarrow>
     (\<exists>k < bindAttempts. f k = Some pc \<and> list_all (\<lambda>j. f j = None \<and> \<not> d j) [0..<k])"
  unfolding bind_def using bind_loop_iff [of 0 bindAttempts f d pc] by auto

end
