(* ===== verification/Peer_Life.thy ===== *)
theory Peer_Life
  imports Siblings
begin

text \<open>
  The goroutines of the peercache plugin from \<open>start\<close> to \<open>shutdown\<close>
  (\<open>plugin/peercache/setup.go\<close>, \<open>listener.go\<close> and \<open>discovery.go\<close>): the listener with the
  goroutine that closes its socket, the discovery, and the goroutine of the informer that
  calls \<open>republish\<close> for every event. The accesses to shared state inside \<open>republish\<close> are
  separate steps, because the discovery and the informer both run it.

  Relied on of the libraries: the server returns once its socket is closed, waiting for the
  informer's cache ends when the context is done, and \<open>factory.Shutdown\<close> returns when the
  informer's goroutines have ended, which they do after the event in progress.
\<close>

subsection \<open>State\<close>

datatype listener_pc = LBind nat | LDelay nat | LServe | LEnd

datatype closer_pc = CNone | CWait | CClosed

text \<open>\<open>republish\<close> before the listing, before \<open>peers.Store\<close>, and before \<open>peersTotal.Set\<close>.\<close>

datatype republisher = RIdle | RListed "string list" | RStored nat

datatype discover_pc = DSetup | DSync | DPub republisher | DWait | DShut | DEnd

datatype informer_pc = IOff | IRun republisher | IEnd

datatype main_pc = MRun | MWait | MReturned

record peer_life =
  pf_p :: PeerCache
  pf_gauge :: nat
  pf_pods :: "pod list"
  pf_events :: nat
  pf_listen :: listener_pc
  pf_closer :: closer_pc
  pf_sock :: bool
  pf_disc :: discover_pc
  pf_inf :: informer_pc
  pf_ctx :: bool
  pf_main :: main_pc

definition pf_start :: "string \<Rightarrow> PeerCache \<Rightarrow> pod list \<Rightarrow> peer_life" where
  "pf_start self p pods =
     \<lparr>pf_p = p, pf_gauge = 0, pf_pods = pods, pf_events = 0,
      pf_listen = (if pc_start self then LBind 0 else LEnd), pf_closer = CNone, pf_sock = False,
      pf_disc = (if pc_start self then DSetup else DEnd), pf_inf = IOff, pf_ctx = False, pf_main = MRun\<rparr>"

definition pf_addrs :: "string \<Rightarrow> peer_life \<Rightarrow> string list" where
  "pf_addrs self s = sort (republish_loop self (port (pf_p s)) (pf_pods s) [])"

subsection \<open>Steps\<close>

text \<open>The listener and the goroutine that closes its socket.\<close>

inductive listen_act :: "peer_life \<Rightarrow> peer_life \<Rightarrow> bool" where
  bind_succeeds:
    "pf_listen s = LBind i \<Longrightarrow> listen_act s (s\<lparr>pf_listen := LServe, pf_sock := True, pf_closer := CWait\<rparr>)"
| bind_gives_up:
    "pf_listen s = LBind i \<Longrightarrow> i = bindAttempts - 1 \<Longrightarrow> listen_act s (s\<lparr>pf_listen := LEnd\<rparr>)"
| bind_waits:
    "pf_listen s = LBind i \<Longrightarrow> i \<noteq> bindAttempts - 1 \<Longrightarrow> listen_act s (s\<lparr>pf_listen := LDelay i\<rparr>)"
| delay_over: "pf_listen s = LDelay i \<Longrightarrow> listen_act s (s\<lparr>pf_listen := LBind (i + 1)\<rparr>)"
| delay_stopped: "pf_listen s = LDelay i \<Longrightarrow> pf_ctx s \<Longrightarrow> listen_act s (s\<lparr>pf_listen := LEnd\<rparr>)"
| closer_closes:
    "pf_closer s = CWait \<Longrightarrow> pf_ctx s \<Longrightarrow> listen_act s (s\<lparr>pf_closer := CClosed, pf_sock := False\<rparr>)"
| serve_closed: "pf_listen s = LServe \<Longrightarrow> \<not> pf_sock s \<Longrightarrow> listen_act s (s\<lparr>pf_listen := LEnd\<rparr>)"

text \<open>The discovery, and \<open>republish\<close> run by it and by the informer.\<close>

inductive discover_act :: "string \<Rightarrow> peer_life \<Rightarrow> peer_life \<Rightarrow> bool" for self where
  discover_fails: "pf_disc s = DSetup \<Longrightarrow> discover_act self s (s\<lparr>pf_disc := DEnd\<rparr>)"
| discover_starts: "pf_disc s = DSetup \<Longrightarrow> discover_act self s (s\<lparr>pf_disc := DSync, pf_inf := IRun RIdle\<rparr>)"
| sync_stopped: "pf_disc s = DSync \<Longrightarrow> pf_ctx s \<Longrightarrow> discover_act self s (s\<lparr>pf_disc := DPub RIdle\<rparr>)"
| discover_lists:
    "pf_disc s = DPub RIdle \<Longrightarrow> discover_act self s (s\<lparr>pf_disc := DPub (RListed (pf_addrs self s))\<rparr>)"
| discover_list_fails: "pf_disc s = DPub RIdle \<Longrightarrow> discover_act self s (s\<lparr>pf_disc := DWait\<rparr>)"
| discover_stores:
    "pf_disc s = DPub (RListed a) \<Longrightarrow>
     discover_act self s (s\<lparr>pf_p := (pf_p s)\<lparr>peers := Some a\<rparr>, pf_disc := DPub (RStored (length a))\<rparr>)"
| discover_gauge: "pf_disc s = DPub (RStored n) \<Longrightarrow> discover_act self s (s\<lparr>pf_gauge := n, pf_disc := DWait\<rparr>)"
| discover_stops: "pf_disc s = DWait \<Longrightarrow> pf_ctx s \<Longrightarrow> discover_act self s (s\<lparr>pf_disc := DShut\<rparr>)"
| discover_ends: "pf_disc s = DShut \<Longrightarrow> pf_inf s = IEnd \<Longrightarrow> discover_act self s (s\<lparr>pf_disc := DEnd\<rparr>)"
| event_lists:
    "pf_inf s = IRun RIdle \<Longrightarrow> pf_events s = Suc k \<Longrightarrow>
     discover_act self s (s\<lparr>pf_events := k, pf_inf := IRun (RListed (pf_addrs self s))\<rparr>)"
| event_list_fails:
    "pf_inf s = IRun RIdle \<Longrightarrow> pf_events s = Suc k \<Longrightarrow> discover_act self s (s\<lparr>pf_events := k\<rparr>)"
| event_stores:
    "pf_inf s = IRun (RListed a) \<Longrightarrow>
     discover_act self s (s\<lparr>pf_p := (pf_p s)\<lparr>peers := Some a\<rparr>, pf_inf := IRun (RStored (length a))\<rparr>)"
| event_gauge: "pf_inf s = IRun (RStored n) \<Longrightarrow> discover_act self s (s\<lparr>pf_gauge := n, pf_inf := IRun RIdle\<rparr>)"
| informer_stops: "pf_inf s = IRun RIdle \<Longrightarrow> pf_ctx s \<Longrightarrow> discover_act self s (s\<lparr>pf_inf := IEnd\<rparr>)"

text \<open>\<open>shutdown\<close>: it cancels the context, and returns when both goroutines have.\<close>

inductive shutdown_act :: "peer_life \<Rightarrow> peer_life \<Rightarrow> bool" where
  shutdown_returns:
    "pf_main s = MWait \<Longrightarrow> pf_listen s = LEnd \<Longrightarrow> pf_disc s = DEnd \<Longrightarrow> shutdown_act s (s\<lparr>pf_main := MReturned\<rparr>)"

text \<open>The steps of the plugin's own goroutines.\<close>

definition pf_act :: "string \<Rightarrow> peer_life \<Rightarrow> peer_life \<Rightarrow> bool" where
  "pf_act self s t \<longleftrightarrow> listen_act s t \<or> discover_act self s t \<or> shutdown_act s t"

lemma pf_actE:
  assumes "pf_act self s t"
  obtains (listening) "listen_act s t" | (discovering) "discover_act self s t" | (stopping) "shutdown_act s t"
  using assms by (auto simp: pf_act_def)

text \<open>
  The steps of the surroundings: \<open>shutdown\<close> is called, the pods change or are resynchronised,
  the cache has synced, the server stops by itself.
\<close>

inductive pf_env :: "peer_life \<Rightarrow> peer_life \<Rightarrow> bool" where
  shutdown_called: "pf_main s = MRun \<Longrightarrow> pf_env s (s\<lparr>pf_ctx := True, pf_main := MWait\<rparr>)"
| pods_change: "pf_inf s = IRun r \<Longrightarrow> pf_env s (s\<lparr>pf_pods := ds, pf_events := pf_events s + 1\<rparr>)"
| cache_synced: "pf_disc s = DSync \<Longrightarrow> pf_env s (s\<lparr>pf_disc := DPub RIdle\<rparr>)"
| serve_fails: "pf_listen s = LServe \<Longrightarrow> pf_env s (s\<lparr>pf_listen := LEnd\<rparr>)"

definition pf_step :: "string \<Rightarrow> peer_life \<Rightarrow> peer_life \<Rightarrow> bool" where
  "pf_step self s t \<longleftrightarrow> pf_act self s t \<or> pf_env s t"

inductive_simps listen_act_simps [step_simps]: "listen_act s t"
inductive_simps discover_act_simps [step_simps]: "discover_act self s t"
inductive_simps shutdown_act_simps [step_simps]: "shutdown_act s t"
inductive_simps pf_env_simps [step_simps]: "pf_env s t"

text \<open>A property of single steps, proved per goroutine.\<close>

lemma pf_step_cases:
  assumes "pf_step self s t"
    and "listen_act s t \<Longrightarrow> P t" "discover_act self s t \<Longrightarrow> P t" "shutdown_act s t \<Longrightarrow> P t" "pf_env s t \<Longrightarrow> P t"
  shows "P t"
  using assms by (auto simp: pf_step_def pf_act_def)

subsection \<open>Invariant\<close>

text \<open>An address the discovery may publish: that of another pod, on the configured port.\<close>

definition sibling_addr :: "string \<Rightarrow> int \<Rightarrow> string \<Rightarrow> bool" where
  "sibling_addr self pt a \<longleftrightarrow> (\<exists>ip. a = join_host_port ip (itoa (nat pt)) \<and> ip \<noteq> [] \<and> ip \<noteq> self)"

fun pending :: "republisher \<Rightarrow> string list" where
  "pending (RListed a) = a"
| "pending _ = []"

fun disc_pending :: "discover_pc \<Rightarrow> string list" where
  "disc_pending (DPub r) = pending r"
| "disc_pending _ = []"

fun inf_pending :: "informer_pc \<Rightarrow> string list" where
  "inf_pending (IRun r) = pending r"
| "inf_pending _ = []"

definition peers_ok :: "string \<Rightarrow> int \<Rightarrow> peer_life \<Rightarrow> bool" where
  "peers_ok self pt s \<longleftrightarrow>
     port (pf_p s) = pt \<and>
     list_all (sibling_addr self pt) (peerList (pf_p s) @ disc_pending (pf_disc s) @ inf_pending (pf_inf s))"

definition socket_ok :: "peer_life \<Rightarrow> bool" where
  "socket_ok s \<longleftrightarrow>
     (case pf_listen s of
        LBind i \<Rightarrow> i < bindAttempts \<and> pf_closer s = CNone
      | LDelay i \<Rightarrow> i < bindAttempts - 1 \<and> pf_closer s = CNone
      | LServe \<Rightarrow> pf_closer s \<noteq> CNone
      | LEnd \<Rightarrow> True) \<and>
     (pf_sock s \<longleftrightarrow> pf_closer s = CWait) \<and> (pf_closer s = CClosed \<longrightarrow> pf_ctx s)"

definition goroutines_ok :: "peer_life \<Rightarrow> bool" where
  "goroutines_ok s \<longleftrightarrow>
     (case pf_disc s of
        DSetup \<Rightarrow> pf_inf s = IOff
      | DEnd \<Rightarrow> pf_inf s = IOff \<or> pf_inf s = IEnd
      | _ \<Rightarrow> pf_inf s \<noteq> IOff) \<and>
     (pf_ctx s \<longleftrightarrow> pf_main s \<noteq> MRun) \<and>
     (pf_main s = MReturned \<longrightarrow> pf_listen s = LEnd \<and> pf_disc s = DEnd)"

definition pf_invar :: "string \<Rightarrow> int \<Rightarrow> peer_life \<Rightarrow> bool" where
  "pf_invar self pt s \<longleftrightarrow> peers_ok self pt s \<and> socket_ok s \<and> goroutines_ok s"

lemma pf_addrs_ok: "list_all (sibling_addr self (port (pf_p s))) (pf_addrs self s)"
  by (auto simp: pf_addrs_def republish_loop_eq list_all_iff sibling_addr_def eligible_def)

lemma peers_ok_step:
  assumes ok: "peers_ok self pt s" and st: "pf_step self s t"
  shows "peers_ok self pt t"
  using st
proof (rule pf_step_cases)
  assume "discover_act self s t"
  then show ?thesis
    by cases (use ok pf_addrs_ok [of self s] in \<open>auto simp: peers_ok_def peerList_def\<close>)
next
  assume "listen_act s t"
  then show ?thesis by cases (use ok in \<open>auto simp: peers_ok_def\<close>)
next
  assume "shutdown_act s t"
  then show ?thesis by cases (use ok in \<open>auto simp: peers_ok_def\<close>)
next
  assume "pf_env s t"
  then show ?thesis by cases (use ok in \<open>auto simp: peers_ok_def\<close>)
qed

lemma socket_ok_step:
  assumes ok: "socket_ok s" and st: "pf_step self s t"
  shows "socket_ok t"
  using st
proof (rule pf_step_cases)
  assume "listen_act s t"
  then show ?thesis by cases (use ok in \<open>auto simp: socket_ok_def split: listener_pc.splits\<close>)
next
  assume "pf_env s t"
  then show ?thesis by cases (use ok in \<open>auto simp: socket_ok_def split: listener_pc.splits\<close>)
next
  assume "discover_act self s t"
  then show ?thesis by cases (use ok in \<open>auto simp: socket_ok_def split: listener_pc.splits\<close>)
next
  assume "shutdown_act s t"
  then show ?thesis by cases (use ok in \<open>auto simp: socket_ok_def split: listener_pc.splits\<close>)
qed

lemma goroutines_ok_step:
  assumes ok: "goroutines_ok s" and st: "pf_step self s t"
  shows "goroutines_ok t"
  using st
proof (rule pf_step_cases)
  assume "listen_act s t"
  then show ?thesis by cases (use ok in \<open>auto simp: goroutines_ok_def split: discover_pc.splits\<close>)
next
  assume "discover_act self s t"
  then show ?thesis by cases (use ok in \<open>auto simp: goroutines_ok_def split: discover_pc.splits\<close>)
next
  assume "shutdown_act s t"
  then show ?thesis by cases (use ok in \<open>auto simp: goroutines_ok_def split: discover_pc.splits\<close>)
next
  assume "pf_env s t"
  then show ?thesis by cases (use ok in \<open>auto simp: goroutines_ok_def split: discover_pc.splits\<close>)
qed

interpretation peer_goroutines: inductive_invariant "\<lambda>s. s = pf_start self p pods" "pf_step self"
  "\<lambda>s. peers p = None \<longrightarrow> pf_invar self (port p) s" for self p pods
proof
  fix s
  show "peers p = None \<longrightarrow> pf_invar self (port p) s" if "s = pf_start self p pods"
    using that by (auto simp: pf_start_def pf_invar_def peers_ok_def peerList_def socket_ok_def goroutines_ok_def bindAttempts_def)
  fix t
  show "peers p = None \<longrightarrow> pf_invar self (port p) t" if "peers p = None \<longrightarrow> pf_invar self (port p) s" "pf_step self s t"
    using that peers_ok_step socket_ok_step goroutines_ok_step unfolding pf_invar_def by blast
qed

subsection \<open>Shutdown\<close>

fun listen_weight :: "listener_pc \<Rightarrow> nat" where
  "listen_weight (LBind i) = 2 * (bindAttempts - i) + 2"
| "listen_weight (LDelay i) = 2 * (bindAttempts - i) + 1"
| "listen_weight LServe = 1"
| "listen_weight LEnd = 0"

fun rep_weight :: "republisher \<Rightarrow> nat" where
  "rep_weight RIdle = 0"
| "rep_weight (RListed a) = 2"
| "rep_weight (RStored n) = 1"

fun disc_weight :: "discover_pc \<Rightarrow> nat" where
  "disc_weight DSetup = 10"
| "disc_weight DSync = 7"
| "disc_weight (DPub RIdle) = 6"
| "disc_weight (DPub r) = 3 + rep_weight r"
| "disc_weight DWait = 2"
| "disc_weight DShut = 1"
| "disc_weight DEnd = 0"

fun inf_weight :: "informer_pc \<Rightarrow> nat" where
  "inf_weight (IRun r) = 1 + rep_weight r"
| "inf_weight _ = 0"

definition pf_measure :: "peer_life \<Rightarrow> nat" where
  "pf_measure s =
     listen_weight (pf_listen s) + disc_weight (pf_disc s) + inf_weight (pf_inf s) + 3 * pf_events s +
     (if pf_closer s = CWait then 1 else 0) + (if pf_main s = MWait then 1 else 0)"

lemma pf_act_measure:
  assumes "socket_ok s" "pf_act self s t"
  shows "pf_measure t < pf_measure s"
  using assms(2)
proof (cases rule: pf_actE)
  case listening
  then show ?thesis by cases (use assms(1) in \<open>auto simp: pf_measure_def socket_ok_def bindAttempts_def\<close>)
next
  case discovering
  then show ?thesis by cases (simp_all add: pf_measure_def)
next
  case stopping
  then show ?thesis by cases (simp add: pf_measure_def)
qed

lemma pf_stuck_after_stop:
  assumes inv: "socket_ok s" "goroutines_ok s" and ctx: "pf_ctx s" and rest: "\<nexists>t. pf_act self s t"
  shows "pf_main s = MReturned \<and> pf_listen s = LEnd \<and> pf_disc s = DEnd \<and> \<not> pf_sock s \<and>
    (pf_inf s = IOff \<or> pf_inf s = IEnd)"
proof -
  have stuck: "\<nexists>t. listen_act s t" "\<nexists>t. discover_act self s t" "\<nexists>t. shutdown_act s t" using rest by (auto simp: pf_act_def)
  have sock: "pf_closer s \<noteq> CWait" "\<not> pf_sock s"
    using stuck closer_closes [of s] ctx inv(1) by (auto simp: socket_ok_def)
  have listen: "pf_listen s = LEnd"
  proof (cases "pf_listen s")
    case LServe
    then show ?thesis using stuck serve_closed [of s] sock by blast
  qed (use stuck bind_succeeds [of s] delay_over [of s] in blast)+
  have inf: "pf_inf s = IOff \<or> pf_inf s = IEnd"
  proof (cases "pf_inf s")
    case (IRun r)
    then show ?thesis
      using stuck ctx informer_stops [of s self] event_stores [of s _ self] event_gauge [of s _ self] by (cases r) blast+
  qed simp_all
  have disc: "pf_disc s = DEnd"
  proof (cases "pf_disc s")
    case (DPub r)
    then show ?thesis
      using stuck discover_lists [of s self] discover_stores [of s _ self] discover_gauge [of s _ self] by (cases r) blast+
  next
    case DShut
    then have "pf_inf s = IEnd" using inf inv(2) by (auto simp: goroutines_ok_def)
    then show ?thesis using stuck DShut discover_ends [of s self] by blast
  qed (use stuck ctx discover_fails [of s self] sync_stopped [of s self] discover_stops [of s self] in blast)+
  have "pf_main s \<noteq> MRun" using inv(2) ctx by (simp add: goroutines_ok_def)
  then have "pf_main s = MReturned"
    using stuck listen disc shutdown_returns [of s] by (cases "pf_main s") blast+
  then show ?thesis using listen disc sock inf by simp
qed

subsection \<open>Properties\<close>

text \<open>
  C23: shutting down the peercache plugin works in every situation. The plugin's own
  goroutines cannot run for ever; once \<open>shutdown\<close> has been called they only come to rest
  when \<open>shutdown\<close> has returned, the listener, the discovery and the informer have ended and
  the socket is closed, whatever the listener and the discovery were doing at that moment.
\<close>

theorem peer_shutdown_completes:
  assumes "peers p = None"
  shows "wfp (\<lambda>t s. reach (\<lambda>s. s = pf_start self p pods) (pf_step self) s \<and> pf_act self s t) \<and>
    (\<forall>s. reach (\<lambda>s. s = pf_start self p pods) (pf_step self) s \<and> pf_ctx s \<and> (\<nexists>t. pf_act self s t) \<longrightarrow>
       pf_main s = MReturned \<and> pf_listen s = LEnd \<and> pf_disc s = DEnd \<and> \<not> pf_sock s \<and>
       (pf_inf s = IOff \<or> pf_inf s = IEnd))"
proof (intro conjI allI impI)
  have inv: "pf_invar self (port p) s" if "reach (\<lambda>s. s = pf_start self p pods) (pf_step self) s" for s
    using peer_goroutines.reachable_invar [OF that] assms by simp
  show "wfp (\<lambda>t s. reach (\<lambda>s. s = pf_start self p pods) (pf_step self) s \<and> pf_act self s t)"
    by (rule wfp_if_convertible_to_nat [where f = pf_measure]) (use inv pf_act_measure in \<open>auto simp: pf_invar_def\<close>)
  fix s
  assume "reach (\<lambda>s. s = pf_start self p pods) (pf_step self) s \<and> pf_ctx s \<and> (\<nexists>t. pf_act self s t)"
  then show "pf_main s = MReturned" "pf_listen s = LEnd" "pf_disc s = DEnd" "\<not> pf_sock s" "pf_inf s = IOff \<or> pf_inf s = IEnd"
    using inv [of s] pf_stuck_after_stop [of s self] by (auto simp: pf_invar_def)
qed

definition sample_pc :: PeerCache where
  "sample_pc = \<lparr>selector = ''app=dns'', port = 8053, peers = None\<rparr>"

theorem peer_shutdown_completes_witness:
  "\<nexists>s. reach (\<lambda>s. s = pf_start ''10.0.0.1'' sample_pc []) (pf_step ''10.0.0.1'') s \<and> pf_ctx s \<and>
     (\<nexists>t. pf_act ''10.0.0.1'' s t) \<and> pf_main s \<noteq> MReturned"
proof -
  have "peers sample_pc = None" by (simp add: sample_pc_def)
  from peer_shutdown_completes [OF this, of "''10.0.0.1''" "[]"] show ?thesis by blast
qed

text \<open>
  C24: in every reachable state the peers of a replica, and the ones about to be published,
  are addresses of other pods on the configured port, never the replica's own; and after
  \<open>shutdown\<close> has returned no step of the plugin or its surroundings changes the peer set,
  the gauge or the listener again.
\<close>

theorem peers_never_self:
  assumes "reach (\<lambda>s. s = pf_start self p pods) (pf_step self) s" "peers p = None"
  shows "list_all (sibling_addr self (port p)) (peerList (pf_p s)) \<and>
    (pf_main s = MReturned \<longrightarrow>
       (\<forall>t. pf_step self s t \<longrightarrow>
          pf_p t = pf_p s \<and> pf_gauge t = pf_gauge s \<and> pf_listen t = LEnd \<and> pf_disc t = DEnd \<and> pf_main t = MReturned))"
proof -
  have inv: "peers_ok self (port p) s" "goroutines_ok s"
    using peer_goroutines.reachable_invar [OF assms(1)] assms(2) by (simp_all add: pf_invar_def)
  have "pf_p t = pf_p s \<and> pf_gauge t = pf_gauge s \<and> pf_listen t = LEnd \<and> pf_disc t = DEnd \<and> pf_main t = MReturned"
    if "pf_main s = MReturned" "pf_step self s t" for t
  proof -
    have d: "pf_listen s = LEnd" "pf_disc s = DEnd" "pf_inf s = IOff \<or> pf_inf s = IEnd"
      using inv(2) that(1) by (auto simp: goroutines_ok_def)
    from that(2) show ?thesis
      by (rule pf_step_cases) (use d that(1) in \<open>auto simp: step_simps\<close>)
  qed
  then show ?thesis using inv(1) by (auto simp: peers_ok_def)
qed

text \<open>The goroutines of the discovery in a run that the listener does not take part in.\<close>

definition disc_state :: "PeerCache \<Rightarrow> nat \<Rightarrow> pod list \<Rightarrow> nat \<Rightarrow> discover_pc \<Rightarrow> informer_pc \<Rightarrow> peer_life" where
  "disc_state p g pods k d i =
     \<lparr>pf_p = p, pf_gauge = g, pf_pods = pods, pf_events = k, pf_listen = LBind 0, pf_closer = CNone, pf_sock = False,
      pf_disc = d, pf_inf = i, pf_ctx = False, pf_main = MRun\<rparr>"

lemma disc_act:
  assumes "reach I (pf_step self) s" "discover_act self s t"
  shows "reach I (pf_step self) t"
  using assms by (intro reach_step [of I "pf_step self" s t]) (simp_all add: pf_step_def pf_act_def)

lemma disc_env:
  assumes "reach I (pf_step self) s" "pf_env s t"
  shows "reach I (pf_step self) t"
  using assms by (intro reach_step [of I "pf_step self" s t]) (simp_all add: pf_step_def)

abbreviation listed :: "string \<Rightarrow> PeerCache \<Rightarrow> pod list \<Rightarrow> string list" where
  "listed self p ds \<equiv> sort (republish_loop self (port p) ds [])"

lemma stale_run:
  assumes "self \<noteq> []"
  shows "reach (\<lambda>s. s = pf_start self p old) (pf_step self)
    (disc_state (p\<lparr>peers := Some (listed self p old)\<rparr>) (length (listed self p old)) new 0 DWait (IRun RIdle))"
proof -
  let ?I = "\<lambda>s. s = pf_start self p old" and ?a = "listed self p old" and ?b = "listed self p new"
  have "reach ?I (pf_step self) (disc_state p 0 old 0 DSetup IOff)"
    by (rule reach_init) (simp add: disc_state_def pf_start_def pc_start_def assms)
  from disc_act [OF this discover_starts] have "reach ?I (pf_step self) (disc_state p 0 old 0 DSync (IRun RIdle))"
    by (simp add: disc_state_def)
  from disc_env [OF this cache_synced] have "reach ?I (pf_step self) (disc_state p 0 old 0 (DPub RIdle) (IRun RIdle))"
    by (simp add: disc_state_def)
  from disc_act [OF this discover_lists] have "reach ?I (pf_step self) (disc_state p 0 old 0 (DPub (RListed ?a)) (IRun RIdle))"
    by (simp add: disc_state_def pf_addrs_def)
  from disc_env [OF this pods_change [of _ RIdle new]]
  have "reach ?I (pf_step self) (disc_state p 0 new (Suc 0) (DPub (RListed ?a)) (IRun RIdle))"
    by (simp add: disc_state_def)
  from disc_act [OF this event_lists [of _ 0]]
  have "reach ?I (pf_step self) (disc_state p 0 new 0 (DPub (RListed ?a)) (IRun (RListed ?b)))"
    by (simp add: disc_state_def pf_addrs_def)
  from disc_act [OF this event_stores [of _ ?b]]
  have "reach ?I (pf_step self)
      (disc_state (p\<lparr>peers := Some ?b\<rparr>) 0 new 0 (DPub (RListed ?a)) (IRun (RStored (length ?b))))"
    by (simp add: disc_state_def)
  from disc_act [OF this event_gauge [of _ "length ?b"]]
  have "reach ?I (pf_step self) (disc_state (p\<lparr>peers := Some ?b\<rparr>) (length ?b) new 0 (DPub (RListed ?a)) (IRun RIdle))"
    by (simp add: disc_state_def)
  from disc_act [OF this discover_stores [of _ ?a]]
  have "reach ?I (pf_step self)
      (disc_state (p\<lparr>peers := Some ?a\<rparr>) (length ?b) new 0 (DPub (RStored (length ?a))) (IRun RIdle))"
    by (simp add: disc_state_def)
  from disc_act [OF this discover_gauge [of _ "length ?a"]] show ?thesis by (simp add: disc_state_def)
qed

text \<open>
  C25: the peer set can be left out of date. The discovery publishes once after the cache has
  synced, concurrently with the informer's events, and the listing and the publication are
  not one atomic step: for any pods before and after a change there is a run in which both
  are at rest with no event left to handle, the lister knows the new pods, and the
  published peers are those of the old ones.
\<close>

theorem stale_peers_race:
  assumes "self \<noteq> []"
  shows "\<exists>s. reach (\<lambda>s. s = pf_start self p old) (pf_step self) s \<and> pf_disc s = DWait \<and> pf_inf s = IRun RIdle \<and>
    pf_events s = 0 \<and> pf_pods s = new \<and> peerList (pf_p s) = sort (republish_loop self (port p) old [])"
  using stale_run [OF assms, of p old new] by (intro exI conjI) (auto simp: disc_state_def peerList_def)

theorem stale_peers_race_witness:
  "\<exists>s. reach (\<lambda>s. s = pf_start ''10.0.0.1'' sample_pc []) (pf_step ''10.0.0.1'') s \<and> pf_events s = 0 \<and>
     pf_disc s = DWait \<and> pf_inf s = IRun RIdle \<and> peerList (pf_p s) = [] \<and>
     pf_pods s = [\<lparr>podIP = ''10.0.0.2'', phase = ''Running'', deletionTimestamp = False\<rparr>] \<and>
     pf_addrs ''10.0.0.1'' s \<noteq> peerList (pf_p s)"
proof -
  let ?d = "\<lparr>podIP = ''10.0.0.2'', phase = ''Running'', deletionTimestamp = False\<rparr>"
  obtain s where s: "reach (\<lambda>s. s = pf_start ''10.0.0.1'' sample_pc []) (pf_step ''10.0.0.1'') s"
    "pf_disc s = DWait" "pf_inf s = IRun RIdle" "pf_events s = 0" "pf_pods s = [?d]"
    "peerList (pf_p s) = sort (republish_loop ''10.0.0.1'' (port sample_pc) [] [])"
    using stale_peers_race [of "''10.0.0.1''" sample_pc "[]" "[?d]"] by blast
  have "pf_addrs ''10.0.0.1'' s \<noteq> []" using s(5) by (simp add: pf_addrs_def Let_def)
  then show ?thesis using s by auto
qed

theorem peers_never_self_witness:
  "\<exists>s. reach (\<lambda>s. s = pf_start ''10.0.0.1'' sample_pc [\<lparr>podIP = ''10.0.0.2'', phase = ''Running'', deletionTimestamp = False\<rparr>])
       (pf_step ''10.0.0.1'') s \<and> peerList (pf_p s) \<noteq> [] \<and> list_all (sibling_addr ''10.0.0.1'' 8053) (peerList (pf_p s))"
proof -
  let ?d = "\<lparr>podIP = ''10.0.0.2'', phase = ''Running'', deletionTimestamp = False\<rparr>"
  have "''10.0.0.1'' \<noteq> []" by simp
  note run = stale_run [OF this, of sample_pc "[?d]" "[?d]"]
  have "peers sample_pc = None" "port sample_pc = 8053" by (simp_all add: sample_pc_def)
  with peers_never_self [OF run] show ?thesis
    by (intro exI [of _ "disc_state (sample_pc\<lparr>peers := Some (listed ''10.0.0.1'' sample_pc [?d])\<rparr>)
        (length (listed ''10.0.0.1'' sample_pc [?d])) [?d] 0 DWait (IRun RIdle)"] conjI run)
      (simp_all add: disc_state_def peerList_def)
qed

end
