(* ===== verification/Distribution.thy ===== *)
theory Distribution
  imports Homedns_Prelude "HOL-Library.Sublist"
begin

text \<open>
  The distribution itself: the places of its plugins in CoreDNS's chain
  (\<open>directives.go\<close>) and the revision it reports (\<open>buildinfo.go\<close>). The directive list of
  CoreDNS and the build settings of the toolchain are arguments; a panic is an error
  value.
\<close>

subsection \<open>The plugin chain\<close>

definition blocklistDirective :: string where "blocklistDirective = ''blocklist''"
definition gatewayDirective :: string where "gatewayDirective = ''k8s_gateway''"
definition peercacheDirective :: string where "peercacheDirective = ''peercache''"
definition raceDirective :: string where "raceDirective = ''race''"

datatype panic = RegisteredTwice string | CannotPlace string string

text \<open>The loop that looks for the anchor; \<open>i\<close> is its index variable.\<close>

fun anchor_index :: "string \<Rightarrow> nat \<Rightarrow> string list \<Rightarrow> nat option" where
  "anchor_index anchor i [] = None"
| "anchor_index anchor i (d # ds) =
     (if d \<noteq> anchor then anchor_index anchor (i + 1) ds else Some i)"

definition insertBefore :: "string \<Rightarrow> string \<Rightarrow> string list \<Rightarrow> (panic, string list) result" where
  "insertBefore anchor name ds =
     (if list_ex (\<lambda>d. d = name) ds then Err (RegisteredTwice name)
      else case anchor_index anchor 0 ds of
             Some i \<Rightarrow> Ok (take i ds @ [name] @ drop i ds)
           | None \<Rightarrow> Err (CannotPlace name anchor))"

text \<open>The inserts of \<open>init\<close>, in order.\<close>

definition directive_inserts :: "(string \<times> string) list" where
  "directive_inserts =
     [(''cache'', blocklistDirective), (''kubernetes'', gatewayDirective),
      (''forward'', peercacheDirective), (''forward'', raceDirective)]"

fun insert_all :: "(string \<times> string) list \<Rightarrow> string list \<Rightarrow> (panic, string list) result" where
  "insert_all [] ds = Ok ds"
| "insert_all ((anchor, name) # xs) ds =
     (case insertBefore anchor name ds of Err e \<Rightarrow> Err e | Ok ds' \<Rightarrow> insert_all xs ds')"

definition init_directives :: "string list \<Rightarrow> (panic, string list) result" where
  "init_directives ds = insert_all directive_inserts ds"

subsection \<open>The build information\<close>

text \<open>The stamped revision, or the toolchain's; \<open>None\<close> stands for missing build information.\<close>

fun vcs_setting :: "(string \<times> string) list \<Rightarrow> string" where
  "vcs_setting [] = ''unknown''"
| "vcs_setting ((k, v) # ss) = (if k = ''vcs.revision'' then v else vcs_setting ss)"

definition vcsRevision :: "string \<Rightarrow> (string \<times> string) list option \<Rightarrow> string" where
  "vcsRevision revision info =
     (if revision \<noteq> [] then revision
      else case info of None \<Rightarrow> ''unknown'' | Some settings \<Rightarrow> vcs_setting settings)"

text \<open>
  The gauge of the build information: one series, with the stamped version, the revision and
  the versions of CoreDNS and Go as labels. It is set to one.
\<close>

definition init_buildInfo ::
  "string \<Rightarrow> string \<Rightarrow> (string \<times> string) list option \<Rightarrow> string \<Rightarrow> string \<Rightarrow> (string list \<times> nat) list" where
  "init_buildInfo version revision info coreVersion goVersion =
     [([version, vcsRevision revision info, coreVersion, goVersion], 1)]"

lemmas directive_defs =
  blocklistDirective_def gatewayDirective_def peercacheDirective_def raceDirective_def

lemmas distribution_defs [go_eval] =
  directive_defs insertBefore_def directive_inserts_def init_directives_def vcsRevision_def

subsection \<open>Facts\<close>

lemma anchor_index_Some:
  "anchor_index a k ds = Some i \<Longrightarrow> k \<le> i \<and> i - k < length ds \<and> ds ! (i - k) = a \<and> a \<notin> set (take (i - k) ds)"
proof (induction a k ds rule: anchor_index.induct)
  case (2 a k d ds)
  show ?case
  proof (cases "d = a")
    case False
    with 2 have "Suc k \<le> i \<and> i - Suc k < length ds \<and> ds ! (i - Suc k) = a \<and> a \<notin> set (take (i - Suc k) ds)" by simp
    moreover from this have "Suc k \<le> i" by blast
    then have "i - k = Suc (i - Suc k)" by arith
    ultimately show ?thesis using False by simp
  qed (use 2 in auto)
qed simp

lemma anchor_index_None: "anchor_index a k ds = None \<longleftrightarrow> a \<notin> set ds"
  by (induction a k ds rule: anchor_index.induct) auto

text \<open>An insert splits the chain at the first occurrence of its anchor.\<close>

lemma insertBefore_Ok:
  "insertBefore a x ds = Ok ds' \<longleftrightarrow>
     x \<notin> set ds \<and> (\<exists>p q. ds = p @ a # q \<and> a \<notin> set p \<and> ds' = p @ x # a # q)"
proof -
  have "(\<exists>i. anchor_index a 0 ds = Some i \<and> ds' = take i ds @ x # drop i ds) \<longleftrightarrow>
      (\<exists>p q. ds = p @ a # q \<and> a \<notin> set p \<and> ds' = p @ x # a # q)"
  proof
    assume "\<exists>i. anchor_index a 0 ds = Some i \<and> ds' = take i ds @ x # drop i ds"
    then obtain i where i: "anchor_index a 0 ds = Some i" "ds' = take i ds @ x # drop i ds" by blast
    with anchor_index_Some [OF i(1)] have "i < length ds" "ds ! i = a" "a \<notin> set (take i ds)" by auto
    then have "drop i ds = a # drop (Suc i) ds" by (metis Cons_nth_drop_Suc)
    then show "\<exists>p q. ds = p @ a # q \<and> a \<notin> set p \<and> ds' = p @ x # a # q"
      using i(2) \<open>a \<notin> set (take i ds)\<close> by (metis append_take_drop_id)
  next
    assume "\<exists>p q. ds = p @ a # q \<and> a \<notin> set p \<and> ds' = p @ x # a # q"
    then obtain p q where pq: "ds = p @ a # q" "a \<notin> set p" "ds' = p @ x # a # q" by blast
    have "anchor_index a k (p @ a # q) = Some (k + length p)" for k
      using pq(2) by (induction p arbitrary: k) auto
    then show "\<exists>i. anchor_index a 0 ds = Some i \<and> ds' = take i ds @ x # drop i ds" using pq by simp
  qed
  then show ?thesis by (auto simp: insertBefore_def list_ex_iff split: option.splits)
qed

lemma insertBefore_Ok_iff: "(\<exists>ds'. insertBefore a x ds = Ok ds') \<longleftrightarrow> x \<notin> set ds \<and> a \<in> set ds"
  using insertBefore_Ok [of a x ds] by (metis in_set_conv_decomp split_list_first)

text \<open>Two directives next to each other, the first one right before the second.\<close>

definition adjacent :: "string \<Rightarrow> string \<Rightarrow> string list \<Rightarrow> bool" where
  "adjacent x a ds \<longleftrightarrow> (\<exists>p q. ds = p @ x # a # q)"

lemma adjacent_insert:
  assumes "adjacent x a (p @ b # q)" "b \<noteq> a"
  shows "adjacent x a (p @ y # b # q)"
proof -
  obtain u v where uv: "p @ b # q = u @ x # a # v" using assms(1) by (auto simp: adjacent_def)
  then consider (left) us where "u = p @ us" "b # q = us @ x # a # v"
    | (right) us where "p = u @ us" "us @ b # q = x # a # v"
    by (auto simp: append_eq_append_conv2)
  then show ?thesis
  proof cases
    case left
    have "p @ y # b # q = (p @ y # us) @ x # a # v" using left by simp
    then show ?thesis unfolding adjacent_def by blast
  next
    case right
    show ?thesis
    proof (cases us)
      case Nil
      then have "p @ y # b # q = (u @ [y]) @ x # a # v" using right by simp
      then show ?thesis unfolding adjacent_def by blast
    next
      case (Cons c us')
      then obtain us'' where us: "us = x # a # us''" using right assms(2) by (cases us') auto
      have "p @ y # b # q = u @ x # a # (us'' @ y # b # q)" using right us by simp
      then show ?thesis unfolding adjacent_def by blast
    qed
  qed
qed

lemma insertBefore_keeps:
  assumes "insertBefore b y ds = Ok ds'"
  shows "adjacent y b ds'" "b \<noteq> a \<Longrightarrow> adjacent x a ds \<Longrightarrow> adjacent x a ds'"
    "set ds' = insert y (set ds)" "filter (\<lambda>d. d \<noteq> y) ds' = ds" "y \<notin> set ds" "b \<in> set ds"
proof -
  obtain p q where pq: "y \<notin> set ds" "ds = p @ b # q" "ds' = p @ y # b # q"
    using assms by (auto simp: insertBefore_Ok)
  show "adjacent y b ds'" using pq by (auto simp: adjacent_def)
  show "adjacent x a ds'" if "b \<noteq> a" "adjacent x a ds" using adjacent_insert that pq by simp
  show "set ds' = insert y (set ds)" "y \<notin> set ds" "b \<in> set ds" using pq by auto
  have "filter (\<lambda>d. d \<noteq> y) ds = ds" using pq(1) by (auto simp: filter_id_conv)
  then show "filter (\<lambda>d. d \<noteq> y) ds' = ds" using pq by auto
qed

lemma takeWhile_anchor: "a \<notin> set p \<Longrightarrow> takeWhile (\<lambda>d. d \<noteq> a) (p @ a # q) = p"
  by (induction p) auto

definition own_directives :: "string list" where
  "own_directives = [blocklistDirective, gatewayDirective, peercacheDirective, raceDirective]"

lemma init_chain:
  "init_directives ds = Ok d4 \<longleftrightarrow>
     (\<exists>d1 d2 d3. insertBefore ''cache'' ''blocklist'' ds = Ok d1 \<and> insertBefore ''kubernetes'' ''k8s_gateway'' d1 = Ok d2 \<and>
        insertBefore ''forward'' ''peercache'' d2 = Ok d3 \<and> insertBefore ''forward'' ''race'' d3 = Ok d4)"
  by (auto simp: init_directives_def directive_inserts_def directive_defs split: sum.splits)

lemma init_result:
  assumes "init_directives ds = Ok d4"
  shows "filter (\<lambda>d. d \<notin> set own_directives) d4 = ds" "adjacent ''blocklist'' ''cache'' d4"
    "adjacent ''k8s_gateway'' ''kubernetes'' d4" "\<exists>p q. d4 = p @ [''peercache'', ''race'', ''forward''] @ q"
    "{''cache'', ''kubernetes'', ''forward''} \<subseteq> set ds" "set own_directives \<inter> set ds = {}"
proof -
  obtain d1 d2 d3 where i: "insertBefore ''cache'' ''blocklist'' ds = Ok d1" "insertBefore ''kubernetes'' ''k8s_gateway'' d1 = Ok d2"
    "insertBefore ''forward'' ''peercache'' d2 = Ok d3" "insertBefore ''forward'' ''race'' d3 = Ok d4"
    using assms unfolding init_chain by blast
  note k = insertBefore_keeps(1,3-6) [OF i(1)] insertBefore_keeps(3-6) [OF i(2)] insertBefore_keeps(3-6) [OF i(3)]
    insertBefore_keeps(4,5) [OF i(4)]
  have "filter (\<lambda>d. d \<notin> set own_directives) d4 =
      filter (\<lambda>d. d \<noteq> ''blocklist'') (filter (\<lambda>d. d \<noteq> ''k8s_gateway'') (filter (\<lambda>d. d \<noteq> ''peercache'') (filter (\<lambda>d. d \<noteq> ''race'') d4)))"
    by (simp add: own_directives_def directive_defs conj_ac)
  then show "filter (\<lambda>d. d \<notin> set own_directives) d4 = ds" by (simp only: k)
  obtain p q where 3: "''forward'' \<notin> set p" "d3 = p @ ''peercache'' # ''forward'' # q"
    using i(3) by (auto simp: insertBefore_Ok)
  obtain p' q' where 4: "''forward'' \<notin> set p'" "d3 = p' @ ''forward'' # q'" "d4 = p' @ ''race'' # ''forward'' # q'"
    using i(4) by (auto simp: insertBefore_Ok)
  have "d3 = (p @ [''peercache'']) @ ''forward'' # q" "''forward'' \<notin> set (p @ [''peercache''])" using 3 by simp_all
  with 4(1,2) have "p' = p @ [''peercache'']" by (metis takeWhile_anchor)
  then show "\<exists>p q. d4 = p @ [''peercache'', ''race'', ''forward''] @ q" using 4(3) by auto
  show "adjacent ''blocklist'' ''cache'' d4"
    using insertBefore_keeps(2) [OF i(4) _ insertBefore_keeps(2) [OF i(3) _ insertBefore_keeps(2) [OF i(2) _ k(1)]]] by simp
  show "adjacent ''k8s_gateway'' ''kubernetes'' d4"
    using insertBefore_keeps(2) [OF i(4) _ insertBefore_keeps(2) [OF i(3) _ insertBefore_keeps(1) [OF i(2)]]] by simp
  show "{''cache'', ''kubernetes'', ''forward''} \<subseteq> set ds" "set own_directives \<inter> set ds = {}"
    using k by (simp_all add: own_directives_def directive_defs)
qed

lemma init_succeeds:
  assumes "''cache'' \<in> set ds" "''kubernetes'' \<in> set ds" "''forward'' \<in> set ds" "set own_directives \<inter> set ds = {}"
  shows "\<exists>d4. init_directives ds = Ok d4"
proof -
  have own: "''blocklist'' \<notin> set ds" "''k8s_gateway'' \<notin> set ds" "''peercache'' \<notin> set ds" "''race'' \<notin> set ds"
    using assms(4) by (auto simp: own_directives_def directive_defs)
  have "\<exists>d1. insertBefore ''cache'' ''blocklist'' ds = Ok d1" using own assms by (simp add: insertBefore_Ok_iff)
  then obtain d1 where 1: "insertBefore ''cache'' ''blocklist'' ds = Ok d1" ..
  note s1 = insertBefore_keeps(3) [OF 1]
  have "\<exists>d2. insertBefore ''kubernetes'' ''k8s_gateway'' d1 = Ok d2" using s1 own assms by (simp add: insertBefore_Ok_iff)
  then obtain d2 where 2: "insertBefore ''kubernetes'' ''k8s_gateway'' d1 = Ok d2" ..
  note s2 = insertBefore_keeps(3) [OF 2]
  have "\<exists>d3. insertBefore ''forward'' ''peercache'' d2 = Ok d3" using s1 s2 own assms by (simp add: insertBefore_Ok_iff)
  then obtain d3 where 3: "insertBefore ''forward'' ''peercache'' d2 = Ok d3" ..
  note s3 = insertBefore_keeps(3) [OF 3]
  have "\<exists>d4. insertBefore ''forward'' ''race'' d3 = Ok d4" using s1 s2 s3 own assms by (simp add: insertBefore_Ok_iff)
  then show ?thesis unfolding init_chain using 1 2 3 by blast
qed

text \<open>
  C31: initialisation succeeds exactly when CoreDNS's chain has the three anchors and none of
  the distribution's own directives. The resulting chain is the upstream one with four
  entries spliced in: blocklist right before cache, \<open>k8s_gateway\<close> right before kubernetes,
  and peercache, race and forward one after the other; nothing else is moved, added or
  lost.
\<close>

theorem init_directives_order:
  "(\<exists>ds'. init_directives ds = Ok ds') = ({''cache'', ''kubernetes'', ''forward''} \<subseteq> set ds \<and> set own_directives \<inter> set ds = {}) \<and>
   (case init_directives ds of
      Err e \<Rightarrow> True
    | Ok ds' \<Rightarrow>
        filter (\<lambda>d. d \<notin> set own_directives) ds' = ds \<and> adjacent ''blocklist'' ''cache'' ds' \<and>
        adjacent ''k8s_gateway'' ''kubernetes'' ds' \<and> (\<exists>p q. ds' = p @ [''peercache'', ''race'', ''forward''] @ q))"
proof (rule conjI)
  show "(\<exists>ds'. init_directives ds = Ok ds') = ({''cache'', ''kubernetes'', ''forward''} \<subseteq> set ds \<and> set own_directives \<inter> set ds = {})"
  proof
    assume "\<exists>ds'. init_directives ds = Ok ds'"
    then obtain ds' where "init_directives ds = Ok ds'" ..
    from init_result(5,6) [OF this] show "{''cache'', ''kubernetes'', ''forward''} \<subseteq> set ds \<and> set own_directives \<inter> set ds = {}" ..
  next
    assume "{''cache'', ''kubernetes'', ''forward''} \<subseteq> set ds \<and> set own_directives \<inter> set ds = {}"
    then show "\<exists>ds'. init_directives ds = Ok ds'" by (intro init_succeeds) simp_all
  qed
next
  show "case init_directives ds of
      Err e \<Rightarrow> True
    | Ok ds' \<Rightarrow>
        filter (\<lambda>d. d \<notin> set own_directives) ds' = ds \<and> adjacent ''blocklist'' ''cache'' ds' \<and>
        adjacent ''k8s_gateway'' ''kubernetes'' ds' \<and> (\<exists>p q. ds' = p @ [''peercache'', ''race'', ''forward''] @ q)"
  proof (cases "init_directives ds")
    case (Inr ds')
    from init_result(1-4) [OF this] show ?thesis unfolding Inr sum.case by (intro conjI)
  qed simp
qed

subsection \<open>The order of a query through the chain\<close>

lemma insertBefore_distinct: "insertBefore b y ds = Ok ds' \<Longrightarrow> distinct ds \<Longrightarrow> distinct ds'"
  by (auto simp: insertBefore_Ok)

lemma init_distinct:
  assumes "init_directives ds = Ok d4" "distinct ds"
  shows "distinct d4"
proof -
  obtain d1 d2 d3 where "insertBefore ''cache'' ''blocklist'' ds = Ok d1" "insertBefore ''kubernetes'' ''k8s_gateway'' d1 = Ok d2"
    "insertBefore ''forward'' ''peercache'' d2 = Ok d3" "insertBefore ''forward'' ''race'' d3 = Ok d4"
    using assms(1) unfolding init_chain by blast
  then show ?thesis using assms(2) insertBefore_distinct by blast
qed

lemma subseq_set: "subseq xs ys \<Longrightarrow> x \<in> set xs \<Longrightarrow> x \<in> set ys"
  by (auto dest: list_emb_set)

lemma subseq_pair_before:
  assumes "subseq [x, y] (p @ y # q)" "y \<notin> set p" "y \<notin> set q"
  shows "x \<in> set p"
proof -
  obtain us vs where uv: "[x, y] = us @ vs" "subseq us p" "subseq vs (y # q)"
    using assms(1) by (auto elim: subseq_appendE)
  have "y \<notin> set us" using uv(2) assms(2) by (auto dest: subseq_set)
  then consider "us = []" "vs = [x, y]" | "us = [x]" "vs = [y]"
    using uv(1) by (auto simp: Cons_eq_append_conv)
  then show ?thesis
  proof cases
    case 1
    then have "subseq [x, y] q \<or> subseq [y] q" using uv(3) by (cases "x = y") auto
    then show ?thesis using assms(3) by (auto dest: subseq_set)
  next
    case 2
    then show ?thesis using uv(2) by (auto dest: subseq_set)
  qed
qed

lemma distinct_prefix:
  assumes "u @ x # a # v = p @ r" "distinct (p @ r)" "a \<in> set p"
  obtains v' where "p = u @ x # a # v'"
proof -
  consider (long) us where "p = u @ us" "x # a # v = us @ r" | (short) us where "u = p @ us" "us @ x # a # v = r"
    using assms(1) by (auto simp: append_eq_append_conv2)
  then show thesis
  proof cases
    case long
    show thesis
    proof (cases us)
      case Nil
      then have "a \<in> set r" using long(2) by (cases r) auto
      then show thesis using assms(2,3) by auto
    next
      case (Cons b us')
      show thesis
      proof (cases us')
        case Nil
        then have "a \<in> set r" using long(2) Cons by (cases r) auto
        then show thesis using assms(2,3) by auto
      next
        case (Cons c us'')
        then show thesis using long \<open>us = b # us'\<close> that by auto
      qed
    qed
  next
    case short
    then have "a \<in> set r" by auto
    then show thesis using assms(2,3) by auto
  qed
qed

text \<open>A sublist of a list without repetitions is what is left of it when the rest is dropped.\<close>

lemma subseq_distinct_filter:
  assumes "subseq xs ys" "distinct ys"
  shows "filter (\<lambda>y. y \<in> set xs) ys = xs"
  using assms
proof (induction rule: list_emb.induct)
  case (list_emb_Cons xs ys y)
  then have "y \<notin> set xs" by (auto dest: subseq_set)
  then show ?case using list_emb_Cons by simp
next
  case (list_emb_Cons2 x y xs ys)
  then have "filter (\<lambda>z. z \<in> set (x # xs)) ys = filter (\<lambda>z. z \<in> set xs) ys"
    by (intro filter_cong) auto
  then show ?case using list_emb_Cons2 by simp
qed simp

lemma init_order:
  assumes init: "init_directives ds = Ok ds'" and ds: "distinct ds" "subseq [''cache'', ''forward''] ds"
  shows "subseq [''blocklist'', ''cache'', ''peercache'', ''race'', ''forward''] ds'"
proof -
  obtain p q where pq: "ds' = p @ [''peercache'', ''race'', ''forward''] @ q" using init_result(4) [OF init] by blast
  obtain u v where uv: "ds' = u @ ''blocklist'' # ''cache'' # v" using init_result(2) [OF init] by (auto simp: adjacent_def)
  have dist: "distinct ds'" by (rule init_distinct [OF init ds(1)])
  have "subseq ds ds'" using subseq_filter_left [of "\<lambda>d. d \<notin> set own_directives" ds'] init_result(1) [OF init] by simp
  then have "subseq [''cache'', ''forward''] ((p @ [''peercache'', ''race'']) @ ''forward'' # q)"
    using ds(2) pq subseq_order.order_trans by fastforce
  then have "''cache'' \<in> set (p @ [''peercache'', ''race''])"
    by (rule subseq_pair_before) (use dist pq in auto)
  then have "''cache'' \<in> set p" by simp
  have eq: "u @ ''blocklist'' # ''cache'' # v = p @ ([''peercache'', ''race'', ''forward''] @ q)" using uv pq by simp
  have "distinct (p @ ([''peercache'', ''race'', ''forward''] @ q))" using dist pq by simp
  then obtain v' where p: "p = u @ ''blocklist'' # ''cache'' # v'"
    by (rule distinct_prefix [OF eq _ \<open>''cache'' \<in> set p\<close>])
  have "subseq ([''blocklist'', ''cache''] @ [''peercache'', ''race'', ''forward'']) ((u @ ''blocklist'' # ''cache'' # v') @ [''peercache'', ''race'', ''forward''] @ q)"
    by (intro list_emb_append_mono) (auto intro: list_emb_append2)
  then show ?thesis using pq p by simp
qed

text \<open>
  C32: the order in which a query meets the plugins, in any server block: CoreDNS builds the
  chain of a block from the directives \<open>K\<close> the block configures, in the order of its list.
  When that list names every directive once and has the cache before \<open>forward\<close>, then
  whichever of blocklist, cache, peercache, race and forward a block configures, its
  chain has exactly those among its plugins, each once and in this order. So a blocked
  name is answered before the cache, and peercache stands behind the cache and in front
  of whichever of race and forward resolves the query.
\<close>

theorem chain_order:
  assumes "init_directives ds = Ok ds'" "distinct ds" "subseq [''cache'', ''forward''] ds"
  shows "filter (\<lambda>d. d \<in> {''blocklist'', ''cache'', ''peercache'', ''race'', ''forward''}) (filter (\<lambda>d. d \<in> K) ds') =
    filter (\<lambda>d. d \<in> K) [''blocklist'', ''cache'', ''peercache'', ''race'', ''forward'']"
proof -
  let ?L = "[''blocklist'', ''cache'', ''peercache'', ''race'', ''forward'']"
  have "filter (\<lambda>d. d \<in> {''blocklist'', ''cache'', ''peercache'', ''race'', ''forward''}) ds' = ?L"
    using subseq_distinct_filter [OF init_order [OF assms] init_distinct [OF assms(1,2)]] by simp
  then have "filter (\<lambda>d. d \<in> K) (filter (\<lambda>d. d \<in> {''blocklist'', ''cache'', ''peercache'', ''race'', ''forward''}) ds') =
      filter (\<lambda>d. d \<in> K) ?L" by (rule arg_cong)
  then show ?thesis by (simp only: filter_filter conj_commute)
qed

text \<open>A block of the chart, which resolves with race and does not configure forward.\<close>

theorem chain_order_witness:
  "\<exists>ds'. init_directives [''log'', ''cache'', ''kubernetes'', ''forward''] = Ok ds' \<and>
     filter (\<lambda>d. d \<in> {''blocklist'', ''cache'', ''peercache'', ''race'', ''forward''})
       (filter (\<lambda>d. d \<in> {''log'', ''blocklist'', ''cache'', ''peercache'', ''race''}) ds') =
     [''blocklist'', ''cache'', ''peercache'', ''race'']"
proof -
  obtain ds' where i: "init_directives [''log'', ''cache'', ''kubernetes'', ''forward''] = Ok ds'"
    using init_succeeds [of "[''log'', ''cache'', ''kubernetes'', ''forward'']"] by (auto simp: own_directives_def directive_defs)
  have "distinct [''log'', ''cache'', ''kubernetes'', ''forward'']"
    "subseq [''cache'', ''forward''] [''log'', ''cache'', ''kubernetes'', ''forward'']" by simp_all
  from chain_order [OF i this, of "{''log'', ''blocklist'', ''cache'', ''peercache'', ''race''}"] i show ?thesis
    by (intro exI [of _ ds'] conjI) simp_all
qed

end
