(* ===== verification/Go_Duration.thy ===== *)
theory Go_Duration
  imports Go_Time Go_Netip
begin

text \<open>
  \<open>time.ParseDuration\<close>, with its 64-bit accumulators and its floating-point treatment of
  fractions. Unsigned 64-bit values are integers below \<open>2^64\<close> with the wrap-around
  written out.
\<close>

definition two63 :: int where "two63 = 2 ^ 63"

definition wrap_u64 :: "int \<Rightarrow> int" where "wrap_u64 x = x mod 2 ^ 64"

text \<open>\<open>leadingInt\<close>: the value of the leading digits and the rest, \<open>None\<close> on overflow.\<close>

fun leadingInt :: "int \<Rightarrow> string \<Rightarrow> (int \<times> string) option" where
  "leadingInt x [] = Some (x, [])"
| "leadingInt x (c # cs) =
     (if \<not> is_digit c then Some (x, c # cs)
      else if two63 div 10 < x then None
      else let x' = x * 10 + int (digit_val c)
           in if two63 < x' then None else leadingInt x' cs)"

text \<open>
  \<open>leadingFraction\<close>: the digits that fit, and ten to the power of their number; the
  digits after an overflow are skipped. The scale is a \<open>float64\<close>, exact up to \<open>10^22\<close>.
\<close>

fun leadingFraction :: "int \<Rightarrow> int \<Rightarrow> bool \<Rightarrow> string \<Rightarrow> int \<times> int \<times> string" where
  "leadingFraction x scale overflow [] = (x, scale, [])"
| "leadingFraction x scale overflow (c # cs) =
     (if \<not> is_digit c then (x, scale, c # cs)
      else if overflow then leadingFraction x scale True cs
      else if (two63 - 1) div 10 < x then leadingFraction x scale True cs
      else let y = x * 10 + int (digit_val c)
           in if two63 < y then leadingFraction x scale True cs
              else leadingFraction y (scale * 10) False cs)"

definition unit_of :: "string \<Rightarrow> int option" where
  "unit_of u =
     (if u = ''ns'' then Some 1
      else if u = ''us'' \<or> u = [CHR 0xC2, CHR 0xB5, CHR ''s''] \<or> u = [CHR 0xCE, CHR 0xBC, CHR ''s''] then Some 1000
      else if u = ''ms'' then Some 1000000
      else if u = ''s'' then Some second
      else if u = ''m'' then Some minute
      else if u = ''h'' then Some hour
      else None)"

definition unit_char :: "char \<Rightarrow> bool" where
  "unit_char c \<longleftrightarrow> c \<noteq> CHR ''.'' \<and> \<not> is_digit c"

text \<open>\<open>float64(f) * (float64(unit) / scale)\<close>, truncated to an unsigned integer.\<close>

definition fraction_part :: "int \<Rightarrow> int \<Rightarrow> int \<Rightarrow> int" where
  "fraction_part f unit scale = fl_trunc (fl (fl f 1 * fl unit scale) (2 ^ 1074 * 2 ^ 1074))"

text \<open>One number with its unit: the value, and the rest of the string.\<close>

definition parse_component :: "string \<Rightarrow> (int \<times> string) option" where
  "parse_component s =
     (case s of
        [] \<Rightarrow> None
      | c # _ \<Rightarrow>
         if \<not> (c = CHR ''.'' \<or> is_digit c) then None
         else case leadingInt 0 s of
           None \<Rightarrow> None
         | Some (v, s1) \<Rightarrow>
            (let pre = length s \<noteq> length s1;
                 (f, scale, s2, post) =
                   (if has_prefix s1 ''.''
                    then (case leadingFraction 0 1 False (drop 1 s1) of (f, scale, s2) \<Rightarrow>
                            (f, scale, s2, length (drop 1 s1) \<noteq> length s2))
                    else (0, 1, s1, False));
                 u = takeWhile unit_char s2;
                 s3 = dropWhile unit_char s2
             in if \<not> pre \<and> \<not> post then None
                else if u = [] then None
                else case unit_of u of
                  None \<Rightarrow> None
                | Some unit \<Rightarrow>
                    if two63 div unit < v then None
                    else if f > 0
                    then (let w = wrap_u64 (v * unit + fraction_part f unit scale)
                          in if two63 < w then None else Some (w, s3))
                    else Some (v * unit, s3)))"

lemma leadingInt_length: "leadingInt x s = Some (v, t) \<Longrightarrow> length t \<le> length s"
  by (induction x s rule: leadingInt.induct) (auto simp: Let_def split: if_splits)

lemma leadingInt_digit_length: "leadingInt x (c # s) = Some (v, t) \<Longrightarrow> is_digit c \<Longrightarrow> length t < length (c # s)"
  using leadingInt_length by (fastforce simp: Let_def split: if_splits)

lemma leadingFraction_length: "leadingFraction x sc ov s = (v, sc', t) \<Longrightarrow> length t \<le> length s"
  by (induction x sc ov s rule: leadingFraction.induct) (auto simp: Let_def split: if_splits)

lemma parse_component_length:
  assumes "parse_component s = Some (v, t)"
  shows "length t < length s"
proof -
  obtain c s' where s: "s = c # s'" using assms by (cases s) (auto simp: parse_component_def)
  obtain v1 s1 where 1: "leadingInt 0 s = Some (v1, s1)"
    using assms s by (auto simp: parse_component_def split: if_splits option.splits)
  have l1: "length s1 \<le> length s" using leadingInt_length [OF 1] .
  define r where "r = (if has_prefix s1 ''.'' then (case leadingFraction 0 1 False (drop 1 s1) of (f, scale, s2) \<Rightarrow>
                            (f, scale, s2, length (drop 1 s1) \<noteq> length s2)) else (0, 1, s1, False))"
  obtain f scale s2 post where r: "r = (f, scale, s2, post)" by (cases r) auto
  have l2: "length s2 \<le> length s1"
  proof (cases "has_prefix s1 ''.''")
    case True
    obtain a b c' where "leadingFraction 0 1 False (drop 1 s1) = (a, b, c')" by (metis prod_cases3)
    with r r_def True leadingFraction_length [OF this] show ?thesis by auto
  qed (use r r_def in auto)
  have "takeWhile unit_char s2 \<noteq> []" "t = dropWhile unit_char s2"
    using assms s 1 r [unfolded r_def]
    by (auto simp: parse_component_def Let_def split: if_splits option.splits)
  then have "length t < length s2" by (cases s2) (auto split: if_splits simp: le_imp_less_Suc length_dropWhile_le)
  then show ?thesis using l1 l2 by simp
qed

text \<open>The loop over the components, with the accumulator \<open>d\<close>.\<close>

function duration_loop :: "string \<Rightarrow> int \<Rightarrow> int option" where
  "duration_loop s d =
     (if s = [] then Some d
      else case parse_component s of
             None \<Rightarrow> None
           | Some (v, t) \<Rightarrow>
               (let d' = wrap_u64 (d + v) in if two63 < d' then None else duration_loop t d'))"
  by pat_completeness auto
termination
  by (relation "measure (\<lambda>(s, d). length s)") (auto dest: parse_component_length)

declare duration_loop.simps [simp del]

definition signed_duration :: "bool \<Rightarrow> int \<Rightarrow> int option" where
  "signed_duration neg d =
     (if neg then Some (wrap64 (- d)) else if two63 - 1 < d then None else Some d)"

definition ParseDuration :: "string \<Rightarrow> int option" where
  "ParseDuration s0 =
     (let neg = has_prefix s0 ''-'';
          s = (if has_prefix s0 ''-'' \<or> has_prefix s0 ''+'' then drop 1 s0 else s0)
      in if s = ''0'' then Some 0
         else if s = [] then None
         else case duration_loop s 0 of
                None \<Rightarrow> None
              | Some d \<Rightarrow> signed_duration neg d)"

lemmas duration_defs [go_eval] =
  two63_def wrap_u64_def unit_of_def unit_char_def signed_duration_def parse_component_def duration_loop.simps ParseDuration_def

subsection \<open>Facts\<close>

lemma duration_loop_range:
  "0 \<le> d \<Longrightarrow> d \<le> two63 \<Longrightarrow> duration_loop s d = Some r \<Longrightarrow> 0 \<le> r \<and> r \<le> two63"
proof (induction s d rule: duration_loop.induct)
  case (1 s d)
  show ?case
  proof (cases "s = []")
    case True
    then show ?thesis using 1 by (simp add: duration_loop.simps)
  next
    case False
    with 1(4) obtain v t where p: "parse_component s = Some (v, t)" "\<not> two63 < wrap_u64 (d + v)"
      "duration_loop t (wrap_u64 (d + v)) = Some r"
      by (subst (asm) duration_loop.simps) (auto simp: Let_def split: option.splits if_splits)
    have "0 \<le> wrap_u64 (d + v)" by (simp add: wrap_u64_def)
    then show ?thesis using 1(1) [OF False p(1) refl refl p(2)] p(2,3) by simp
  qed
qed

lemma signed_duration_range:
  assumes "signed_duration neg e = Some d" "0 \<le> e"
  shows "minDuration \<le> d \<and> d \<le> maxDuration"
proof (cases neg)
  case True
  then have "d = wrap64 (- e)" using assms(1) by (simp add: signed_duration_def)
  then show ?thesis
    using pos_mod_bound [of "2 ^ 64" "- e + 2 ^ 63"] by (simp add: wrap64_def minDuration_def maxDuration_def)
next
  case False
  then have "d = e" "\<not> two63 - 1 < e" using assms(1) by (auto simp: signed_duration_def split: if_splits)
  then show ?thesis using assms(2) by (simp add: two63_def minDuration_def maxDuration_def)
qed

lemma ParseDuration_cases:
  assumes "ParseDuration s = Some d"
  obtains "d = 0" | neg r e where "duration_loop r 0 = Some e" "signed_duration neg e = Some d"
  using assms unfolding ParseDuration_def Let_def by (auto split: if_split_asm option.split_asm)

lemma ParseDuration_range: "ParseDuration s = Some d \<Longrightarrow> minDuration \<le> d \<and> d \<le> maxDuration"
proof (erule ParseDuration_cases)
  fix neg r e
  assume r: "duration_loop r 0 = Some e" "signed_duration neg e = Some d"
  have "0 \<le> e" using duration_loop_range [OF _ _ r(1)] by (simp add: two63_def)
  with r(2) show ?thesis by (rule signed_duration_range)
qed (simp add: minDuration_def maxDuration_def)

text \<open>A whole number and a unit, as the configurations write durations.\<close>

lemma leadingInt_digits:
  "list_all is_digit ds \<Longrightarrow> (rest = [] \<or> \<not> is_digit (hd rest)) \<Longrightarrow> int (dec_value n ds) \<le> two63 \<Longrightarrow>
   leadingInt (int n) (ds @ rest) = Some (int (dec_value n ds), rest)"
proof (induction ds arbitrary: n)
  case Nil
  then show ?case by (cases rest) auto
next
  case (Cons c ds)
  have mono: "k \<le> dec_value k ds" for k
  proof (induction ds arbitrary: k)
    case (Cons c ds)
    have "k \<le> k * 10 + digit_val c" by simp
    also have "\<dots> \<le> dec_value (k * 10 + digit_val c) ds" by (rule Cons)
    finally show ?case by simp
  qed simp
  have "int (n * 10 + digit_val c) \<le> two63" using mono [of "n * 10 + digit_val c"] Cons.prems(3) by simp
  then have "\<not> two63 div 10 < int n" "\<not> two63 < int n * 10 + int (digit_val c)" by (auto simp: two63_def)
  then have "leadingInt (int n) ((c # ds) @ rest) = leadingInt (int n * 10 + int (digit_val c)) (ds @ rest)"
    using Cons.prems(1) by (simp add: Let_def)
  also have "int n * 10 + int (digit_val c) = int (n * 10 + digit_val c)" by simp
  also have "leadingInt \<dots> (ds @ rest) = Some (int (dec_value (n * 10 + digit_val c) ds), rest)"
    by (rule Cons.IH) (use Cons.prems in simp_all)
  finally show ?case by simp
qed

lemma ParseDuration_whole:
  assumes "unit_of u = Some k" "int n * k < two63"
  shows "ParseDuration (itoa n @ u) = Some (int n * k)"
proof -
  have u: "u \<noteq> []" "list_all unit_char u" "0 < k" "\<not> has_prefix u ''.''" "\<not> is_digit (hd u)"
    using assms(1) by (auto simp: unit_of_def unit_char_def is_digit_def second_def minute_def hour_def split: if_splits)
  obtain c cs where c: "itoa n = c # cs" "is_digit c" using itoa_digits [of n] by (cases "itoa n") auto
  have n: "int n \<le> two63 div k" "int n \<le> two63"
  proof -
    show "int n \<le> two63 div k" using zdiv_mono1 [of "int n * k" two63 k] assms(2) u(3) by simp
    have "int n * 1 \<le> int n * k" using u(3) by (intro mult_left_mono) auto
    then show "int n \<le> two63" using assms(2) by simp
  qed
  have "leadingInt 0 (itoa n @ u) = Some (int n, u)"
    using leadingInt_digits [of "itoa n" u 0] itoa_digits [of n] u n by simp
  moreover have t: "takeWhile unit_char u = u" "dropWhile unit_char u = []"
    using u(2) by (simp_all add: list_all_iff takeWhile_eq_all_conv dropWhile_eq_Nil_conv)
  ultimately have pc: "parse_component (itoa n @ u) = Some (int n * k, [])"
    using u(1,4) c n(1) assms(1)
    by (simp add: parse_component_def Let_def t del: leadingInt.simps takeWhile.simps dropWhile.simps)
  have w: "wrap_u64 (0 + int n * k) = int n * k"
    using assms(2) u(3) by (simp add: wrap_u64_def two63_def)
  have "duration_loop (itoa n @ u) 0 = Some (int n * k)"
    using pc w assms(2) u(1) by (simp add: duration_loop.simps)
  moreover have "\<not> has_prefix (itoa n @ u) ''-''" "\<not> has_prefix (itoa n @ u) ''+''" "itoa n @ u \<noteq> ''0''"
    using c u(1) by (auto simp: is_digit_def)
  ultimately show ?thesis using u(1) assms(2) by (simp add: ParseDuration_def signed_duration_def)
qed

end
