(* ===== verification/Go_Url.thy ===== *)
theory Go_Url
  imports Go_Netip
begin

text \<open>
  The part of \<open>net/url.Parse\<close> the configuration relies on: whether a string parses, its
  scheme and its host. The query is never decoded by \<open>Parse\<close>, so it does not appear.
  A colon in a host that is not an IP literal starts the port and occurs once, as the
  library requires since Go 1.26.
\<close>

subsection \<open>Character classes\<close>

definition is_alpha :: "char \<Rightarrow> bool" where
  "is_alpha c \<longleftrightarrow> (65 \<le> byte c \<and> byte c \<le> 90) \<or> (97 \<le> byte c \<and> byte c \<le> 122)"

definition ctl_byte :: "char \<Rightarrow> bool" where
  "ctl_byte c \<longleftrightarrow> byte c < 32 \<or> byte c = 127"

text \<open>\<open>shouldEscape(c, encodeHost)\<close>, negated.\<close>

definition host_char :: "char \<Rightarrow> bool" where
  "host_char c \<longleftrightarrow> is_alpha c \<or> is_digit c \<or> c \<in> set ''!$&()*+,;=:[]<>-_.~'' \<or> c = CHR 0x22 \<or> c = CHR 0x27"

definition userinfo_char :: "char \<Rightarrow> bool" where
  "userinfo_char c \<longleftrightarrow> is_alpha c \<or> is_digit c \<or> c \<in> set ''-._:~!$&()*+,;=%@'' \<or> c = CHR 0x27"

subsection \<open>Percent-decoding\<close>

datatype encoding = EncodePath | EncodeUserPassword | EncodeHost | EncodeZone | EncodeFragment

text \<open>\<open>unescape\<close>: \<open>None\<close> is an error.\<close>

fun unescape :: "encoding \<Rightarrow> string \<Rightarrow> string option" where
  "unescape mode [] = Some []"
| "unescape mode (c # cs) =
     (if c = CHR ''%'' then
        (case cs of
           h1 # h2 # rest \<Rightarrow>
             (case (hex_val h1, hex_val h2) of
                (Some a, Some b) \<Rightarrow>
                  (let v = char_of (a * 16 + b); pct = (h1 = CHR ''2'' \<and> h2 = CHR ''5'')
                   in if mode = EncodeHost \<and> a < 8 \<and> \<not> pct then None
                      else if mode = EncodeZone \<and> \<not> pct \<and> v \<noteq> CHR '' '' \<and> byte v < 128 \<and> \<not> host_char v then None
                      else if mode = EncodeZone \<and> \<not> pct \<and> byte v \<ge> 128 then None
                      else map_option ((#) v) (unescape mode rest))
              | _ \<Rightarrow> None)
         | _ \<Rightarrow> None)
      else if (mode = EncodeHost \<or> mode = EncodeZone) \<and> byte c < 128 \<and> \<not> host_char c then None
      else map_option ((#) c) (unescape mode cs))"

subsection \<open>Scheme and authority\<close>

text \<open>
  \<open>getScheme\<close>: the scheme and the rest; \<open>None\<close> for a colon in front. \<open>p\<close> is what has been
  read so far.
\<close>

fun getScheme :: "string \<Rightarrow> string \<Rightarrow> (string \<times> string) option" where
  "getScheme p [] = Some ([], p)"
| "getScheme p (c # cs) =
     (if is_alpha c then getScheme (p @ [c]) cs
      else if is_digit c \<or> c \<in> set ''+-.'' then
        (if p = [] then Some ([], p @ c # cs) else getScheme (p @ [c]) cs)
      else if c = CHR '':'' then (if p = [] then None else Some (p, cs))
      else Some ([], p @ c # cs))"

definition validOptionalPort :: "string \<Rightarrow> bool" where
  "validOptionalPort pt \<longleftrightarrow> pt = [] \<or> hd pt = CHR '':'' \<and> list_all is_digit (tl pt)"

text \<open>The index of \<open>%25\<close>.\<close>

fun zone_index :: "string \<Rightarrow> nat option" where
  "zone_index [] = None"
| "zone_index (c # cs) = (if has_prefix (c # cs) ''%25'' then Some 0 else map_option Suc (zone_index cs))"

definition parseHost :: "string \<Rightarrow> string option" where
  "parseHost h =
     (case last_index_byte CHR ''['' h of
        Some (Suc _) \<Rightarrow> None
      | Some 0 \<Rightarrow>
          (case last_index_byte CHR '']'' h of
             None \<Rightarrow> None
           | Some e \<Rightarrow>
               (let colonPort = drop (e + 1) h; hostname = drop 1 (take e h);
                    lit = (case zone_index hostname of
                             Some z \<Rightarrow>
                               (case (unescape EncodeHost (take z hostname), unescape EncodeZone (drop z hostname)) of
                                  (Some a, Some b) \<Rightarrow> Some (a @ b) | _ \<Rightarrow> None)
                           | None \<Rightarrow> unescape EncodeHost hostname)
                in if \<not> validOptionalPort colonPort then None
                   else case (unescape EncodeHost colonPort, lit) of
                     (Some pt, Some l) \<Rightarrow>
                       (case parse_addr l of
                          Some (V6 _ _) \<Rightarrow> Some (''['' @ l @ '']'' @ pt)
                        | _ \<Rightarrow> None)
                   | _ \<Rightarrow> None))
      | None \<Rightarrow>
          (case index_byte CHR '':'' h of
             Some i \<Rightarrow> if validOptionalPort (drop i h) then unescape EncodeHost h else None
           | None \<Rightarrow> unescape EncodeHost h))"

definition parseAuthority :: "string \<Rightarrow> string option" where
  "parseAuthority a =
     (case last_index_byte CHR ''@'' a of
        None \<Rightarrow> parseHost a
      | Some i \<Rightarrow>
          (case parseHost (drop (i + 1) a) of
             None \<Rightarrow> None
           | Some h \<Rightarrow>
               (let user = take i a
                in if \<not> list_all userinfo_char user then None
                   else case index_byte CHR '':'' user of
                     None \<Rightarrow> (if unescape EncodeUserPassword user = None then None else Some h)
                   | Some j \<Rightarrow>
                       if unescape EncodeUserPassword (take j user) = None \<or>
                          unescape EncodeUserPassword (drop (j + 1) user) = None
                       then None else Some h)))"

subsection \<open>Parse\<close>

record url =
  url_Scheme :: string
  url_Host :: string

text \<open>\<open>strings.Cut\<close> at a byte.\<close>

definition cut :: "char \<Rightarrow> string \<Rightarrow> string \<times> string" where
  "cut c s = (case index_byte c s of None \<Rightarrow> (s, []) | Some i \<Rightarrow> (take i s, drop (i + 1) s))"

text \<open>\<open>parse\<close> without the fragment.\<close>

definition parse_noFrag :: "(nat \<Rightarrow> nat) \<Rightarrow> string \<Rightarrow> url option" where
  "parse_noFrag ul raw =
     (if list_ex ctl_byte raw then None
      else if raw = ''*'' then Some \<lparr>url_Scheme = [], url_Host = []\<rparr>
      else case getScheme [] raw of
        None \<Rightarrow> None
      | Some (sch, rest0) \<Rightarrow>
          (let scheme = to_lower ul sch;
               rest = fst (cut CHR ''?'' rest0)
           in if \<not> has_prefix rest ''/'' \<and> scheme \<noteq> [] then Some \<lparr>url_Scheme = scheme, url_Host = []\<rparr>
              else if \<not> has_prefix rest ''/'' \<and> CHR '':'' \<in> set (fst (cut CHR ''/'' rest)) then None
              else if (scheme \<noteq> [] \<or> \<not> has_prefix rest ''///'') \<and> has_prefix rest ''//'' then
                (let auth0 = drop 2 rest;
                     (authority, path) = (case index_byte CHR ''/'' auth0 of
                        None \<Rightarrow> (auth0, []) | Some i \<Rightarrow> (take i auth0, drop i auth0))
                 in case parseAuthority authority of
                      None \<Rightarrow> None
                    | Some h \<Rightarrow> if unescape EncodePath path = None then None
                                else Some \<lparr>url_Scheme = scheme, url_Host = h\<rparr>)
              else if unescape EncodePath rest = None then None
              else Some \<lparr>url_Scheme = scheme, url_Host = []\<rparr>))"

definition url_Parse :: "(nat \<Rightarrow> nat) \<Rightarrow> string \<Rightarrow> url option" where
  "url_Parse ul raw =
     (case cut CHR ''#'' raw of (u, frag) \<Rightarrow>
        (case parse_noFrag ul u of
           None \<Rightarrow> None
         | Some r \<Rightarrow> if unescape EncodeFragment frag = None then None else Some r))"

lemmas url_defs [go_eval] =
  is_alpha_def ctl_byte_def host_char_def userinfo_char_def validOptionalPort_def parseHost_def
  parseAuthority_def cut_def parse_noFrag_def url_Parse_def

subsection \<open>Facts\<close>

definition scheme_char :: "char \<Rightarrow> bool" where
  "scheme_char c \<longleftrightarrow> is_alpha c \<or> is_digit c \<or> c \<in> set ''+-.''"

lemma getScheme_split:
  "getScheme p s = Some (sch, rest) \<Longrightarrow> sch \<noteq> [] \<Longrightarrow> list_all scheme_char p \<Longrightarrow>
   p @ s = sch @ CHR '':'' # rest \<and> list_all scheme_char sch"
proof (induction p s rule: getScheme.induct)
  case (2 p c cs)
  show ?case
  proof (cases "is_alpha c \<or> is_digit c \<or> c \<in> set ''+-.''")
    case True
    then have "scheme_char c" by (simp add: scheme_char_def)
    moreover have "getScheme (p @ [c]) cs = Some (sch, rest)"
      using "2.prems" True by (auto split: if_splits)
    moreover have "\<not> is_alpha c \<Longrightarrow> p \<noteq> []" using "2.prems" True by auto
    ultimately show ?thesis using "2.IH" "2.prems"(2,3) True by (cases "is_alpha c") auto
  next
    case False
    then show ?thesis using "2.prems" by (auto split: if_splits)
  qed
qed auto

lemma getScheme_alpha:
  "list_all is_alpha sch \<Longrightarrow> p @ sch \<noteq> [] \<Longrightarrow> getScheme p (sch @ CHR '':'' # rest) = Some (p @ sch, rest)"
proof (induction sch arbitrary: p)
  case Nil
  then show ?case by (simp add: is_alpha_def is_digit_def byte_def)
qed simp

lemma scheme_ascii: "list_all scheme_char s \<Longrightarrow> is_ascii s"
  by (auto simp: is_ascii_def list_all_iff scheme_char_def is_alpha_def is_digit_def less_eq_char_byte byte_def)

text \<open>A parsed URL with a scheme and a host has the shape \<open>scheme://authority\<close>.\<close>

lemma url_Parse_shape:
  assumes "url_Parse ul raw = Some u" "url_Scheme u \<noteq> []" "url_Host u \<noteq> []"
  obtains sch rest where "raw = sch @ ''://'' @ rest" "url_Scheme u = map lower_byte sch" "list_all scheme_char sch"
proof -
  obtain v frag where cu: "cut CHR ''#'' raw = (v, frag)" by (cases "cut CHR ''#'' raw")
  then obtain more where raw: "raw = v @ more"
    by (auto simp: cut_def split: option.splits) (metis append_take_drop_id)
  have p: "parse_noFrag ul v = Some u" using assms(1) cu by (auto simp: url_Parse_def split: option.splits if_splits)
  obtain sch rest0 where g: "getScheme [] v = Some (sch, rest0)"
    using p assms(2) by (auto simp: parse_noFrag_def split: if_splits option.splits)
  obtain rest1 q where c0: "cut CHR ''?'' rest0 = (rest1, q)" by (cases "cut CHR ''?'' rest0")
  then obtain more1 where rest0: "rest0 = rest1 @ more1"
    by (auto simp: cut_def split: option.splits) (metis append_take_drop_id)
  have s: "url_Scheme u = to_lower ul sch" and pre: "has_prefix rest1 ''//''"
    using p g c0 assms(2,3) by (auto simp: parse_noFrag_def Let_def split: if_splits option.splits prod.splits)
  have "sch \<noteq> []" using s assms(2) by (auto simp: to_lower_def is_ascii_def)
  from getScheme_split [OF g this] have sp: "v = sch @ CHR '':'' # rest0" "list_all scheme_char sch" by auto
  obtain r2 where "rest1 = ''//'' @ r2" using pre by (auto simp: has_prefix_iff)
  then have "raw = sch @ ''://'' @ (r2 @ more1 @ more)" using raw sp(1) rest0 by simp
  moreover have "url_Scheme u = map lower_byte sch" using s to_lower_ascii [OF scheme_ascii [OF sp(2)]] by simp
  ultimately show thesis using that sp(2) by blast
qed

text \<open>Ordinary URLs: letters, digits, dots, hyphens and underscores.\<close>

definition word_char :: "char \<Rightarrow> bool" where
  "word_char c \<longleftrightarrow> is_alpha c \<or> is_digit c \<or> c \<in> set ''-._''"

lemma word_charD:
  assumes "word_char c"
  shows "host_char c" "\<not> ctl_byte c" "c \<noteq> CHR ''%''" "c \<notin> set '':/?#@[]''"
proof -
  show "host_char c" using assms by (auto simp: word_char_def host_char_def)
  have "45 \<le> byte c \<and> byte c \<le> 122 \<and> c \<notin> set '':/?#@[]%''"
    using assms by (auto simp: word_char_def is_alpha_def is_digit_def less_eq_char_byte byte_def)
  then show "\<not> ctl_byte c" "c \<noteq> CHR ''%''" "c \<notin> set '':/?#@[]''" by (auto simp: ctl_byte_def)
qed

lemma unescape_plain:
  assumes "list_all (\<lambda>c. c \<noteq> CHR ''%'' \<and> (mode = EncodeHost \<or> mode = EncodeZone \<longrightarrow> host_char c)) s"
  shows "unescape mode s = Some s"
  using assms by (induction s) auto

lemma index_byte_notin: "c \<notin> set s \<Longrightarrow> index_byte c s = None"
  by (simp add: index_byte_None)

lemma cut_notin: "c \<notin> set s \<Longrightarrow> cut c s = (s, [])"
  by (simp add: cut_def index_byte_notin)

lemma url_Parse_plain:
  assumes s: "list_all is_alpha sch" "sch \<noteq> []" "map lower_byte sch = sch"
    and h: "list_all word_char h" "h \<noteq> []"
    and p: "path = [] \<or> (\<exists>q. path = CHR ''/'' # q \<and> list_all (\<lambda>c. word_char c \<or> c = CHR ''/'') q)"
  shows "url_Parse ul (sch @ ''://'' @ h @ path) = Some \<lparr>url_Scheme = sch, url_Host = h\<rparr>"
proof -
  let ?raw = "sch @ ''://'' @ h @ path"
  have notin: "c \<notin> set sch" "c \<notin> set h" if "c \<in> set '':/?#@[]''" for c
    using that s(1) h(1) word_charD(4) [of c] unfolding list_all_iff word_char_def by blast+
  have pchars: "c \<notin> set path" if "c \<in> set '':?#@[]%''" for c
  proof
    assume "c \<in> set path"
    then have "word_char c \<or> c = CHR ''/''" using p by (auto simp: list_all_iff)
    moreover have "\<not> word_char c" using that word_charD(3,4) [of c] by auto
    ultimately show False using that by auto
  qed
  have A: "\<not> list_ex ctl_byte ?raw"
  proof -
    have "\<not> ctl_byte c" if "is_alpha c" for c
      using that by (auto simp: is_alpha_def ctl_byte_def less_eq_char_byte byte_def)
    moreover have "\<not> ctl_byte CHR ''/''" "\<not> ctl_byte CHR '':''" by (simp_all add: ctl_byte_def byte_def)
    moreover from this have "\<not> ctl_byte c" if "c \<in> set path" for c using that p word_charD(2) by (fastforce simp: list_all_iff)
    ultimately show ?thesis using s(1) h(1) word_charD(2) by (auto simp: list_ex_iff list_all_iff)
  qed
  have B: "?raw \<noteq> ''*''" using s(2) by (cases sch) auto
  have C: "getScheme [] ?raw = Some (sch, ''//'' @ h @ path)" using getScheme_alpha [OF s(1), of "[]" "''//'' @ h @ path"] s(2) by simp
  have low: "to_lower ul sch = sch"
    using to_lower_ascii [of sch ul] s by (simp add: scheme_ascii scheme_char_def list_all_iff)
  have D: "cut CHR ''?'' (''//'' @ h @ path) = (''//'' @ h @ path, [])"
    using notin [of "CHR ''?''"] pchars [of "CHR ''?''"] by (intro cut_notin) simp
  have auth: "(case index_byte CHR ''/'' (h @ path) of None \<Rightarrow> (h @ path, []) | Some i \<Rightarrow> (take i (h @ path), drop i (h @ path))) = (h, path)"
    using p notin [of "CHR ''/''"] by (auto simp: index_byte_notin)
  have pa: "parseAuthority h = Some h"
  proof -
    have n: "last_index_byte c h = None" if "c \<in> set '':/?#@[]''" for c
      using notin [OF that] by (simp add: last_index_byte_def index_byte_notin)
    have "unescape EncodeHost h = Some h" by (rule unescape_plain) (use h(1) word_charD(1,3) in \<open>auto simp: list_all_iff\<close>)
    then show ?thesis
      using n [of "CHR ''@''"] n [of "CHR ''[''"] notin [of "CHR '':''"]
      by (simp add: parseAuthority_def parseHost_def index_byte_notin)
  qed
  have up: "unescape EncodePath path = Some path"
    by (rule unescape_plain) (use pchars [of "CHR ''%''"] in \<open>auto simp: list_all_iff\<close>)
  have pre: "has_prefix (''//'' @ h @ path) ''/''" "has_prefix (''//'' @ h @ path) ''//''" "drop 2 (''//'' @ h @ path) = h @ path"
    by simp_all
  have "parse_noFrag ul ?raw = Some \<lparr>url_Scheme = sch, url_Host = h\<rparr>"
    unfolding parse_noFrag_def if_not_P [OF A] if_not_P [OF B] C option.case prod.case Let_def low D fst_conv pre auth pa up
    using s(2) by simp
  moreover have "cut CHR ''#'' ?raw = (?raw, [])"
    using notin [of "CHR ''#''"] pchars [of "CHR ''#''"] by (intro cut_notin) simp
  ultimately show ?thesis by (simp add: url_Parse_def)
qed

end
