(* ===== verification/Blocklist_Setup.thy ===== *)
theory Blocklist_Setup
  imports Blocklist Go_Duration Go_Url Corefile
begin

text \<open>
  The configuration of the blocklist plugin (\<open>plugin/blocklist/setup.go\<close>): the block of its
  directive, the checks on URLs, allow entries, bootstrap servers and durations, and the
  plugin state that results.
\<close>

subsection \<open>Arguments\<close>

datatype bl_config_error =
  BlConfiguredTwice | BlTakesNoArguments | BlArgErr | NotAValidURL string | MustUseHTTP string |
  HasNoHost string | NotADomainName string | MustBeAnIP string | NotAHostname string |
  InvalidPort string | NotADuration string string | MustBePositive string int | TooShort int |
  BlUnknownProperty string | NeedsURL

definition defaultRefresh :: int where "defaultRefresh = 24 * hour"

definition defaultReadyTimeout :: int where "defaultReadyTimeout = 60 * second"

definition defaultBootstrapDNS :: "string list" where
  "defaultBootstrapDNS = [''1.1.1.1:53'', ''9.9.9.9:53'']"

definition durationArg :: "string \<Rightarrow> string list \<Rightarrow> (bl_config_error, int) result" where
  "durationArg prop args =
     (case args of
        [a] \<Rightarrow>
          (case ParseDuration a of
             None \<Rightarrow> Err (NotADuration prop a)
           | Some d \<Rightarrow> if d \<le> 0 then Err (MustBePositive prop d) else Ok d)
      | _ \<Rightarrow> Err BlArgErr)"

definition validateURL :: "(nat \<Rightarrow> nat) \<Rightarrow> string \<Rightarrow> bl_config_error option" where
  "validateURL ul raw =
     (case url_Parse ul raw of
        None \<Rightarrow> Some (NotAValidURL raw)
      | Some u \<Rightarrow>
          if url_Scheme u \<noteq> ''http'' \<and> url_Scheme u \<noteq> ''https'' then Some (MustUseHTTP raw)
          else if url_Host u = [] then Some (HasNoHost raw)
          else None)"

definition normalizeDNSAddr :: "string \<Rightarrow> (bl_config_error, string) result" where
  "normalizeDNSAddr raw =
     (case parse_addr raw of
        Some addr \<Rightarrow> Ok (join_host_port (addr_string addr) ''53'')
      | None \<Rightarrow>
          (case split_host_port raw of
             None \<Rightarrow> Err (MustBeAnIP raw)
           | Some (host, pt) \<Rightarrow>
               (case parse_addr host of
                  None \<Rightarrow> Err (NotAHostname raw)
                | Some addr \<Rightarrow>
                    (case atoi pt of
                       None \<Rightarrow> Err (InvalidPort raw)
                     | Some p \<Rightarrow>
                         if p < 1 \<or> p > 65535 then Err (InvalidPort raw)
                         else Ok (join_host_port (addr_string addr) pt)))))"

subsection \<open>The block\<close>

text \<open>The three loops over the arguments of a line.\<close>

fun add_urls :: "(nat \<Rightarrow> nat) \<Rightarrow> string list \<Rightarrow> string list \<Rightarrow> (bl_config_error, string list) result" where
  "add_urls ul [] us = Ok us"
| "add_urls ul (raw # rs) us =
     (case validateURL ul raw of Some e \<Rightarrow> Err e | None \<Rightarrow> add_urls ul rs (us @ [raw]))"

fun add_allow :: "(nat \<Rightarrow> nat) \<Rightarrow> string list \<Rightarrow> string list \<Rightarrow> (bl_config_error, string list) result" where
  "add_allow ul [] as = Ok as"
| "add_allow ul (raw # rs) as =
     (case normalizeEntry ul raw of
        None \<Rightarrow> Err (NotADomainName raw)
      | Some name \<Rightarrow> add_allow ul rs (as @ [name]))"

fun add_bootstrap :: "string list \<Rightarrow> string list \<Rightarrow> (bl_config_error, string list) result" where
  "add_bootstrap [] bs = Ok bs"
| "add_bootstrap (raw # rs) bs =
     (case normalizeDNSAddr raw of Err e \<Rightarrow> Err e | Ok addr \<Rightarrow> add_bootstrap rs (bs @ [addr]))"

text \<open>One line of the block; the state is the plugin and the local \<open>bootstrap\<close>.\<close>

definition bl_property ::
  "(nat \<Rightarrow> nat) \<Rightarrow> string \<Rightarrow> string list \<Rightarrow> Blocklist \<times> string list \<Rightarrow>
   (bl_config_error, Blocklist \<times> string list) result" where
  "bl_property ul name args st =
     (case st of (b, boot) \<Rightarrow>
        if name = ''url'' then
          (if args = [] then Err BlArgErr
           else case add_urls ul args (urls b) of Err e \<Rightarrow> Err e | Ok us \<Rightarrow> Ok (b\<lparr>urls := us\<rparr>, boot))
        else if name = ''allow'' then
          (if args = [] then Err BlArgErr
           else case add_allow ul args (allow_list b) of Err e \<Rightarrow> Err e | Ok as \<Rightarrow> Ok (b\<lparr>allow_list := as\<rparr>, boot))
        else if name = ''bootstrap_dns'' then
          (if args = [] then Err BlArgErr
           else case add_bootstrap args boot of Err e \<Rightarrow> Err e | Ok bs \<Rightarrow> Ok (b, bs))
        else if name = ''refresh'' then
          (case durationArg name args of
             Err e \<Rightarrow> Err e
           | Ok d \<Rightarrow> if d < minute then Err (TooShort d) else Ok (b\<lparr>refresh := d\<rparr>, boot))
        else if name = ''ready_timeout'' then
          (case durationArg name args of Err e \<Rightarrow> Err e | Ok d \<Rightarrow> Ok (b\<lparr>readyTimeout := d\<rparr>, boot))
        else Err (BlUnknownProperty name))"

fun bl_block ::
  "(nat \<Rightarrow> nat) \<Rightarrow> (string \<times> string list) list \<Rightarrow> Blocklist \<times> string list \<Rightarrow>
   (bl_config_error, Blocklist \<times> string list) result" where
  "bl_block ul [] st = Ok st"
| "bl_block ul ((name, args) # ls) st =
     (case bl_property ul name args st of Err e \<Rightarrow> Err e | Ok st' \<Rightarrow> bl_block ul ls st')"

fun bl_stanzas ::
  "(nat \<Rightarrow> nat) \<Rightarrow> stanza list \<Rightarrow> bool \<Rightarrow> Blocklist \<times> string list \<Rightarrow>
   (bl_config_error, Blocklist \<times> string list) result" where
  "bl_stanzas ul [] configured st = Ok st"
| "bl_stanzas ul (z # zs) configured st =
     (if configured then Err BlConfiguredTwice
      else if st_args z \<noteq> [] then Err BlTakesNoArguments
      else case bl_block ul (st_block z) st of Err e \<Rightarrow> Err e | Ok st' \<Rightarrow> bl_stanzas ul zs True st')"

definition bl_new :: Blocklist where
  "bl_new =
     \<lparr>urls = [], allow_list = [], bootstrap = newBootstrapResolver [], refresh = defaultRefresh,
      readyTimeout = defaultReadyTimeout, current = None, ready = False, lastGood = Map.empty\<rparr>"

definition bl_parseConfig :: "(nat \<Rightarrow> nat) \<Rightarrow> stanza list \<Rightarrow> (bl_config_error, Blocklist) result" where
  "bl_parseConfig ul zs =
     (case bl_stanzas ul zs False (bl_new, []) of
        Err e \<Rightarrow> Err e
      | Ok (b, boot) \<Rightarrow>
          if length (urls b) = 0 then Err NeedsURL
          else let servers = (if length boot = 0 then defaultBootstrapDNS else boot)
               in Ok (b\<lparr>bootstrap := newBootstrapResolver servers\<rparr>))"

definition bl_setup ::
  "(nat \<Rightarrow> nat) \<Rightarrow> stanza list \<Rightarrow> controller \<Rightarrow> (string \<times> bl_config_error, Blocklist \<times> controller) result" where
  "bl_setup ul zs c = wire ''blocklist'' (bl_parseConfig ul zs) c"

lemmas bl_setup_defs [go_eval] =
  defaultRefresh_def defaultReadyTimeout_def defaultBootstrapDNS_def durationArg_def validateURL_def
  normalizeDNSAddr_def bl_property_def bl_new_def bl_parseConfig_def

subsection \<open>Facts\<close>

text \<open>A server as the resolver dials it: the address of an IP literal and a port number.\<close>

definition dialable :: "string \<Rightarrow> bool" where
  "dialable s \<longleftrightarrow>
     (\<exists>raw addr pt p. parse_addr raw = Some addr \<and> s = join_host_port (addr_string addr) pt \<and>
        atoi pt = Some p \<and> 1 \<le> p \<and> p \<le> 65535)"

lemma normalizeDNSAddr_dialable: "normalizeDNSAddr raw = Ok s \<Longrightarrow> dialable s"
proof -
  have "atoi ''53'' = Some 53" by code_simp
  then show "normalizeDNSAddr raw = Ok s \<Longrightarrow> dialable s"
    by (fastforce simp: normalizeDNSAddr_def dialable_def not_less split: option.splits if_splits)
qed

lemma default_dialable: "list_all dialable defaultBootstrapDNS"
proof -
  have "''1.1.1.1:53'' = join_host_port (addr_string (V4 [1, 1, 1, 1])) ''53''"
    "''9.9.9.9:53'' = join_host_port (addr_string (V4 [9, 9, 9, 9])) ''53''" "atoi ''53'' = Some 53"
    "parse_addr ''1.1.1.1'' = Some (V4 [1, 1, 1, 1])" "parse_addr ''9.9.9.9'' = Some (V4 [9, 9, 9, 9])"
    by code_simp+
  then have "dialable ''1.1.1.1:53''" "dialable ''9.9.9.9:53''" unfolding dialable_def by fastforce+
  then show ?thesis by (simp add: defaultBootstrapDNS_def)
qed

text \<open>What every line of the block keeps.\<close>

definition config_ok :: "(nat \<Rightarrow> nat) \<Rightarrow> Blocklist \<times> string list \<Rightarrow> bool" where
  "config_ok ul = (\<lambda>(b, boot).
     list_all (\<lambda>u. validateURL ul u = None) (urls b) \<and> list_all blockable (allow_list b) \<and>
     minute \<le> refresh b \<and> refresh b \<le> maxDuration \<and> 0 < readyTimeout b \<and> readyTimeout b \<le> maxDuration \<and>
     current b = None \<and> \<not> ready b \<and> lastGood b = Map.empty \<and> list_all dialable boot)"

lemma add_urls_ok:
  "add_urls ul rs us = Ok us' \<Longrightarrow> list_all (\<lambda>u. validateURL ul u = None) us \<Longrightarrow> list_all (\<lambda>u. validateURL ul u = None) us'"
  by (induction ul rs us rule: add_urls.induct) (auto split: option.splits)

lemma add_allow_ok: "add_allow ul rs as = Ok as' \<Longrightarrow> list_all blockable as \<Longrightarrow> list_all blockable as'"
  by (induction ul rs as rule: add_allow.induct) (auto split: option.splits dest: normalizeEntry_blockable)

lemma add_bootstrap_ok: "add_bootstrap rs bs = Ok bs' \<Longrightarrow> list_all dialable bs \<Longrightarrow> list_all dialable bs'"
  by (induction rs bs rule: add_bootstrap.induct) (auto split: sum.splits dest: normalizeDNSAddr_dialable)

lemma durationArg_Ok: "durationArg prop args = Ok d \<Longrightarrow> 0 < d \<and> d \<le> maxDuration"
  using ParseDuration_range by (auto simp: durationArg_def not_le split: list.splits option.splits if_splits)

lemma bl_property_ok: "bl_property ul name args st = Ok st' \<Longrightarrow> config_ok ul st \<Longrightarrow> config_ok ul st'"
  by (cases st)
    (auto simp: bl_property_def config_ok_def not_less split: if_splits sum.splits
      dest: add_urls_ok add_allow_ok add_bootstrap_ok durationArg_Ok)

lemma bl_block_ok: "bl_block ul ls st = Ok st' \<Longrightarrow> config_ok ul st \<Longrightarrow> config_ok ul st'"
  by (induction ul ls st rule: bl_block.induct) (auto split: sum.splits dest: bl_property_ok)

lemma config_ok_new: "config_ok ul (bl_new, [])"
  by (simp add: config_ok_def bl_new_def defaultRefresh_def defaultReadyTimeout_def minute_def hour_def second_def maxDuration_def)

lemma validateURL_None:
  assumes "validateURL ul raw = None"
  shows "\<exists>sch rest. raw = sch @ ''://'' @ rest \<and> (map lower_byte sch = ''http'' \<or> map lower_byte sch = ''https'')"
proof -
  obtain u where u: "url_Parse ul raw = Some u" "url_Scheme u = ''http'' \<or> url_Scheme u = ''https''" "url_Host u \<noteq> []"
    using assms by (auto simp: validateURL_def split: option.splits if_splits)
  then have "url_Scheme u \<noteq> []" by auto
  from url_Parse_shape [OF u(1) this u(3)] u(2) show ?thesis by metis
qed

text \<open>
  C33: what the blocklist plugin starts with. An accepted configuration comes from one
  directive without arguments and has at least one source, all of them \<open>http\<close> or \<open>https\<close>
  URLs; its allow entries are normalised names; it refreshes at intervals of at least one
  minute and waits a positive time for readiness, without overflow; it has at least one
  bootstrap server, each an IP literal with a valid port; and it has neither a list nor
  readiness, as the life cycle of the plugin assumes.
\<close>

theorem bl_parseConfig_valid:
  assumes "bl_parseConfig ul zs = Ok b"
  shows "\<exists>z. zs = [z] \<and> st_args z = [] \<and> urls b \<noteq> [] \<and>
     list_all (\<lambda>u. \<exists>sch rest. u = sch @ ''://'' @ rest \<and>
        (map lower_byte sch = ''http'' \<or> map lower_byte sch = ''https'')) (urls b) \<and>
     list_all blockable (allow_list b) \<and> minute \<le> refresh b \<and> refresh b \<le> maxDuration \<and>
     0 < readyTimeout b \<and> readyTimeout b \<le> maxDuration \<and>
     servers (bootstrap b) \<noteq> [] \<and> list_all dialable (servers (bootstrap b)) \<and> bl_inv b \<and>
     life_init \<lparr>lf_b = b, lf_mx = mx, lf_rpc = RFetch, lf_tpc = TWait, lf_stopped = False\<rparr>"
proof -
  obtain b0 boot where s: "bl_stanzas ul zs False (bl_new, []) = Ok (b0, boot)" "urls b0 \<noteq> []"
    and b: "b = b0\<lparr>bootstrap := newBootstrapResolver (if length boot = 0 then defaultBootstrapDNS else boot)\<rparr>"
    using assms by (auto simp: bl_parseConfig_def Let_def split: sum.splits if_splits)
  have "zs \<noteq> []" using s by (auto simp: bl_new_def)
  then obtain z zs' where z: "zs = z # zs'" by (cases zs) auto
  obtain st where st: "st_args z = []" "bl_block ul (st_block z) (bl_new, []) = Ok st" "bl_stanzas ul zs' True st = Ok (b0, boot)"
    using s(1) z by (auto split: if_splits sum.splits)
  then have zs': "zs' = []" "st = (b0, boot)" by (cases zs'; simp)+
  have ok: "config_ok ul (b0, boot)" using bl_block_ok [OF st(2) config_ok_new] zs' by simp
  have "list_all dialable (servers (bootstrap b))" "servers (bootstrap b) \<noteq> []"
    using ok default_dialable by (auto simp: b config_ok_def newBootstrapResolver_def defaultBootstrapDNS_def)
  moreover have "list_all (\<lambda>u. \<exists>sch rest. u = sch @ ''://'' @ rest \<and>
        (map lower_byte sch = ''http'' \<or> map lower_byte sch = ''https'')) (urls b)"
    using ok validateURL_None by (auto simp: b config_ok_def list_all_iff)
  ultimately show ?thesis
    using ok s(2) z zs' st(1) by (simp add: b config_ok_def life_init_def bl_inv_def)
qed

definition sample_block :: stanza where
  "sample_block =
     \<lparr>st_args = [], st_braces = True,
      st_block = [(''url'', [''https://lists.example.org/hosts.txt'']), (''allow'', [''Good.Example.com'']),
                  (''bootstrap_dns'', [''10.0.0.53'', ''9.9.9.9:53'']), (''refresh'', [''30m''])]\<rparr>"

lemma sample_block_parses:
  "\<exists>b. bl_parseConfig id [sample_block] = Ok b \<and> urls b = [''https://lists.example.org/hosts.txt''] \<and>
     servers (bootstrap b) = [''10.0.0.53:53'', ''9.9.9.9:53''] \<and> refresh b = 30 * minute"
proof -
  have u: "validateURL id ''https://lists.example.org/hosts.txt'' = None" by code_simp
  have a: "normalizeEntry id ''Good.Example.com'' = Some ''good.example.com''" by code_simp
  have d: "normalizeDNSAddr ''10.0.0.53'' = Ok ''10.0.0.53:53''"
    "normalizeDNSAddr ''9.9.9.9:53'' = Ok ''9.9.9.9:53''" by code_simp+
  have i: "itoa 30 @ ''m'' = ''30m''" "unit_of ''m'' = Some minute" by code_simp+
  have t: "ParseDuration ''30m'' = Some (30 * minute)"
    using ParseDuration_whole [OF i(2), of 30] unfolding i(1) by (simp add: two63_def minute_def second_def)
  show ?thesis
    by (simp add: bl_parseConfig_def sample_block_def bl_property_def bl_new_def u a d durationArg_def t
        newBootstrapResolver_def) (simp add: minute_def second_def)
qed

theorem bl_parseConfig_valid_witness:
  "\<exists>b. bl_parseConfig id [sample_block] = Ok b \<and> urls b \<noteq> [] \<and> list_all dialable (servers (bootstrap b))"
proof -
  obtain b where "bl_parseConfig id [sample_block] = Ok b" using sample_block_parses by blast
  with bl_parseConfig_valid [OF this] show ?thesis by blast
qed

text \<open>
  The URL check accepts nothing but \<open>http\<close> and \<open>https\<close> URLs with a host, and it accepts
  every ordinary one: a scheme, a host of letters, digits, dots and hyphens, and a path of
  such characters and slashes.
\<close>

theorem validateURL_http:
  "(validateURL ul raw = None \<longrightarrow>
      (\<exists>sch rest. raw = sch @ ''://'' @ rest \<and> (map lower_byte sch = ''http'' \<or> map lower_byte sch = ''https''))) \<and>
   (list_all word_char h \<and> h \<noteq> [] \<and> list_all (\<lambda>c. word_char c \<or> c = CHR ''/'') path \<longrightarrow>
      validateURL ul (''http://'' @ h @ ''/'' @ path) = None \<and> validateURL ul (''https://'' @ h @ ''/'' @ path) = None)"
proof (intro conjI impI)
  show "\<exists>sch rest. raw = sch @ ''://'' @ rest \<and> (map lower_byte sch = ''http'' \<or> map lower_byte sch = ''https'')"
    if "validateURL ul raw = None" using that by (rule validateURL_None)
next
  assume h: "list_all word_char h \<and> h \<noteq> [] \<and> list_all (\<lambda>c. word_char c \<or> c = CHR ''/'') path"
  have sch: "list_all is_alpha ''http''" "map lower_byte ''http'' = ''http''" "list_all is_alpha ''https''" "map lower_byte ''https'' = ''https''"
    by code_simp+
  have "url_Parse ul (''http'' @ ''://'' @ h @ (''/'' @ path)) = Some \<lparr>url_Scheme = ''http'', url_Host = h\<rparr>"
    by (rule url_Parse_plain) (use h sch in auto)
  then show "validateURL ul (''http://'' @ h @ ''/'' @ path) = None" using h by (simp add: validateURL_def)
  have "url_Parse ul (''https'' @ ''://'' @ h @ (''/'' @ path)) = Some \<lparr>url_Scheme = ''https'', url_Host = h\<rparr>"
    by (rule url_Parse_plain) (use h sch in auto)
  then show "validateURL ul (''https://'' @ h @ ''/'' @ path) = None" using h by (simp add: validateURL_def)
qed

theorem validateURL_http_witness:
  "validateURL id ''https://lists.example.org/hosts.txt'' = None \<and> validateURL id ''ftp://a/b'' \<noteq> None"
proof
  have "list_all word_char ''lists.example.org''" "list_all (\<lambda>c. word_char c \<or> c = CHR ''/'') ''hosts.txt''" by code_simp+
  then show "validateURL id ''https://lists.example.org/hosts.txt'' = None"
    using validateURL_http [of id "[]" "''lists.example.org''" "''hosts.txt''"] by simp
  show "validateURL id ''ftp://a/b'' \<noteq> None" by code_simp
qed

end
