(* ===== verification/Race_Setup.thy ===== *)
theory Race_Setup
  imports Race Go_Duration Corefile
begin

text \<open>
  The configuration of the race plugin (\<open>plugin/race/setup.go\<close>). The normalisation of a
  zone, the reading of addresses and their transports, and the creation of a TLS
  configuration are functions of CoreDNS and are parameters (the record \<open>race_lib\<close>).
\<close>

record race_lib =
  NormalizeExact :: "string \<Rightarrow> string list"
  HostPortOrFile :: "string list \<Rightarrow> (string, string list) result"
  Transport :: "string \<Rightarrow> string \<times> string"
  NewTLSConfig :: "string option"

datatype race_config_error =
  RcConfiguredTwice | RcArgErr | CannotNormalize string | NeedsTwoUpstreams |
  ExpireNotPositive string | RcUnknownProperty string | BadUpstream string | NotSupported string string

definition defaultExpire :: int where "defaultExpire = 10 * second"

text \<open>The loop over the hosts: one proxy each.\<close>

fun add_proxies ::
  "race_lib \<Rightarrow> tls_config \<Rightarrow> int \<Rightarrow> string list \<Rightarrow> proxy list \<Rightarrow> (race_config_error, proxy list) result" where
  "add_proxies L tc ex [] ps = Ok ps"
| "add_proxies L tc ex (host # hs) ps =
     (case Transport L host of (tp, addr) \<Rightarrow>
        if tp \<noteq> ''dns'' \<and> tp \<noteq> ''tls'' then Err (NotSupported tp host)
        else add_proxies L tc ex hs
          (ps @ [\<lparr>px_addr = addr, px_trans = tp, px_tls = (if tp = ''tls'' then Some tc else None), px_expire = ex,
                  px_maxIdle = maxIdleConns\<rparr>]))"

text \<open>The second component says whether the warning about a missing server name is logged.\<close>

definition addUpstreams ::
  "race_lib \<Rightarrow> string list \<Rightarrow> Race \<Rightarrow> (race_config_error, Race \<times> bool) result" where
  "addUpstreams L to rc =
     (case HostPortOrFile L to of
        Err e \<Rightarrow> Err (BadUpstream e)
      | Ok hosts \<Rightarrow>
          (case NewTLSConfig L of
             Some e \<Rightarrow> Err (BadUpstream e)
           | None \<Rightarrow>
               (let tc = \<lparr>ServerName = tlsServerName rc, sessionCache = length hosts\<rparr>
                in case add_proxies L tc (race_expire rc) hosts (proxies rc) of
                     Err e \<Rightarrow> Err e
                   | Ok ps \<Rightarrow>
                       Ok (rc\<lparr>tlsConfig := Some tc, proxies := ps\<rparr>,
                           tlsServerName rc = [] \<and> list_ex (\<lambda>p. px_tls p \<noteq> None) ps))))"

fun race_block :: "(string \<times> string list) list \<Rightarrow> Race \<Rightarrow> (race_config_error, Race) result" where
  "race_block [] rc = Ok rc"
| "race_block ((name, args) # ls) rc =
     (if name = ''tls_servername'' then
        (case args of [a] \<Rightarrow> race_block ls (rc\<lparr>tlsServerName := a\<rparr>) | _ \<Rightarrow> Err RcArgErr)
      else if name = ''expire'' then
        (case args of
           [a] \<Rightarrow>
             (case ParseDuration a of
                None \<Rightarrow> Err (ExpireNotPositive a)
              | Some d \<Rightarrow> if d \<le> 0 then Err (ExpireNotPositive a) else race_block ls (rc\<lparr>race_expire := d\<rparr>))
         | _ \<Rightarrow> Err RcArgErr)
      else Err (RcUnknownProperty name))"

text \<open>
  One directive. \<open>c.Args\<close> takes the first token of the line, which is the opening brace when
  there is no argument but a block.
\<close>

definition race_stanza :: "race_lib \<Rightarrow> stanza \<Rightarrow> Race \<Rightarrow> (race_config_error, Race \<times> bool) result" where
  "race_stanza L z rc =
     (case (if st_args z = [] \<and> st_braces z then [''{''] else st_args z) of
        [] \<Rightarrow> Err RcArgErr
      | zn # to \<Rightarrow>
          (case NormalizeExact L zn of
             [zone] \<Rightarrow>
               if length to < 2 then Err NeedsTwoUpstreams
               else (case race_block (st_block z) (rc\<lparr>race_from := zone\<rparr>) of
                       Err e \<Rightarrow> Err e
                     | Ok rc' \<Rightarrow> addUpstreams L to rc')
           | _ \<Rightarrow> Err (CannotNormalize zn)))"

fun race_stanzas ::
  "race_lib \<Rightarrow> stanza list \<Rightarrow> bool \<Rightarrow> Race \<times> bool \<Rightarrow> (race_config_error, Race \<times> bool) result" where
  "race_stanzas L [] configured rw = Ok rw"
| "race_stanzas L (z # zs) configured rw =
     (if configured then Err RcConfiguredTwice
      else case race_stanza L z (fst rw) of Err e \<Rightarrow> Err e | Ok rw' \<Rightarrow> race_stanzas L zs True rw')"

definition race_new :: Race where
  "race_new =
     \<lparr>race_from = [], proxies = [], race_expire = defaultExpire, tlsServerName = [], tlsConfig = None\<rparr>"

definition race_parseConfig :: "race_lib \<Rightarrow> stanza list \<Rightarrow> (race_config_error, Race \<times> bool) result" where
  "race_parseConfig L zs = race_stanzas L zs False (race_new, False)"

definition race_setup ::
  "race_lib \<Rightarrow> stanza list \<Rightarrow> controller \<Rightarrow>
   (string \<times> race_config_error, (Race \<times> bool) \<times> controller) result" where
  "race_setup L zs c = wire ''race'' (race_parseConfig L zs) c"

text \<open>
  \<open>start\<close> and \<open>stop\<close>: the calls made on the proxies, which are named by their
  position. Running a call keeps the positions whose connection manager runs.
\<close>

definition hcInterval :: int where "hcInterval = second div 2"

datatype proxy_call = ProxyStart nat int | ProxyStop nat

definition race_start :: "Race \<Rightarrow> proxy_call list" where
  "race_start rc = map (\<lambda>i. ProxyStart i hcInterval) [0..<length (proxies rc)]"

definition race_stop :: "Race \<Rightarrow> proxy_call list" where
  "race_stop rc = map ProxyStop [0..<length (proxies rc)]"

fun run_calls :: "proxy_call list \<Rightarrow> nat set \<Rightarrow> nat set" where
  "run_calls [] running = running"
| "run_calls (ProxyStart i d # cs) running = run_calls cs (insert i running)"
| "run_calls (ProxyStop i # cs) running = run_calls cs (running - {i})"

lemmas race_setup_defs [go_eval] =
  defaultExpire_def addUpstreams_def race_stanza_def race_new_def race_parseConfig_def

subsection \<open>Facts\<close>

lemma add_proxies_Ok:
  "add_proxies L tc ex hs ps = Ok ps' \<Longrightarrow>
   ps' = ps @ map (\<lambda>h. \<lparr>px_addr = snd (Transport L h), px_trans = fst (Transport L h),
                        px_tls = (if fst (Transport L h) = ''tls'' then Some tc else None), px_expire = ex,
                        px_maxIdle = maxIdleConns\<rparr>) hs \<and>
   list_all (\<lambda>h. fst (Transport L h) = ''dns'' \<or> fst (Transport L h) = ''tls'') hs"
  by (induction L tc ex hs ps rule: add_proxies.induct) (auto split: prod.splits if_splits)

lemma race_block_Ok:
  "race_block ls rc = Ok rc' \<Longrightarrow> 0 < race_expire rc \<Longrightarrow> race_expire rc \<le> maxDuration \<Longrightarrow>
   0 < race_expire rc' \<and> race_expire rc' \<le> maxDuration \<and> proxies rc' = proxies rc \<and> race_from rc' = race_from rc \<and>
   (race_expire rc' = race_expire rc \<or> ''expire'' \<in> fst ` set ls) \<and>
   (tlsServerName rc' = tlsServerName rc \<or> (''tls_servername'', [tlsServerName rc']) \<in> set ls)"
proof (induction ls arbitrary: rc)
  case (Cons l ls)
  obtain name args where l: "l = (name, args)" by (cases l)
  consider (tls) a where "name = ''tls_servername''" "args = [a]" "race_block ls (rc\<lparr>tlsServerName := a\<rparr>) = Ok rc'"
    | (expire) a d where "name = ''expire''" "ParseDuration a = Some d" "0 < d" "race_block ls (rc\<lparr>race_expire := d\<rparr>) = Ok rc'"
    using Cons.prems(1) l by (auto simp: not_le split: if_splits list.splits option.splits)
  then show ?case
  proof cases
    case tls
    from Cons.IH [OF tls(3)] Cons.prems tls l show ?thesis by auto
  next
    case expire
    from Cons.IH [OF expire(4)] ParseDuration_range [OF expire(2)] expire l Cons.prems show ?thesis by auto
  qed
qed simp

text \<open>
  C34: an accepted race configuration comes from one directive that names a zone and at
  least two upstreams. There is one proxy per address read, in order, all speaking plain
  DNS or TLS; exactly the latter have a TLS configuration, whose server name is empty or
  the one the block sets, and the warning is logged if and only if there is such a proxy
  and the name is empty. Every pool keeps its connections for the configured time, which
  is positive and ten seconds unless the block sets it, and so few that the attempts of a
  leg can drain it and dial once more.
\<close>

theorem race_parseConfig_valid:
  assumes "race_parseConfig L zs = Ok (rc, warned)" "zs \<noteq> []"
  shows "\<exists>z zn to hosts tc. zs = [z] \<and> st_args z = zn # to \<and> 2 \<le> length to \<and>
     NormalizeExact L zn = [race_from rc] \<and> HostPortOrFile L to = Ok hosts \<and>
     map px_addr (proxies rc) = map (snd \<circ> Transport L) hosts \<and>
     list_all (\<lambda>p. (px_trans p = ''dns'' \<and> px_tls p = None \<or> px_trans p = ''tls'' \<and> px_tls p = Some tc) \<and>
        px_expire p = race_expire rc \<and> px_maxIdle p + 1 < maxConnectAttempts) (proxies rc) \<and>
     (ServerName tc = [] \<or> (''tls_servername'', [ServerName tc]) \<in> set (st_block z)) \<and>
     (warned \<longleftrightarrow> ServerName tc = [] \<and> list_ex (\<lambda>p. px_trans p = ''tls'') (proxies rc)) \<and>
     0 < race_expire rc \<and> race_expire rc \<le> maxDuration \<and>
     (race_expire rc = 10 * second \<or> ''expire'' \<in> fst ` set (st_block z))"
proof -
  obtain z zs' where z: "zs = z # zs'" using assms(2) by (cases zs) auto
  obtain rw where s: "race_stanza L z race_new = Ok rw" "race_stanzas L zs' True rw = Ok (rc, warned)"
    using assms(1) z by (auto simp: race_parseConfig_def split: sum.splits)
  then have zs': "zs' = []" "rw = (rc, warned)" by (cases zs'; simp)+
  obtain zn to zone rc2 where a: "(if st_args z = [] \<and> st_braces z then [''{''] else st_args z) = zn # to"
    "NormalizeExact L zn = [zone]" "2 \<le> length to" "race_block (st_block z) (race_new\<lparr>race_from := zone\<rparr>) = Ok rc2"
    "addUpstreams L to rc2 = Ok (rc, warned)"
    using s(1) zs' by (auto simp: race_stanza_def not_less split: list.splits if_splits sum.splits)
  have args: "st_args z = zn # to" using a(1,3) by (auto split: if_splits)
  obtain hosts tc ps where h: "HostPortOrFile L to = Ok hosts" "tc = \<lparr>ServerName = tlsServerName rc2, sessionCache = length hosts\<rparr>"
    "add_proxies L tc (race_expire rc2) hosts (proxies rc2) = Ok ps"
    "rc = rc2\<lparr>tlsConfig := Some tc, proxies := ps\<rparr>"
    "warned \<longleftrightarrow> tlsServerName rc2 = [] \<and> list_ex (\<lambda>p. px_tls p \<noteq> None) ps"
    using a(5) by (auto simp: addUpstreams_def Let_def split: sum.splits option.splits)
  have b: "0 < race_expire rc2" "race_expire rc2 \<le> maxDuration" "proxies rc2 = []" "race_from rc2 = zone"
    "race_expire rc2 = defaultExpire \<or> ''expire'' \<in> fst ` set (st_block z)"
    "tlsServerName rc2 = [] \<or> (''tls_servername'', [tlsServerName rc2]) \<in> set (st_block z)"
    using race_block_Ok [OF a(4)] by (auto simp: race_new_def defaultExpire_def second_def maxDuration_def)
  have ps: "map px_addr ps = map (snd \<circ> Transport L) hosts"
    "list_all (\<lambda>p. (px_trans p = ''dns'' \<and> px_tls p = None \<or> px_trans p = ''tls'' \<and> px_tls p = Some tc) \<and>
        px_expire p = race_expire rc2 \<and> px_maxIdle p + 1 < maxConnectAttempts) ps"
    "list_ex (\<lambda>p. px_tls p \<noteq> None) ps = list_ex (\<lambda>p. px_trans p = ''tls'') ps"
    using add_proxies_Ok [OF h(3)] b(3)
    by (auto simp: list_all_iff list_ex_iff maxConnectAttempts_def comp_def split: if_splits)
  show ?thesis
    using z zs' args a(2,3) h ps b
    by (intro exI [of _ z] exI [of _ zn] exI [of _ to] exI [of _ hosts] exI [of _ tc]) (auto simp: defaultExpire_def)
qed

definition sample_lib :: race_lib where
  "sample_lib =
     \<lparr>NormalizeExact = (\<lambda>z. [z]), HostPortOrFile = (\<lambda>to. Ok to),
      Transport = (\<lambda>h. if take 6 h = ''tls://'' then (''tls'', drop 6 h) else (''dns'', h)), NewTLSConfig = None\<rparr>"

theorem race_parseConfig_valid_witness:
  "\<exists>rc. race_parseConfig sample_lib [\<lparr>st_args = [''.'', ''tls://9.9.9.9'', ''1.1.1.1''], st_braces = False, st_block = []\<rparr>] = Ok (rc, True) \<and>
     map px_addr (proxies rc) = [''9.9.9.9'', ''1.1.1.1''] \<and> race_expire rc = 10 * second"
proof -
  obtain rc where rc: "race_parseConfig sample_lib
      [\<lparr>st_args = [''.'', ''tls://9.9.9.9'', ''1.1.1.1''], st_braces = False, st_block = []\<rparr>] = Ok (rc, True)"
    by (simp add: race_parseConfig_def race_new_def race_stanza_def sample_lib_def addUpstreams_def Let_def)
  from race_parseConfig_valid [OF this] rc show ?thesis by (auto simp: sample_lib_def)
qed

lemma run_calls_start: "run_calls (map (\<lambda>i. ProxyStart i d) is) running = running \<union> set is"
  by (induction "is" arbitrary: running) auto

lemma run_calls_stop: "run_calls (map ProxyStop is) running = running - set is"
  by (induction "is" arbitrary: running) auto

lemma run_calls_append: "run_calls (cs @ ds) running = run_calls ds (run_calls cs running)"
  by (induction cs running rule: run_calls.induct) auto

lemma race_start_runs_all: "run_calls (race_start rc) {} = {..<length (proxies rc)}"
  by (auto simp: race_start_def run_calls_start)

lemma race_stop_start: "run_calls (race_start rc @ race_stop rc) {} = {}"
  by (auto simp: race_start_def race_stop_def run_calls_append run_calls_start run_calls_stop)

end
