(* ===== verification/Server.thy ===== *)
theory Server
  imports Blocklist Peercache Race
begin

text \<open>
  The three handlers composed, as the chain of a server block that configures blocklist,
  peercache and race: each plugin's \<open>Next\<close> is the plugin behind it (the closures the setup
  functions hand to \<open>AddPlugin\<close>). Because the two races are step relations, the
  composition is a relation between a query and what a run may return; the runs considered
  are those that return before the client's context is done.

  The specification \<open>home_spec\<close> says what a client of such a server is promised.
\<close>

subsection \<open>The surroundings of a query\<close>

text \<open>
  How a name is matched with the zone of race, the plugins behind race, whether a reply
  belongs to a question, the connections the legs meet, the answers of the siblings, and
  the error of the client's context.
\<close>

record world =
  wd_zone :: "string \<Rightarrow> string \<Rightarrow> bool"
  wd_rest :: handler
  wd_match :: "msg \<Rightarrow> msg option \<Rightarrow> bool"
  wd_conns :: "nat \<Rightarrow> connect \<Rightarrow> bool"
  wd_answers :: "nat \<Rightarrow> msg option \<times> goerr option \<Rightarrow> bool"
  wd_cerr :: goerr

subsection \<open>The chain\<close>

text \<open>What race returns on the writer \<open>w\<close>.\<close>

definition race_returns ::
  "world \<Rightarrow> set_rcode \<Rightarrow> Race \<Rightarrow> live_writer \<Rightarrow> string \<Rightarrow> msg \<Rightarrow> served \<Rightarrow> bool" where
  "race_returns W sr rc w name r sv \<longleftrightarrow>
     (if \<not> wd_zone W (race_from rc) name then sv = wd_rest W r
      else \<exists>s counts.
        reach (dispatch_init rc) (dispatch_step sr (wd_match W) (wd_conns W) rc (wd_cerr W) w r) s \<and>
        \<not> lr_ctx s \<and> lr_out s = Some (sv, counts))"

text \<open>The chain behind peercache run as its upstream leg, on a detached writer, which accepts every write.\<close>

definition detached_live :: "live_writer \<Rightarrow> live_writer" where
  "detached_live w =
     \<lparr>lw_local = detached_LocalAddr (detached_New w), lw_remote = detached_RemoteAddr (detached_New w),
      lw_write = (\<lambda>m. snd (detached_WriteMsg (detached_New w) m))\<rparr>"

definition chain_leg :: "world \<Rightarrow> Race \<Rightarrow> 'c query \<Rightarrow> int \<times> goerr option \<times> msg list \<Rightarrow> bool" where
  "chain_leg W rc q out \<longleftrightarrow>
     (\<exists>sv. race_returns W (setRcode (qy_env q)) rc (detached_live (qy_w q)) (req_Name (qy_state q)) (req_Req (qy_state q)) sv \<and>
        out = (sv_rcode sv, sv_err sv, sv_written sv))"

text \<open>The message a recorder holds after the chain ran on a writer that accepts every write.\<close>

definition recorded :: "live_writer \<Rightarrow> served \<Rightarrow> msg option \<Rightarrow> bool" where
  "recorded w sv mo \<longleftrightarrow>
     ((\<forall>m. lw_write w m = None) \<longrightarrow> mo = (if sv_written sv = [] then None else Some (last (sv_written sv))))"

definition peer_returns ::
  "world \<Rightarrow> PeerCache \<Rightarrow> Race \<Rightarrow> 'c query \<Rightarrow> 'c store \<Rightarrow> served \<Rightarrow> 'c store \<Rightarrow> bool" where
  "peer_returns W p rc q st sv st' \<longleftrightarrow>
     (if peerList p = [] then
        \<exists>mo eff counts.
          race_returns W (setRcode (qy_env q)) rc (qy_w q) (req_Name (qy_state q)) (req_Req (qy_state q)) sv \<and>
          recorded (qy_w q) sv mo \<and> pc_ServeDNS p q (wd_cerr W) (sv, mo) [] = Some eff \<and> eff st = (sv, counts, st')
      else
        \<exists>s eff counts.
          reach (race_init (peerList p)) (race_step q (wd_cerr W) (peerList p) (wd_answers W) (chain_leg W rc q)) s \<and>
          \<not> lr_ctx s \<and> lr_out s = Some eff \<and> eff st = (sv, counts, st'))"

text \<open>The whole chain. A blocked query does not reach peercache and leaves its store alone.\<close>

definition server_returns ::
  "world \<Rightarrow> (nat \<Rightarrow> nat) \<Rightarrow> string \<Rightarrow> Blocklist \<Rightarrow> PeerCache \<Rightarrow> Race \<Rightarrow> 'c query \<Rightarrow> bl_metrics \<times> 'c store \<Rightarrow>
   served \<Rightarrow> bl_metrics \<times> 'c store \<Rightarrow> bool" where
  "server_returns W ul server b p rc q before sv after \<longleftrightarrow>
     (\<exists>nx.
        (if blocked (current b) (normalizeQuery ul (req_Name (qy_state q))) then snd after = snd before
         else peer_returns W p rc q (snd before) nx (snd after)) \<and>
        (fst after, sv) =
          ServeDNS ul (setRcode (qy_env q)) (\<lambda>_. nx) server (req_Name (qy_state q)) (qy_w q) (req_Req (qy_state q)) b (fst before))"

subsection \<open>What a client is promised\<close>

text \<open>A name the household does not want: in a block subtree and in no allow subtree.\<close>

definition unwanted :: "string list \<Rightarrow> string list \<Rightarrow> string \<Rightarrow> bool" where
  "unwanted bs als n \<longleftrightarrow>
     n \<noteq> [] \<and> (\<exists>x \<in> set bs. x \<noteq> [] \<and> in_subtree x n) \<and> \<not> (\<exists>x \<in> set als. x \<noteq> [] \<and> in_subtree x n)"

definition home_spec :: "string list \<Rightarrow> string list \<Rightarrow> string \<Rightarrow> msg \<Rightarrow> served \<Rightarrow> bool" where
  "home_spec bs als n r sv \<longleftrightarrow>
     (\<exists>m. sv_written sv = [m] \<and> sv_err sv = None \<and> msg_id m = msg_id r \<and> Question m = take 1 (Question r) \<and>
        (if unwanted bs als n
         then Rcode m = RcodeNameError \<and> Authoritative m \<and> Answer m = [] \<and> Ns m = [] \<and> Extra m = []
         else \<not> Truncated m \<and> (Rcode m = RcodeSuccess \<or> Rcode m = RcodeNameError)))"

subsection \<open>Facts\<close>

lemma detached_live_writes [simp]: "lw_write (detached_live w) m = None"
  by (simp add: detached_live_def detached_WriteMsg_def)

lemma useful_same: "pc_useful mo = race_useful mo"
  by (simp add: pc_useful_def race_useful_def)

lemma useful_iff: "race_useful (Some m) \<longleftrightarrow> \<not> Truncated m \<and> (Rcode m = RcodeSuccess \<or> Rcode m = RcodeNameError)"
  by (auto simp: race_useful_def)

lemma blocked_published:
  "current b = Some \<lparr>block = newNameSet bs, allow = newNameSet als\<rparr> \<Longrightarrow> blocked (current b) n \<longleftrightarrow> unwanted bs als n"
  by (auto simp: blocked_def unwanted_def names.cov_build)

text \<open>
  An upstream that is good for a question: whatever connections its leg meets, the leg
  ends with a useful reply. All other legs merely end.
\<close>

definition good_upstream :: "world \<Rightarrow> Race \<Rightarrow> msg \<Rightarrow> nat \<Rightarrow> bool" where
  "good_upstream W rc r i \<longleftrightarrow>
     i < length (proxies rc) \<and>
     (\<forall>conn. wd_conns W i conn \<longrightarrow>
        race_useful (lg_msg (fst (exchange (wd_match W) conn (px_addr (proxies rc ! i)) r))))"

definition legs_end :: "world \<Rightarrow> PeerCache \<Rightarrow> Race \<Rightarrow> bool" where
  "legs_end W p rc \<longleftrightarrow>
     (\<forall>i < length (proxies rc). \<exists>conn. wd_conns W i conn) \<and> (\<forall>i < length (peerList p). \<exists>out. wd_answers W i out)"

lemma race_returns_useful:
  assumes "race_returns W sr rc w name r sv" "wd_zone W (race_from rc) name" "good_upstream W rc r i"
    and "set_rcode_ok sr" "\<And>m. lw_write w m = None"
  obtains m where "sv = \<lparr>sv_rcode = RcodeSuccess, sv_err = None, sv_written = [m]\<rparr>"
    "race_useful (Some m)" "msg_id m = msg_id r" "Question m = take 1 (Question r)"
proof -
  obtain s counts where s: "reach (dispatch_init rc) (dispatch_step sr (wd_match W) (wd_conns W) rc (wd_cerr W) w r) s"
    "lr_out s = Some (sv, counts)" "\<not> lr_ctx s"
    using assms(1,2) by (auto simp: race_returns_def)
  have "i < length (proxies rc)"
    "\<And>conn. wd_conns W i conn \<Longrightarrow> race_useful (lg_msg (fst (exchange (wd_match W) conn (px_addr (proxies rc ! i)) r)))"
    using assms(3) by (auto simp: good_upstream_def)
  from dispatch_returned_useful [OF s this assms(4,5)] show thesis using that by auto
qed

lemma race_returns_exists:
  assumes "wd_zone W (race_from rc) name" "\<And>i. i < length (proxies rc) \<Longrightarrow> \<exists>conn. wd_conns W i conn"
  shows "\<exists>sv. race_returns W sr rc w name r sv"
proof -
  obtain t where t: "reach (dispatch_init rc) (dispatch_step sr (wd_match W) (wd_conns W) rc (wd_cerr W) w r) t" "\<not> lr_ctx t"
    "lr_final (dispatch_body sr w r) (dispatch_after sr w r) (dispatch_cancelled (wd_cerr W))
      (leg_outcome (wd_match W) (wd_conns W) rc r) (length (proxies rc)) t"
    unfolding dispatch_init_def dispatch_step_def by (rule lr_complete_run)
  from dispatch_final_returned [OF t(1,3) assms(2)] obtain out where "lr_out t = Some out" by blast
  then show ?thesis using t(1,2) assms(1) by (cases out) (auto simp: race_returns_def)
qed

lemma peer_returns_useful:
  assumes "peer_returns W p rc q st sv st'" "wd_zone W (race_from rc) (req_Name (qy_state q))"
    and "good_upstream W rc (req_Req (qy_state q)) i"
    and sr: "set_rcode_ok (setRcode (qy_env q))" and wr: "\<And>m. lw_write (qy_w q) m = None"
  obtains m where "sv = \<lparr>sv_rcode = RcodeSuccess, sv_err = None, sv_written = [m]\<rparr>" "race_useful (Some m)"
    "msg_id m = msg_id (req_Req (qy_state q))" "Question m = take 1 (Question (req_Req (qy_state q)))"
proof (cases "peerList p = []")
  case True
  then have "race_returns W (setRcode (qy_env q)) rc (qy_w q) (req_Name (qy_state q)) (req_Req (qy_state q)) sv"
    using assms(1) by (auto simp: peer_returns_def)
  then show thesis by (rule race_returns_useful [OF _ assms(2,3) sr wr]) (rule that)
next
  case False
  then obtain s eff counts where s: "reach (race_init (peerList p)) (race_step q (wd_cerr W) (peerList p) (wd_answers W) (chain_leg W rc q)) s"
    "lr_out s = Some eff" "\<not> lr_ctx s" "eff st = (sv, counts, st')"
    using assms(1) by (auto simp: peer_returns_def)
  have "\<exists>m. out = (RcodeSuccess, None, [m]) \<and> pc_useful (Some m)" if leg: "chain_leg W rc q out" for out
  proof -
    obtain sv' where sv': "race_returns W (setRcode (qy_env q)) rc (detached_live (qy_w q)) (req_Name (qy_state q)) (req_Req (qy_state q)) sv'"
      "out = (sv_rcode sv', sv_err sv', sv_written sv')"
      using leg by (auto simp: chain_leg_def)
    obtain m where "sv' = \<lparr>sv_rcode = RcodeSuccess, sv_err = None, sv_written = [m]\<rparr>" "race_useful (Some m)"
      by (rule race_returns_useful [OF sv'(1) assms(2,3) sr detached_live_writes])
    then show ?thesis using sv'(2) by (simp add: useful_same)
  qed
  then obtain m where "fst (eff st) = \<lparr>sv_rcode = RcodeSuccess, sv_err = None, sv_written = [m]\<rparr>" "pc_useful (Some m)"
    "msg_id m = msg_id (req_Req (qy_state q))" "Question m = take 1 (Question (req_Req (qy_state q)))"
    by (rule race_returned_useful [OF s(1-3) _ sr wr])
  then show thesis using that s(4) by (simp add: useful_same)
qed

lemma peer_returns_exists:
  assumes "wd_zone W (race_from rc) (req_Name (qy_state q))" "legs_end W p rc"
  shows "\<exists>sv st'. peer_returns W p rc q st sv st'"
proof -
  have conns: "\<exists>conn. wd_conns W i conn" if "i < length (proxies rc)" for i using that assms(2) by (auto simp: legs_end_def)
  show ?thesis
  proof (cases "peerList p = []")
    case True
    obtain sv where sv: "race_returns W (setRcode (qy_env q)) rc (qy_w q) (req_Name (qy_state q)) (req_Req (qy_state q)) sv"
      using race_returns_exists [OF assms(1) conns] by blast
    define mo where "mo = (if sv_written sv = [] then None else Some (last (sv_written sv)))"
    obtain eff where eff: "pc_ServeDNS p q (wd_cerr W) (sv, mo) [] = Some eff" "fst (eff st) = sv"
      using True by (cases mo) (auto simp: pc_ServeDNS_def h_alloc_def)
    then obtain counts st' where "eff st = (sv, counts, st')" by (cases "eff st") auto
    then have "peer_returns W p rc q st sv st'"
      using True sv eff(1) unfolding peer_returns_def recorded_def mo_def by auto
    then show ?thesis by blast
  next
    case False
    let ?ps = "peerList p"
    obtain t where t: "reach (race_init ?ps) (race_step q (wd_cerr W) ?ps (wd_answers W) (chain_leg W rc q)) t" "\<not> lr_ctx t"
      "lr_final (race_body q) (race_after q) (race_cancelled (wd_cerr W))
        (peer_outcome (wd_answers W) (chain_leg W rc q) (qy_w q) ?ps) (length ?ps + 1) t"
      unfolding race_init_def race_step_def by (rule lr_complete_run)
    have "\<exists>out. chain_leg W rc q out" using race_returns_exists [OF assms(1) conns] unfolding chain_leg_def by blast
    moreover have "\<exists>out. wd_answers W i out" if "i < length ?ps" for i using that assms(2) by (auto simp: legs_end_def)
    ultimately obtain eff where "lr_out t = Some eff" using race_final_returned [OF t(1,3)] by blast
    moreover obtain sv counts st' where "eff st = (sv, counts, st')" by (cases "eff st") auto
    ultimately have "peer_returns W p rc q st sv st'" using False t(1,2) unfolding peer_returns_def by auto
    then show ?thesis by blast
  qed
qed

subsection \<open>The server keeps its promise\<close>

text \<open>
  C4: the server refines the specification of what a client is promised. Let the published
  list be built from block names \<open>bs\<close> and allow names \<open>als\<close>, let one upstream of race be
  good for the question while the others, and the probes of all siblings, merely end, and
  let the client's connection accept the write. Then the query can be run to the end, and
  every run that returns before the context is done has written exactly one message to
  the client, under its identifier and question: an authoritative NXDOMAIN without records
  for an unwanted name, and otherwise an answer that is not truncated and is a success
  or a genuine NXDOMAIN, however the legs of the two races interleave and whatever the
  siblings and the other upstreams answer.
\<close>

theorem server_refines_home_spec:
  assumes sr: "set_rcode_ok (setRcode (qy_env q))" and wr: "\<And>m. lw_write (qy_w q) m = None"
    and cur: "current b = Some \<lparr>block = newNameSet bs, allow = newNameSet als\<rparr>"
    and zone: "wd_zone W (race_from rc) (req_Name (qy_state q))" and good: "good_upstream W rc (req_Req (qy_state q)) i"
    and ends: "legs_end W p rc"
  shows "(\<exists>sv after. server_returns W ul server b p rc q before sv after) \<and>
    (\<forall>sv after. server_returns W ul server b p rc q before sv after \<longrightarrow>
       home_spec bs als (normalizeQuery ul (req_Name (qy_state q))) (req_Req (qy_state q)) sv)"
proof (intro conjI allI impI)
  let ?n = "normalizeQuery ul (req_Name (qy_state q))" and ?r = "req_Req (qy_state q)"
  note dec = blocked_published [OF cur, of ?n]
  obtain nx st' where "peer_returns W p rc q (snd before) nx st'" using peer_returns_exists [OF zone ends] by blast
  then show "\<exists>sv after. server_returns W ul server b p rc q before sv after"
    unfolding server_returns_def
    by (intro exI [of _ "snd (ServeDNS ul (setRcode (qy_env q)) (\<lambda>_. nx) server (req_Name (qy_state q)) (qy_w q) ?r b (fst before))"]
        exI [of _ "(fst (ServeDNS ul (setRcode (qy_env q)) (\<lambda>_. nx) server (req_Name (qy_state q)) (qy_w q) ?r b (fst before)),
          if blocked (current b) ?n then snd before else st')"] exI [of _ nx]) simp
next
  let ?n = "normalizeQuery ul (req_Name (qy_state q))" and ?r = "req_Req (qy_state q)"
  fix sv after
  assume "server_returns W ul server b p rc q before sv after"
  then obtain nx where nx: "\<not> blocked (current b) ?n \<Longrightarrow> peer_returns W p rc q (snd before) nx (snd after)"
    and sv: "(fst after, sv) = ServeDNS ul (setRcode (qy_env q)) (\<lambda>_. nx) server (req_Name (qy_state q)) (qy_w q) ?r b (fst before)"
    by (auto simp: server_returns_def split: if_splits)
  show "home_spec bs als ?n ?r sv"
  proof (cases "blocked (current b) ?n")
    case True
    then have u: "unwanted bs als ?n" using blocked_published [OF cur] by simp
    have "sv = \<lparr>sv_rcode = RcodeNameError, sv_err = None,
        sv_written = [(setRcode (qy_env q) new_msg ?r RcodeNameError)\<lparr>Authoritative := True\<rparr>]\<rparr>"
      using sv True wr by (simp add: ServeDNS_def Let_def)
    then show ?thesis
      using u set_rcode_okD [OF sr, of new_msg ?r RcodeNameError] by (simp add: home_spec_def new_msg_def)
  next
    case False
    then have u: "\<not> unwanted bs als ?n" using blocked_published [OF cur] by simp
    have "sv = nx" using sv False by (simp add: ServeDNS_def)
    moreover obtain m where "nx = \<lparr>sv_rcode = RcodeSuccess, sv_err = None, sv_written = [m]\<rparr>" "race_useful (Some m)"
      "msg_id m = msg_id ?r" "Question m = take 1 (Question ?r)"
      by (rule peer_returns_useful [OF nx [OF False] zone good sr wr])
    ultimately show ?thesis using u by (auto simp: home_spec_def useful_iff)
  qed
qed

text \<open>A server with one sibling that is down and one upstream that answers.\<close>

definition sample_world :: world where
  "sample_world =
     \<lparr>wd_zone = (\<lambda>_ _. True), wd_rest = (\<lambda>_. \<lparr>sv_rcode = 0, sv_err = None, sv_written = []\<rparr>),
      wd_match = (\<lambda>_ _. True), wd_conns = sample_conns, wd_answers = (\<lambda>_ out. out = (None, Some (mk_err DeadlineExceeded))),
      wd_cerr = mk_err Canceled\<rparr>"

lemma sample_world_good:
  "good_upstream sample_world sample_race r 0" "legs_end sample_world p sample_race"
proof -
  have "race_useful (lg_msg (fst (exchange (\<lambda>_ _. True) conn (px_addr (proxies sample_race ! 0)) r)))"
    if "sample_conns 0 conn" for conn
    using that sample_exchange sample_useful by (simp add: sample_conns_def sample_race_def)
  then show "good_upstream sample_world sample_race r 0"
    by (simp add: good_upstream_def sample_world_def sample_race_def)
  show "legs_end sample_world p sample_race"
    by (simp add: legs_end_def sample_world_def sample_conns_def)
qed

theorem server_refines_home_spec_witness:
  "\<exists>sv after. server_returns sample_world id ''dns://:53''
       (sample_b\<lparr>current := Some \<lparr>block = newNameSet [''example.com''], allow = newNameSet []\<rparr>\<rparr>)
       \<lparr>selector = ''x'', port = 8053, peers = Some [''10.0.0.2:8053'']\<rparr> sample_race sample_q
       (sample_mx, sy_store sample_sys) sv after \<and>
     home_spec [''example.com''] [] (normalizeQuery id (req_Name (qy_state sample_q))) (req_Req (qy_state sample_q)) sv"
proof -
  let ?b = "sample_b\<lparr>current := Some \<lparr>block = newNameSet [''example.com''], allow = newNameSet []\<rparr>\<rparr>"
  have "set_rcode_ok (setRcode (qy_env sample_q))" "\<And>m. lw_write (qy_w sample_q) m = None"
    using sample_ok by (simp_all add: sample_q_def)
  moreover have "current ?b = Some \<lparr>block = newNameSet [''example.com''], allow = newNameSet []\<rparr>" by simp
  moreover have "wd_zone sample_world z n" for z n by (simp add: sample_world_def)
  ultimately show ?thesis
    using server_refines_home_spec [where q = sample_q and b = ?b and bs = "[''example.com'']" and als = "[]" and
        p = "\<lparr>selector = ''x'', port = 8053, peers = Some [''10.0.0.2:8053'']\<rparr>" and ul = id and server = "''dns://:53''" and
        before = "(sample_mx, sy_store sample_sys)", OF _ _ _ _ sample_world_good]
    by blast
qed

end
