(* ===== verification/Cluster.thy ===== *)
theory Cluster
  imports Server Siblings
begin

text \<open>
  The replicas of a deployment together: each runs the peercache handler on its clients'
  queries and the listener on its siblings' probes, and an answer one of them resolved is
  passed on from store to store. The theory follows an answer through any number of
  replicas and shows that records are never invented or mixed up on the way, and that
  an answer cannot be passed around for ever.

  The state of a replica is its store; what the network carries is a list of flights that
  may be delivered late, repeatedly or never. Where a flight came from, and which flight
  an entry was stored from, are history: the steps record them and never read them
  except to record. All replicas measure time on one axis. Only differences
  of one replica's own readings enter the code.
\<close>

subsection \<open>Flights\<close>

text \<open>
  A message on its way: the answer of an upstream to a query, a sibling's refusal of a
  probe, or a sibling's answer to a probe, made from what an earlier flight brought and
  held for some time.
\<close>

datatype flight =
  Upstream request msg
| Refusal request msg
| Reply request msg flight int

primrec fl_req :: "flight \<Rightarrow> request" where
  "fl_req (Upstream rq m) = rq"
| "fl_req (Refusal rq m) = rq"
| "fl_req (Reply rq m f d) = rq"

primrec fl_msg :: "flight \<Rightarrow> msg" where
  "fl_msg (Upstream rq m) = m"
| "fl_msg (Refusal rq m) = m"
| "fl_msg (Reply rq m f d) = m"

primrec origin :: "flight \<Rightarrow> flight" where
  "origin (Upstream rq m) = Upstream rq m"
| "origin (Refusal rq m) = Refusal rq m"
| "origin (Reply rq m f d) = origin f"

text \<open>
  The time an answer was held by the stores on its way, and how often it was passed on after
  it had been held for at least \<open>w\<close> nanoseconds. With \<open>w = 1\<close> these are all passes but those
  made at the very clock reading at which the answer was stored.
\<close>

primrec held_for :: "flight \<Rightarrow> int" where
  "held_for (Upstream rq m) = 0"
| "held_for (Refusal rq m) = 0"
| "held_for (Reply rq m f d) = held_for f + d"

primrec hops :: "int \<Rightarrow> flight \<Rightarrow> nat" where
  "hops w (Upstream rq m) = 0"
| "hops w (Refusal rq m) = 0"
| "hops w (Reply rq m f d) = hops w f + (if w \<le> d then 1 else 0)"

definition from_upstream :: "flight \<Rightarrow> bool" where
  "from_upstream f \<longleftrightarrow> (\<exists>rq m. f = Upstream rq m)"

subsection \<open>The steps of a deployment\<close>

record 'c cluster =
  cl_now :: int
  cl_store :: "nat \<Rightarrow> 'c store"
  cl_net :: "flight list"
  cl_held :: "nat \<Rightarrow> 64 word \<Rightarrow> flight"
  cl_sent :: "(request \<times> msg \<times> flight) list"

definition cl_init :: "'c store_env \<Rightarrow> 'c cluster \<Rightarrow> bool" where
  "cl_init E c \<longleftrightarrow>
     cl_net c = [] \<and> cl_sent c = [] \<and> (\<forall>i. cl_store c i = newStore E storeCapacity (s_heap (cl_store c i)))"

definition same_question :: "request \<Rightarrow> request \<Rightarrow> bool" where
  "same_question a b \<longleftrightarrow> req_Name a = req_Name b \<and> req_QType a = req_QType b \<and> req_QClass a = req_QClass b"

text \<open>
  The result of a leg of the race for \<open>q\<close> that delivered the message of a flight: a probe
  that a sibling answered, or the chain behind the plugin, whose last message counts. That
  the delivered message answers the question asked is what the DNS client and the chain
  behind the plugin are relied on for; the code of the plugin does not check it.
\<close>

definition leg_from :: "flight list \<Rightarrow> 'c query \<Rightarrow> flight \<Rightarrow> peer_leg \<Rightarrow> bool" where
  "leg_from net q f res \<longleftrightarrow>
     f \<in> set net \<and> same_question (fl_req f) (qy_state q) \<and>
     (if from_upstream f then \<exists>rcode err ms. res = upstream_leg (qy_w q) (rcode, err, ms @ [fl_msg f])
      else \<exists>took. res = fst (probe (Some (fl_msg f), None) took))"

text \<open>What the history remembers of a probe's reply, and of an answer given to the store.\<close>

definition stamp :: "'c store_env \<Rightarrow> 'c cluster \<Rightarrow> nat \<Rightarrow> PeerCache \<Rightarrow> live_writer \<Rightarrow> request \<Rightarrow> msg \<Rightarrow> flight" where
  "stamp E c j p w rq m =
     (if isPeer p (lw_remote w) \<and> length (Question (req_Req rq)) = 1 \<and> fst (get E (cl_now c) rq (cl_store c j)) \<noteq> None
      then Reply rq m (cl_held c j (key E rq))
             (cl_now c - e_stored (the (c_Get (ops E) (s_c (cl_store c j)) (key E rq))))
      else Refusal rq m)"

definition remembered :: "'c store_env \<Rightarrow> 'c cluster \<Rightarrow> nat \<Rightarrow> 'c query \<Rightarrow> flight \<Rightarrow> nat \<Rightarrow> 64 word \<Rightarrow> flight" where
  "remembered E c i q f =
     (if put_accepts E (qy_time q) (qy_state q) (fl_msg f)
      then (cl_held c)(i := (cl_held c i)(key E (qy_state q) := f)) else cl_held c)"

definition finish :: "'c cluster \<Rightarrow> nat \<Rightarrow> 'c query \<Rightarrow> flight \<Rightarrow> served \<Rightarrow> 'c store \<Rightarrow> 'c cluster" where
  "finish c i q f sv s =
     c\<lparr>cl_store := (cl_store c)(i := s), cl_sent := map (\<lambda>m. (qy_state q, m, f)) (sv_written sv) @ cl_sent c\<rparr>"

text \<open>
  An upstream answers some query; time passes; a replica starts again with an empty store;
  a listener serves a probe; a client's query ends, because a leg's answer won the race, or
  because none did and the upstream's message is handed on, or without siblings. Returns that
  carry no message change nothing here.
\<close>

inductive cl_step :: "'c store_env \<Rightarrow> 'c cluster \<Rightarrow> 'c cluster \<Rightarrow> bool" for E :: "'c store_env" where
  cl_resolved: "cl_step E c (c\<lparr>cl_net := Upstream rq m # cl_net c\<rparr>)"
| cl_tick: "cl_now c \<le> now \<Longrightarrow> cl_step E c (c\<lparr>cl_now := now\<rparr>)"
| cl_restart: "cl_step E c (c\<lparr>cl_store := (cl_store c)(i := newStore E storeCapacity h)\<rparr>)"
| cl_probed:
    "serveProbe E p w rq (cl_now c) elapsed (cl_store c j) = (ms, counts, s) \<Longrightarrow>
     cl_step E c (c\<lparr>cl_store := (cl_store c)(j := s), cl_net := map (stamp E c j p w rq) ms @ cl_net c\<rparr>)"
| cl_won:
    "qy_env q = E \<Longrightarrow> qy_now q = cl_now c \<Longrightarrow> leg_from (cl_net c) q f res \<Longrightarrow> race_body q u res = Return x \<Longrightarrow>
     x (cl_store c i) = (sv, counts, s) \<Longrightarrow>
     cl_step E c (finish (c\<lparr>cl_held := remembered E c i q f\<rparr>) i q f sv s)"
| cl_lost:
    "qy_env q = E \<Longrightarrow> leg_from (cl_net c) q f res \<Longrightarrow> from_upstream f \<Longrightarrow>
     race_after q (Some res) (cl_store c i) = (sv, counts, s) \<Longrightarrow>
     cl_step E c (finish c i q f sv s)"
| cl_direct:
    "qy_env q = E \<Longrightarrow> qy_now q = cl_now c \<Longrightarrow> f \<in> set (cl_net c) \<Longrightarrow> from_upstream f \<Longrightarrow>
     same_question (fl_req f) (qy_state q) \<Longrightarrow> set (sv_written sv) \<subseteq> {fl_msg f} \<Longrightarrow> peerList p = [] \<Longrightarrow>
     pc_ServeDNS p q cerr (sv, Some (fl_msg f)) evs = Some eff \<Longrightarrow> eff (cl_store c i) = (sv', counts, s) \<Longrightarrow>
     cl_step E c (finish (c\<lparr>cl_held := remembered E c i q f\<rparr>) i q f sv' s)"

subsection \<open>What a store holds\<close>

definition store_wf :: "'c store_env \<Rightarrow> 'c store \<Rightarrow> bool" where
  "store_wf E s \<longleftrightarrow>
     (\<forall>k e. c_Get (ops E) (s_c s) k = Some e \<longrightarrow>
        e_msg e < h_next (s_heap s) \<and> minTTL (h_cell (s_heap s) (e_msg e)) = Some (e_origTTL e))"

definition holds :: "'c store_env \<Rightarrow> 'c store \<Rightarrow> 64 word \<Rightarrow> msg \<Rightarrow> int \<Rightarrow> bool" where
  "holds E s k m t \<longleftrightarrow>
     (\<exists>e. c_Get (ops E) (s_c s) k = Some e \<and> h_cell (s_heap s) (e_msg e) = m \<and> e_stored e = t)"

text \<open>A store whose entries are among those of another and whose heap extends the other's.\<close>

lemma store_frame:
  assumes "store_wf E s" "\<And>k e. c_Get (ops E) (s_c s') k = Some e \<Longrightarrow> c_Get (ops E) (s_c s) k = Some e"
    and "h_next (s_heap s) \<le> h_next (s_heap s')"
    and "\<And>p. p < h_next (s_heap s) \<Longrightarrow> h_cell (s_heap s') p = h_cell (s_heap s) p"
  shows "store_wf E s'" "holds E s' k m t \<Longrightarrow> holds E s k m t"
proof -
  have e: "e_msg e < h_next (s_heap s)" "minTTL (h_cell (s_heap s) (e_msg e)) = Some (e_origTTL e)"
    if "c_Get (ops E) (s_c s') k = Some e" for k e
    using assms(1) assms(2) [OF that] by (auto simp: store_wf_def)
  then show "store_wf E s'" using assms(3,4) unfolding store_wf_def by (metis less_le_trans)
  show "holds E s' k m t \<Longrightarrow> holds E s k m t" unfolding holds_def using assms(2,4) e(1) by metis
qed

lemma new_store: "cache_ok (ops E) \<Longrightarrow> store_wf E (newStore E n h)" "cache_ok (ops E) \<Longrightarrow> \<not> holds E (newStore E n h) k m t"
  by (simp_all add: cache_ok_def store_wf_def holds_def newStore_def)

text \<open>
  An answer given to the store, in a fresh cell the caller may change afterwards: it is
  held under its key if it is accepted, and nothing else is new.
\<close>

lemma put_fresh:
  assumes "put_accepts E t rq m"
    and s1: "s1 = put E t now rq (Some (h_next (s_heap s))) (s\<lparr>s_heap := snd (h_alloc (s_heap s) m)\<rparr>)"
  obtains ttl where "minTTL m = Some ttl"
    "s_c s1 = c_Add (ops E) (key E rq) \<lparr>e_msg = Suc (h_next (s_heap s)), e_stored = now, e_origTTL = ttl\<rparr> (s_c s)"
    "h_next (s_heap s1) = Suc (Suc (h_next (s_heap s)))" "h_cell (s_heap s1) (Suc (h_next (s_heap s))) = m"
    "\<And>p. p < h_next (s_heap s) \<Longrightarrow> h_cell (s_heap s1) p = h_cell (s_heap s) p"
proof -
  let ?p = "h_next (s_heap s)" and ?s0 = "s\<lparr>s_heap := snd (h_alloc (s_heap s) m)\<rparr>"
  have cell: "h_cell (s_heap ?s0) ?p = m" "h_next (s_heap ?s0) = Suc ?p" by (simp_all add: heap_defs)
  obtain ttl where st: "storable E t rq (Some (h_cell (s_heap ?s0) ?p))"
    "minTTL (h_cell (s_heap ?s0) ?p) = Some ttl" "minServeTTL \<le> uint ttl * second"
    using assms(1) unfolding cell(1) by (auto simp: put_accepts_def)
  note put = s1 [unfolded put_stored [OF st]]
  show thesis
    by (rule that [of ttl]) (use st(2) in \<open>simp_all add: put Let_def heap_defs\<close>)
qed

lemma put_kept:
  assumes ok: "cache_ok (ops E)" and wf: "store_wf E s"
    and s1: "s1 = put E t now rq (Some (h_next (s_heap s))) (s\<lparr>s_heap := snd (h_alloc (s_heap s) m)\<rparr>)"
    and h: "h_next (s_heap s1) \<le> h_next h" "\<And>p. p \<noteq> h_next (s_heap s) \<Longrightarrow> h_cell h p = h_cell (s_heap s1) p"
  shows "store_wf E (s1\<lparr>s_heap := h\<rparr>) \<and>
    (\<forall>k m' t'. holds E (s1\<lparr>s_heap := h\<rparr>) k m' t' \<longrightarrow>
       (if k = key E rq \<and> put_accepts E t rq m then m' = m \<and> t' = now else holds E s k m' t'))"
proof (cases "put_accepts E t rq m")
  case False
  let ?p = "h_next (s_heap s)" and ?s0 = "s\<lparr>s_heap := snd (h_alloc (s_heap s) m)\<rparr>"
  have "h_cell (s_heap ?s0) ?p = m" by (simp add: heap_defs)
  then have "s1 = ?s0" unfolding s1 using put_ignored [of E t rq ?s0 ?p now] False by simp
  then have "h_next (s_heap s) \<le> h_next h" "\<And>p. p < ?p \<Longrightarrow> h_cell h p = h_cell (s_heap s) p"
    "\<And>k. c_Get (ops E) (s_c (s1\<lparr>s_heap := h\<rparr>)) k = c_Get (ops E) (s_c s) k"
    using h by (auto simp: heap_defs)
  then show ?thesis using store_frame [OF wf, of "s1\<lparr>s_heap := h\<rparr>"] False by auto
next
  case True
  let ?p = "h_next (s_heap s)"
  obtain ttl where ttl: "minTTL m = Some ttl"
    and c: "s_c s1 = c_Add (ops E) (key E rq) \<lparr>e_msg = Suc ?p, e_stored = now, e_origTTL = ttl\<rparr> (s_c s)"
    and hp: "h_next (s_heap s1) = Suc (Suc ?p)" "h_cell (s_heap s1) (Suc ?p) = m"
      "\<And>p. p < ?p \<Longrightarrow> h_cell (s_heap s1) p = h_cell (s_heap s) p"
    using put_fresh [OF True s1] by blast
  have new: "h_cell h (Suc ?p) = m" "Suc ?p < h_next h" using h hp by auto
  have old: "p < ?p \<Longrightarrow> h_cell h p = h_cell (s_heap s) p" for p using h(2) hp(3) by simp
  have e: "if k = key E rq then e = \<lparr>e_msg = Suc ?p, e_stored = now, e_origTTL = ttl\<rparr>
      else c_Get (ops E) (s_c s) k = Some e \<and> e_msg e < ?p \<and> minTTL (h_cell (s_heap s) (e_msg e)) = Some (e_origTTL e)"
    if "c_Get (ops E) (s_c s1) k = Some e" for k e
  proof (cases "k = key E rq")
    case True
    then show ?thesis using that cache_okD(1) [OF ok] unfolding c by simp
  next
    case False
    then have "c_Get (ops E) (s_c s) k = Some e" using that cache_okD(2) [OF ok False] unfolding c by blast
    then show ?thesis using False wf by (simp add: store_wf_def)
  qed
  have "e_msg e < h_next h \<and> minTTL (h_cell h (e_msg e)) = Some (e_origTTL e)"
    if "c_Get (ops E) (s_c s1) k = Some e" for k e
    using e [OF that] new ttl old by (cases "k = key E rq") auto
  moreover have "if k = key E rq then h_cell h (e_msg e) = m \<and> e_stored e = now else holds E s k (h_cell h (e_msg e)) (e_stored e)"
    if "c_Get (ops E) (s_c s1) k = Some e" for k e
    using e [OF that] new(1) old by (cases "k = key E rq") (auto simp: holds_def)
  ultimately show ?thesis using True by (auto simp: store_wf_def holds_def [of E "s1\<lparr>s_heap := h\<rparr>"])
qed

text \<open>What the ends of a query leave in the store.\<close>

lemma won_kept:
  assumes "cache_ok (ops (qy_env q))" "store_wf (qy_env q) s" "race_body q u res = Return x" "pl_msg res = Some m"
  shows "store_wf (qy_env q) (snd (snd (x s))) \<and>
    (\<forall>k m' t'. holds (qy_env q) (snd (snd (x s))) k m' t' \<longrightarrow>
       (if k = key (qy_env q) (qy_state q) \<and> put_accepts (qy_env q) (qy_time q) (qy_state q) m
        then m' = m \<and> t' = qy_now q else holds (qy_env q) s k m' t'))"
proof -
  define s1 where "s1 = put (qy_env q) (qy_time q) (qy_now q) (qy_state q) (Some (h_next (s_heap s)))
    (s\<lparr>s_heap := snd (h_alloc (s_heap s) m)\<rparr>)"
  define m' where "m' = setRcode (qy_env q) (h_cell (s_heap s1) (h_next (s_heap s))) (req_Req (qy_state q))
    (Rcode (h_cell (s_heap s1) (h_next (s_heap s))))"
  have "snd (snd (x s)) = s1\<lparr>s_heap := h_write (s_heap s1) (h_next (s_heap s)) m'\<rparr>"
    using assms(3,4) unfolding m'_def s1_def
    by (cases "lw_write (qy_w q) m'")
      (auto simp: race_body_def Let_def h_alloc_def pc_reply_def split: if_splits option.splits)
  then show ?thesis using put_kept [OF assms(1,2) s1_def, of "h_write (s_heap s1) (h_next (s_heap s)) m'"]
    by (simp add: h_write_def)
qed

lemma direct_kept:
  assumes "cache_ok (ops (qy_env q))" "store_wf (qy_env q) s" "peerList p = []"
    and "pc_ServeDNS p q cerr (sv, Some m) evs = Some eff"
  shows "fst (eff s) = sv \<and> store_wf (qy_env q) (snd (snd (eff s))) \<and>
    (\<forall>k m' t'. holds (qy_env q) (snd (snd (eff s))) k m' t' \<longrightarrow>
       (if k = key (qy_env q) (qy_state q) \<and> put_accepts (qy_env q) (qy_time q) (qy_state q) m
        then m' = m \<and> t' = qy_now q else holds (qy_env q) s k m' t'))"
proof -
  define s1 where "s1 = put (qy_env q) (qy_time q) (qy_now q) (qy_state q) (Some (h_next (s_heap s)))
    (s\<lparr>s_heap := snd (h_alloc (s_heap s) m)\<rparr>)"
  have "eff s = (sv, [], s1)"
    using assms(3,4) unfolding s1_def by (auto simp: pc_ServeDNS_def h_alloc_def)
  then show ?thesis using put_kept [OF assms(1,2) s1_def, of "s_heap s1"] by simp
qed

lemma lost_kept:
  assumes "store_wf (qy_env q) s" "pl_msg res = Some m"
  shows "store_wf (qy_env q) (snd (snd (race_after q (Some res) s))) \<and>
    (\<forall>k m' t'. holds (qy_env q) (snd (snd (race_after q (Some res) s))) k m' t' \<longrightarrow> holds (qy_env q) s k m' t')"
proof -
  let ?s = "snd (snd (race_after q (Some res) s))"
  have "s_c ?s = s_c s" "h_next (s_heap ?s) = Suc (h_next (s_heap s))"
    "\<And>p. p < h_next (s_heap s) \<Longrightarrow> h_cell (s_heap ?s) p = h_cell (s_heap s) p"
    using assms(2) by (auto simp: race_after_def pc_reply_def heap_defs Let_def split: option.splits)
  then show ?thesis using store_frame [OF assms(1), of ?s] by simp
qed

text \<open>A lookup only forgets, and a hit is made from what is held.\<close>

lemma get_kept:
  assumes "cache_ok (ops E)" "set_rcode_ok (setRcode E)" "store_wf E s"
  shows "store_wf E (snd (get E now rq s)) \<and> (\<forall>k m t. holds E (snd (get E now rq s)) k m t \<longrightarrow> holds E s k m t) \<and>
    (fst (get E now rq s) \<noteq> None \<longrightarrow>
      (\<exists>e. c_Get (ops E) (s_c s) (key E rq) = Some e \<and> minServeTTL \<le> get_remaining now e \<and>
         rebased (h_cell (s_heap s) (e_msg e)) (req_Req rq) (serve_ttl (get_remaining now e))
           (h_cell (s_heap (snd (get E now rq s))) (the (fst (get E now rq s))))))"
proof -
  let ?g = "get E now rq s"
  consider (miss) "req_Do rq \<or> CheckingDisabled (req_Req rq) \<or> c_Get (ops E) (s_c s) (key E rq) = None"
    | (expired) e where "\<not> req_Do rq" "\<not> CheckingDisabled (req_Req rq)"
        "c_Get (ops E) (s_c s) (key E rq) = Some e" "get_remaining now e < minServeTTL"
    | (hit) e where "\<not> req_Do rq" "\<not> CheckingDisabled (req_Req rq)"
        "c_Get (ops E) (s_c s) (key E rq) = Some e" "minServeTTL \<le> get_remaining now e"
    using not_less by blast
  then show ?thesis
  proof cases
    case miss
    then show ?thesis using assms(3) by (simp add: get_miss)
  next
    case (expired e)
    then have g: "fst ?g = None" "s_heap (snd ?g) = s_heap s" "s_c (snd ?g) = c_Remove (ops E) (key E rq) (s_c s)"
      by (simp_all add: get_expired)
    have "c_Get (ops E) (s_c (snd ?g)) k = Some e' \<Longrightarrow> c_Get (ops E) (s_c s) k = Some e'" for k e'
      unfolding g(3) using cache_okD(3,4) [OF assms(1)] by (metis option.distinct(1))
    then show ?thesis using store_frame [OF assms(3), of "snd ?g"] g by simp
  next
    case (hit e)
    then have "e_msg e < h_next (s_heap s)" using assms(3) by (auto simp: store_wf_def)
    with hit obtain s' where g: "?g = (Some (h_next (s_heap s)), s')" "s_c s' = s_c s"
      "h_next (s_heap s') = Suc (h_next (s_heap s))"
      "\<forall>q. q \<noteq> h_next (s_heap s) \<longrightarrow> h_cell (s_heap s') q = h_cell (s_heap s) q"
      "rebased (h_cell (s_heap s) (e_msg e)) (req_Req rq) (serve_ttl (get_remaining now e)) (h_cell (s_heap s') (h_next (s_heap s)))"
      by (rule get_hit [OF assms(2)]) blast
    then show ?thesis using store_frame [OF assms(3), of s'] hit(3,4) by auto
  qed
qed

subsection \<open>Sound flights\<close>

text \<open>
  A reply is its parent's message with the asker's header and one lifetime in all records:
  what is left of the parent's least lifetime, rounded by less than a second, in whole
  seconds below \<open>2^24\<close>, and never less than five.
\<close>

definition aged :: "msg \<Rightarrow> int \<Rightarrow> 32 word \<Rightarrow> bool" where
  "aged m d ttl \<longleftrightarrow>
     lifetimes m \<noteq> [] \<and> 0 \<le> d \<and> 5 \<le> uint ttl \<and> uint ttl \<le> uint (Min (set (lifetimes m))) \<and>
     uint ttl * second < uint (Min (set (lifetimes m))) * second - d + second \<and>
     (uint (Min (set (lifetimes m))) < 2 ^ 24 \<longrightarrow> uint ttl = (uint (Min (set (lifetimes m))) * second - d) div second)"

primrec sound :: "'c store_env \<Rightarrow> flight \<Rightarrow> bool" where
  "sound E (Upstream rq m) = True"
| "sound E (Refusal rq m) = (Rcode m = RcodeRefused \<and> lifetimes m = [])"
| "sound E (Reply rq m f d) =
     (sound E f \<and> key E rq = key E (fl_req f) \<and> (\<exists>ttl. aged (fl_msg f) d ttl \<and> rebased (fl_msg f) (req_Req rq) ttl m))"

lemma served_aged:
  assumes "e_stored e \<le> now" "minServeTTL \<le> get_remaining now e" "minTTL m = Some (e_origTTL e)"
  shows "aged m (now - e_stored e) (serve_ttl (get_remaining now e))"
proof -
  have L: "lifetimes m \<noteq> []" "e_origTTL e = Min (set (lifetimes m))" using assms(3) by (auto simp: minTTL_eq split: if_splits)
  have r: "get_remaining now e \<le> uint (e_origTTL e) * second" using get_remaining_le [OF assms(1)] .
  show ?thesis
    using L assms(1) serve_ttl_bounds(1,2,4) [OF assms(2) r] serve_ttl_exact [OF assms(2) r] get_remaining_hit [OF assms(1,2)]
    by (simp add: aged_def)
qed

text \<open>Records without their lifetimes.\<close>

definition same_records :: "msg \<Rightarrow> msg \<Rightarrow> bool" where
  "same_records a b \<longleftrightarrow>
     Answer (setTTL a 0) = Answer (setTTL b 0) \<and> Ns (setTTL a 0) = Ns (setTTL b 0) \<and> Extra (setTTL a 0) = Extra (setTTL b 0)"

lemma setTTL_rrs_twice [simp]: "setTTL_rrs a (setTTL_rrs b rs) = setTTL_rrs a rs"
  by (simp add: setTTL_rrs_def)

lemma rebased_records: "rebased m r ttl m' \<Longrightarrow> same_records m' m \<and> Rcode m' = Rcode m"
  by (simp add: rebased_def same_records_def)

lemma rebased_lifetimes: "rebased m r ttl m' \<Longrightarrow> lifetimes m' = map (\<lambda>_. ttl) (lifetimes m)"
  using lifetimes_setTTL [of m ttl] by (simp add: rebased_def lifetimes_def)

lemma same_records_trans: "same_records a b \<Longrightarrow> same_records b c \<Longrightarrow> same_records a c"
  by (simp add: same_records_def)

text \<open>
  What a chain of replies keeps of the upstream's answer. The least lifetime can only
  fall: by a whole second on every pass after a second, and below \<open>2^24\<close> seconds by what the
  answer was held for and by a whole second on every pass after any time.
\<close>

lemma sound_origin:
  assumes "sound E f" "lifetimes (fl_msg f) \<noteq> []"
  shows "from_upstream (origin f) \<and> key E (fl_req (origin f)) = key E (fl_req f) \<and>
    Rcode (fl_msg f) = Rcode (fl_msg (origin f)) \<and> same_records (fl_msg f) (fl_msg (origin f)) \<and>
    lifetimes (fl_msg (origin f)) \<noteq> []"
  using assms
proof (induction f)
  case (Upstream rq m)
  then show ?case by (simp add: from_upstream_def same_records_def)
next
  case (Reply rq m f d)
  then obtain ttl where t: "sound E f" "key E rq = key E (fl_req f)" "lifetimes (fl_msg f) \<noteq> []"
    "rebased (fl_msg f) (req_Req rq) ttl m"
    by (auto simp: aged_def)
  from Reply.IH [OF t(1,3)] rebased_records [OF t(4)] t(2) show ?case by (auto intro: same_records_trans)
qed simp

lemma aged_falls:
  assumes "aged m d ttl" "l = uint (Min (set (lifetimes m)))"
  shows "uint ttl \<le> l" "second \<le> d \<Longrightarrow> uint ttl + 1 \<le> l"
    "l < 2 ^ 24 \<Longrightarrow> uint ttl * second \<le> l * second - d" "l < 2 ^ 24 \<Longrightarrow> 0 < d \<Longrightarrow> uint ttl + 1 \<le> l"
proof -
  have a: "uint ttl \<le> l" "uint ttl * second < l * second - d + second" "l < 2 ^ 24 \<Longrightarrow> uint ttl = (l * second - d) div second"
    using assms by (simp_all add: aged_def)
  show "uint ttl \<le> l" by (rule a(1))
  show "second \<le> d \<Longrightarrow> uint ttl + 1 \<le> l" using a(2) by (simp add: second_def)
  show le: "uint ttl * second \<le> l * second - d" if "l < 2 ^ 24"
    unfolding a(3) [OF that]
    using div_mult_mod_eq [of "l * second - d" second] pos_mod_sign [of second "l * second - d"] by (simp add: second_def)
  show "l < 2 ^ 24 \<Longrightarrow> 0 < d \<Longrightarrow> uint ttl + 1 \<le> l" using le by (simp add: second_def)
qed

lemma sound_lifetime:
  assumes "sound E f" "lifetimes (fl_msg f) \<noteq> []"
  defines "L \<equiv> \<lambda>f. uint (Min (set (lifetimes (fl_msg f))))"
  shows "L f + int (hops second f) \<le> L (origin f) \<and> 0 \<le> held_for f \<and>
    (L (origin f) < 2 ^ 24 \<longrightarrow> L f * second \<le> L (origin f) * second - held_for f \<and> L f + int (hops 1 f) \<le> L (origin f))"
  using assms(1,2)
proof (induction f)
  case (Reply rq m f d)
  then obtain ttl where t: "sound E f" "aged (fl_msg f) d ttl" "rebased (fl_msg f) (req_Req rq) ttl m" by auto
  have f: "lifetimes (fl_msg f) \<noteq> []" "0 \<le> d" using t(2) by (simp_all add: aged_def)
  have "lifetimes m = map (\<lambda>_. ttl) (lifetimes (fl_msg f))" using rebased_lifetimes [OF t(3)] .
  then have "set (lifetimes m) = {ttl}" using f(1) by (cases "lifetimes (fl_msg f)") auto
  then have Lr: "L (Reply rq m f d) = uint ttl" by (simp add: L_def)
  note IH = Reply.IH [OF t(1) f(1)] and falls = aged_falls [OF t(2), of "L f"]
  have "uint ttl + (if second \<le> d then 1 else 0) \<le> L f" using falls(1,2) by (simp add: L_def)
  moreover have "uint ttl * second \<le> L f * second - d \<and> uint ttl + (if 1 \<le> d then 1 else 0) \<le> L f" if "L f < 2 ^ 24"
    using falls(1,3,4) that by (simp add: L_def)
  ultimately show ?case using IH f(2) unfolding Lr by (auto simp: algebra_simps)
qed (simp_all add: L_def)

subsection \<open>The invariant\<close>

definition net_ok :: "'c store_env \<Rightarrow> 'c cluster \<Rightarrow> bool" where
  "net_ok E c \<longleftrightarrow> (\<forall>f \<in> set (cl_net c). sound E f \<and> origin f \<in> set (cl_net c))"

definition stores_ok :: "'c store_env \<Rightarrow> 'c cluster \<Rightarrow> bool" where
  "stores_ok E c \<longleftrightarrow>
     (\<forall>i. store_wf E (cl_store c i) \<and>
        (\<forall>k m t. holds E (cl_store c i) k m t \<longrightarrow>
           t \<le> cl_now c \<and> m = fl_msg (cl_held c i k) \<and> key E (fl_req (cl_held c i k)) = k \<and>
           cl_held c i k \<in> set (cl_net c)))"

definition readdressed :: "msg \<Rightarrow> msg \<Rightarrow> bool" where
  "readdressed m m' \<longleftrightarrow> Rcode m' = Rcode m \<and> Answer m' = Answer m \<and> Ns m' = Ns m \<and> Extra m' = Extra m"

definition clients_ok :: "'c store_env \<Rightarrow> 'c cluster \<Rightarrow> bool" where
  "clients_ok E c \<longleftrightarrow>
     (\<forall>(rq, m, f) \<in> set (cl_sent c).
        f \<in> set (cl_net c) \<and> key E rq = key E (fl_req f) \<and> readdressed (fl_msg f) m \<and>
        (from_upstream f \<or> pc_useful (Some (fl_msg f))))"

definition cl_ok :: "'c store_env \<Rightarrow> 'c cluster \<Rightarrow> bool" where
  "cl_ok E c \<longleftrightarrow> net_ok E c \<and> stores_ok E c \<and> clients_ok E c"

lemma cl_ok_init: "cache_ok (ops E) \<Longrightarrow> cl_init E c \<Longrightarrow> cl_ok E c"
  unfolding cl_ok_def net_ok_def stores_ok_def clients_ok_def cl_init_def
  by (metis new_store case_prodE empty_iff list.set(1))

text \<open>A store that only forgets, and one that took the message of a flight.\<close>

lemma stores_ok_forget:
  assumes "stores_ok E c" "store_wf E s" "\<And>k m t. holds E s k m t \<Longrightarrow> holds E (cl_store c i) k m t"
  shows "stores_ok E (c\<lparr>cl_store := (cl_store c)(i := s)\<rparr>)"
  using assms unfolding stores_ok_def by simp blast

lemma stores_ok_took:
  assumes "stores_ok E c" "f \<in> set (cl_net c)" "key E (fl_req f) = key E (qy_state q)"
    and s: "store_wf E s \<and> (\<forall>k m t. holds E s k m t \<longrightarrow>
       (if k = key E (qy_state q) \<and> put_accepts E (qy_time q) (qy_state q) (fl_msg f)
        then m = fl_msg f \<and> t = cl_now c else holds E (cl_store c i) k m t))"
  shows "stores_ok E (c\<lparr>cl_held := remembered E c i q f, cl_store := (cl_store c)(i := s)\<rparr>)"
proof -
  have "t \<le> cl_now c \<and> m = fl_msg (remembered E c i q f i k) \<and> key E (fl_req (remembered E c i q f i k)) = k \<and>
      remembered E c i q f i k \<in> set (cl_net c)" if "holds E s k m t" for k m t
  proof (cases "k = key E (qy_state q) \<and> put_accepts E (qy_time q) (qy_state q) (fl_msg f)")
    case True
    then show ?thesis using s that assms(2,3) by (auto simp: remembered_def)
  next
    case False
    then have "holds E (cl_store c i) k m t" using s that by meson
    then show ?thesis using False assms(1) by (auto simp: remembered_def stores_ok_def)
  qed
  moreover have "remembered E c i q f j = cl_held c j" if "j \<noteq> i" for j using that by (simp add: remembered_def)
  ultimately show ?thesis using assms(1) s by (simp add: stores_ok_def)
qed

lemma stores_ok_more: "stores_ok E c \<Longrightarrow> stores_ok E (c\<lparr>cl_net := fs @ cl_net c\<rparr>)"
  by (simp add: stores_ok_def)

lemma finish_ok:
  assumes "cl_ok E c" "stores_ok E (c\<lparr>cl_store := (cl_store c)(i := s)\<rparr>)"
    and "f \<in> set (cl_net c)" "key E (fl_req f) = key E (qy_state q)" "from_upstream f \<or> pc_useful (Some (fl_msg f))"
    and "\<And>m. m \<in> set (sv_written sv) \<Longrightarrow> readdressed (fl_msg f) m"
  shows "cl_ok E (finish c i q f sv s)"
  using assms by (auto simp: cl_ok_def net_ok_def stores_ok_def clients_ok_def finish_def)

lemma leg_from_msg:
  assumes "leg_from net q f res"
  shows "pl_msg res = Some (fl_msg f)" "f \<in> set net" "key E (fl_req f) = key E (qy_state q)"
  using assms probe_outcome [of "Some (fl_msg f)" None] key_same_question [of "fl_req f" "qy_state q" E]
  by (auto simp: leg_from_def same_question_def upstream_leg_def detached_New_def split: if_splits)

lemma set_rcode_readdressed: "set_rcode_ok sr \<Longrightarrow> readdressed m (sr m r (Rcode m))"
  by (simp add: readdressed_def set_rcode_okD)

lemma race_after_written:
  assumes "set_rcode_ok (setRcode (qy_env q))" "pl_msg res = Some m" "m' \<in> set (sv_written (fst (race_after q (Some res) s)))"
  shows "readdressed m m'"
  using assms set_rcode_readdressed [OF assms(1)]
  by (auto simp: race_after_def pc_reply_def heap_defs Let_def split: option.splits)

text \<open>A reply is stamped with the history of the entry it was made from.\<close>

lemma stamp_ok:
  assumes ok: "cache_ok (ops E)" "set_rcode_ok (setRcode E)" "cl_ok E c"
    and sp: "serveProbe E p w rq (cl_now c) elapsed (cl_store c j) = (ms, counts, s)" and m: "m \<in> set ms"
  shows "sound E (stamp E c j p w rq m)" "origin (stamp E c j p w rq m) \<in> insert (stamp E c j p w rq m) (set (cl_net c))"
proof -
  let ?s = "cl_store c j" and ?g = "get E (cl_now c) rq (cl_store c j)" and ?f = "cl_held c j (key E rq)"
  let ?hit = "isPeer p (lw_remote w) \<and> length (Question (req_Req rq)) = 1 \<and> fst ?g \<noteq> None"
  have wf: "store_wf E ?s" using ok(3) by (simp add: cl_ok_def stores_ok_def)
  have "sound E (stamp E c j p w rq m) \<and> origin (stamp E c j p w rq m) \<in> insert (stamp E c j p w rq m) (set (cl_net c))"
  proof (cases ?hit)
    case False
    then have "ms = send w (setRcode E new_msg (req_Req rq) RcodeRefused)"
      using sp unfolding serveProbe_decides by (simp only: if_False prod.inject)
    then have "m = setRcode E new_msg (req_Req rq) RcodeRefused" using m by (auto simp: send_def split: option.splits)
    moreover have "stamp E c j p w rq m = Refusal rq m" using False by (simp only: stamp_def if_False)
    ultimately show ?thesis using set_rcode_okD [OF ok(2)] by (simp add: lifetimes_def new_msg_def)
  next
    case True
    then have "ms = send w (h_cell (s_heap (snd ?g)) (the (fst ?g)))"
      using sp unfolding serveProbe_decides by auto
    then have "m = h_cell (s_heap (snd ?g)) (the (fst ?g))" using m by (auto simp: send_def split: option.splits)
    with True get_kept [OF ok(1,2) wf, of "cl_now c" rq] obtain e where e: "c_Get (ops E) (s_c ?s) (key E rq) = Some e"
      "minServeTTL \<le> get_remaining (cl_now c) e"
      "rebased (h_cell (s_heap ?s) (e_msg e)) (req_Req rq) (serve_ttl (get_remaining (cl_now c) e)) m"
      by auto
    have "holds E ?s (key E rq) (h_cell (s_heap ?s) (e_msg e)) (e_stored e)" using e(1) by (auto simp: holds_def)
    then have f: "e_stored e \<le> cl_now c" "h_cell (s_heap ?s) (e_msg e) = fl_msg ?f" "key E (fl_req ?f) = key E rq"
      "?f \<in> set (cl_net c)"
      using ok(3) by (auto simp: cl_ok_def stores_ok_def)
    have "minTTL (h_cell (s_heap ?s) (e_msg e)) = Some (e_origTTL e)" using wf e(1) by (auto simp: store_wf_def)
    then have "minTTL (fl_msg ?f) = Some (e_origTTL e)" using f(2) by simp
    from served_aged [OF f(1) e(2) this] have "aged (fl_msg ?f) (cl_now c - e_stored e) (serve_ttl (get_remaining (cl_now c) e))" .
    moreover have "sound E ?f" "origin ?f \<in> set (cl_net c)" using f(4) ok(3) by (auto simp: cl_ok_def net_ok_def)
    moreover have "stamp E c j p w rq m = Reply rq m ?f (cl_now c - e_stored e)"
      using True e(1) by (simp add: stamp_def)
    ultimately show ?thesis using f(2,3) e(3) by auto
  qed
  then show "sound E (stamp E c j p w rq m)" "origin (stamp E c j p w rq m) \<in> insert (stamp E c j p w rq m) (set (cl_net c))"
    by blast+
qed

lemma serveProbe_forgets:
  assumes "cache_ok (ops E)" "set_rcode_ok (setRcode E)" "store_wf E s" "serveProbe E p w rq now elapsed s = (ms, counts, s')"
  shows "store_wf E s'" "holds E s' k m t \<Longrightarrow> holds E s k m t"
  using assms(3,4) get_kept [OF assms(1-3), of now rq] unfolding serveProbe_decides
  by (auto split: if_splits)

lemma took_ok:
  assumes inv: "cl_ok E c" and f: "f \<in> set (cl_net c)" "key E (fl_req f) = key E (qy_state q)"
    and s: "store_wf E s \<and> (\<forall>k m t. holds E s k m t \<longrightarrow>
       (if k = key E (qy_state q) \<and> put_accepts E (qy_time q) (qy_state q) (fl_msg f)
        then m = fl_msg f \<and> t = cl_now c else holds E (cl_store c i) k m t))"
    and w: "from_upstream f \<or> pc_useful (Some (fl_msg f))" "\<And>m. m \<in> set (sv_written sv) \<Longrightarrow> readdressed (fl_msg f) m"
  shows "cl_ok E (finish (c\<lparr>cl_held := remembered E c i q f\<rparr>) i q f sv s)"
proof -
  have "stores_ok E (c\<lparr>cl_held := remembered E c i q f, cl_store := (cl_store c)(i := s)\<rparr>)"
    using inv f s by (intro stores_ok_took) (simp_all add: cl_ok_def)
  then show ?thesis using inv f w by (auto simp: cl_ok_def net_ok_def stores_ok_def clients_ok_def finish_def)
qed

lemma cl_ok_step:
  assumes ok: "cache_ok (ops E)" "set_rcode_ok (setRcode E)" and inv: "cl_ok E c" and st: "cl_step E c d"
  shows "cl_ok E d"
proof -
  have wf: "store_wf E (cl_store c i)" for i using inv by (simp add: cl_ok_def stores_ok_def)
  from st show ?thesis
  proof cases
    case (cl_resolved rq m)
    then show ?thesis using inv by (auto simp: cl_ok_def net_ok_def stores_ok_def clients_ok_def)
  next
    case (cl_tick now)
    then show ?thesis using inv by (fastforce simp: cl_ok_def net_ok_def stores_ok_def clients_ok_def)
  next
    case (cl_restart i h)
    then show ?thesis
      using inv new_store [OF ok(1)] stores_ok_forget [of E c "newStore E storeCapacity h" i]
      by (simp add: cl_ok_def net_ok_def clients_ok_def)
  next
    case (cl_probed p w rq elapsed j ms counts s)
    have "stores_ok E (c\<lparr>cl_store := (cl_store c)(j := s)\<rparr>)"
      using inv serveProbe_forgets [OF ok wf cl_probed(2)] by (intro stores_ok_forget) (simp_all add: cl_ok_def)
    from stores_ok_more [OF this, of "map (stamp E c j p w rq) ms"] stamp_ok [OF ok inv cl_probed(2)] inv
    show ?thesis unfolding cl_probed(1) by (auto simp: cl_ok_def net_ok_def clients_ok_def)
  next
    case (cl_won q f res u x i sv counts s)
    note leg = leg_from_msg [OF cl_won(4)]
    have "pc_useful (Some (fl_msg f))" using race_body_Return_useful [OF cl_won(5)] leg(1) by simp
    moreover have "readdressed (fl_msg f) m" if "m \<in> set (sv_written sv)" for m
      using that race_body_served [OF cl_won(5) leg(1), of "cl_store c i"] set_rcode_readdressed [OF ok(2)] cl_won(2,6)
      by (auto simp: Let_def split: option.splits)
    moreover have "snd (snd (x (cl_store c i))) = s" using cl_won(6) by simp
    note won_kept [of q "cl_store c i" u res x, unfolded cl_won(2,3) this, OF ok(1) wf cl_won(5) leg(1)]
    ultimately show ?thesis unfolding cl_won(1) by (intro took_ok [OF inv leg(2,3)]) simp_all
  next
    case (cl_lost q f res i sv counts s)
    note leg = leg_from_msg [OF cl_lost(3)]
    have "stores_ok E (c\<lparr>cl_store := (cl_store c)(i := s)\<rparr>)"
      using inv lost_kept [of q "cl_store c i" res, OF _ leg(1)] wf cl_lost(2,5) by (intro stores_ok_forget) (simp_all add: cl_ok_def)
    then show ?thesis
      unfolding cl_lost(1) using inv leg(2,3) cl_lost(4,5) race_after_written [of q res "fl_msg f" _ "cl_store c i"] ok(2) cl_lost(2) leg(1)
      by (intro finish_ok) simp_all
  next
    case (cl_direct q f sv p cerr evs eff i sv' counts s)
    have eff: "fst (eff (cl_store c i)) = sv'" "snd (snd (eff (cl_store c i))) = s" using cl_direct(10) by simp_all
    note kept = direct_kept [of q "cl_store c i", OF _ _ cl_direct(8,9), unfolded cl_direct(2,3) eff, OF ok(1) wf]
    then have "readdressed (fl_msg f) m" if "m \<in> set (sv_written sv')" for m using that cl_direct(7) by (auto simp: readdressed_def)
    moreover have "key E (fl_req f) = key E (qy_state q)" using cl_direct(6) by (intro key_same_question) (simp_all add: same_question_def)
    ultimately show ?thesis
      unfolding cl_direct(1) using kept cl_direct(5) by (intro took_ok [OF inv cl_direct(4)]) simp_all
  qed
qed

interpretation replicas: inductive_invariant "cl_init E" "cl_step E"
  "\<lambda>c. cache_ok (ops E) \<longrightarrow> set_rcode_ok (setRcode E) \<longrightarrow> cl_ok E c" for E :: "'c store_env"
  by unfold_locales (auto intro: cl_ok_init cl_ok_step)

subsection \<open>Every query is a step\<close>

text \<open>
  Whatever a race of \<open>race_step\<close> returns, with legs that deliver flights, is a step of
  the deployment, or carries no message and leaves the store as it was.
\<close>

definition legs_deliver ::
  "flight list \<Rightarrow> 'c query \<Rightarrow> (nat \<Rightarrow> msg option \<times> goerr option \<Rightarrow> bool) \<Rightarrow> (int \<times> goerr option \<times> msg list \<Rightarrow> bool) \<Rightarrow> bool" where
  "legs_deliver net q answers chain \<longleftrightarrow>
     (\<forall>j m. answers j (Some m, None) \<longrightarrow>
        (\<exists>f \<in> set net. \<not> from_upstream f \<and> fl_msg f = m \<and> same_question (fl_req f) (qy_state q))) \<and>
     (\<forall>rcode err ms. chain (rcode, err, ms) \<longrightarrow> ms \<noteq> [] \<longrightarrow>
        (\<exists>f \<in> set net. from_upstream f \<and> fl_msg f = last ms \<and> same_question (fl_req f) (qy_state q)))"

lemma chain_flight:
  assumes "legs_deliver net q answers chain" "chain (rcode, err, ms)" "ms \<noteq> []"
  shows "\<exists>f. leg_from net q f (upstream_leg (qy_w q) (rcode, err, ms)) \<and> from_upstream f"
proof -
  obtain f where "f \<in> set net" "from_upstream f" "fl_msg f = last ms" "same_question (fl_req f) (qy_state q)"
    using assms unfolding legs_deliver_def by blast
  moreover have "ms = butlast ms @ [last ms]" using assms(3) by simp
  ultimately show ?thesis unfolding leg_from_def by metis
qed

lemma outcome_flight:
  assumes net: "legs_deliver net q answers chain" and res: "peer_outcome answers chain (qy_w q) ps j res" "pl_msg res = Some m"
  shows "\<exists>f. leg_from net q f res"
proof (cases "j < length ps")
  case True
  then obtain mo err took where out: "answers j (mo, err)" "res = fst (probe (mo, err) took)"
    using res(1) by (auto simp: peer_outcome_def)
  then have me: "mo = Some m" "err = None" using res(2) probe_outcome [of mo err took] by (auto split: if_splits)
  then obtain f where "f \<in> set net" "\<not> from_upstream f" "fl_msg f = m" "same_question (fl_req f) (qy_state q)"
    using net out(1) unfolding legs_deliver_def by blast
  then show ?thesis using out(2) me by (auto simp: leg_from_def)
next
  case False
  then obtain rcode err ms where out: "chain (rcode, err, ms)" "res = upstream_leg (qy_w q) (rcode, err, ms)"
    using res(1) by (auto simp: peer_outcome_def)
  then have "ms \<noteq> []" using res(2) by (auto simp: upstream_leg_def detached_New_def)
  then show ?thesis using chain_flight [OF net out(1)] out(2) by blast
qed

lemma race_run_is_step:
  assumes run: "reach (race_init ps) (race_step q cerr ps answers chain) r" "lr_out r = Some x"
    and net: "legs_deliver (cl_net c) q answers chain"
    and q: "qy_env q = E" "qy_now q = cl_now c" and x: "x (cl_store c i) = (sv, counts, s)"
  shows "sv_written sv = [] \<and> s = cl_store c i \<or>
    (\<exists>f. cl_step E c (finish (c\<lparr>cl_held := remembered E c i q f\<rparr>) i q f sv s)) \<or> (\<exists>f. cl_step E c (finish c i q f sv s))"
  using race_run_invar [OF run(1)] run(2)
proof (cases rule: race_out_cases)
  case (won j res)
  obtain m where "pl_msg res = Some m" using pc_useful_Some [OF won(3)] by blast
  from outcome_flight [OF net won(2) this] cl_won [OF q _ won(4) x] show ?thesis by blast
next
  case (lost out)
  obtain rcode err ms where o: "out = (rcode, err, ms)" by (cases out)
  show ?thesis
  proof (cases "ms = []")
    case True
    then show ?thesis using x lost(2) o by (auto simp: race_after_def upstream_leg_def detached_New_def)
  next
    case False
    then show ?thesis using chain_flight [OF net, of rcode err ms] lost o x cl_lost [OF q(1)] by blast
  qed
next
  case stopped
  then show ?thesis using x by (auto simp: race_cancelled_def)
qed

subsection \<open>Properties\<close>

lemma reply_lifetimes:
  assumes "sound E f" "\<not> from_upstream f" "lifetimes (fl_msg f) \<noteq> []" "x \<in> set (lifetimes (fl_msg f))"
  shows "5 \<le> uint x" "x = Min (set (lifetimes (fl_msg f)))"
proof -
  obtain rq m g d where f: "f = Reply rq m g d" using assms(1-3) by (cases f) (auto simp: from_upstream_def)
  then obtain ttl where t: "aged (fl_msg g) d ttl" "lifetimes m = map (\<lambda>_. ttl) (lifetimes (fl_msg g))"
    using assms(1) rebased_lifetimes by auto
  then have "set (lifetimes m) = {ttl}" by (cases "lifetimes (fl_msg g)") (auto simp: aged_def)
  then show "5 \<le> uint x" "x = Min (set (lifetimes (fl_msg f)))" using assms(4) f t(1) by (auto simp: aged_def)
qed

lemma sound_useful:
  assumes "sound E f" "\<not> from_upstream f" "pc_useful (Some (fl_msg f))"
  shows "lifetimes (fl_msg f) \<noteq> []"
proof (cases f)
  case (Refusal rq m)
  then show ?thesis
    using assms(1,3) by (simp add: pc_useful_def RcodeRefused_def RcodeSuccess_def RcodeNameError_def split: if_splits)
next
  case (Reply rq m g d)
  then obtain ttl where "aged (fl_msg g) d ttl" "rebased (fl_msg g) (req_Req rq) ttl m" using assms(1) by auto
  then show ?thesis using rebased_lifetimes Reply by (auto simp: aged_def)
qed (use assms(2) in \<open>auto simp: from_upstream_def\<close>)

text \<open>
  C7: in a deployment of any number of replicas no record is invented, altered or mixed up
  on its way to a client. Under every order of queries, probes, restarts and deliveries,
  with messages delayed, repeated and lost, what a client was sent goes back to an answer
  that an upstream gave to a request with the same key: with the same code and the same
  records up to their lifetimes. When it came through siblings, every lifetime in it is at
  least five seconds and at most the least one of the upstream's answer; and below \<open>2^24\<close>
  seconds also at most what the time spent in the stores on the way has left of it.
\<close>

theorem cluster_provenance:
  assumes "cache_ok (ops E)" "set_rcode_ok (setRcode E)" "reach (cl_init E) (cl_step E) c" "(rq, m, f) \<in> set (cl_sent c)"
  shows "\<exists>rq0 m0. origin f = Upstream rq0 m0 \<and> Upstream rq0 m0 \<in> set (cl_net c) \<and> key E rq0 = key E rq \<and>
     Rcode m = Rcode m0 \<and> same_records m m0 \<and>
     (\<forall>x \<in> set (lifetimes m). \<not> from_upstream f \<longrightarrow>
        5 \<le> uint x \<and> uint x \<le> uint (Min (set (lifetimes m0))) \<and>
        (uint (Min (set (lifetimes m0))) < 2 ^ 24 \<longrightarrow>
           uint x * second \<le> uint (Min (set (lifetimes m0))) * second - held_for f))"
proof -
  have inv: "cl_ok E c" using replicas.reachable_invar [OF assms(3)] assms(1,2) by blast
  have f: "f \<in> set (cl_net c)" "key E rq = key E (fl_req f)" "readdressed (fl_msg f) m" "from_upstream f \<or> pc_useful (Some (fl_msg f))"
    using inv assms(4) by (auto simp: cl_ok_def clients_ok_def)
  have so: "sound E f" "origin f \<in> set (cl_net c)" using inv f(1) by (auto simp: cl_ok_def net_ok_def)
  have eq: "lifetimes m = lifetimes (fl_msg f)" "Rcode m = Rcode (fl_msg f)" "same_records m (fl_msg f)"
    using f(3) by (auto simp: readdressed_def lifetimes_def same_records_def)
  show ?thesis
  proof (cases "from_upstream f")
    case True
    then obtain rq0 m0 where "f = Upstream rq0 m0" by (auto simp: from_upstream_def)
    then show ?thesis using so f(2) eq True by auto
  next
    case False
    then have l: "lifetimes (fl_msg f) \<noteq> []" using sound_useful [OF so(1)] f(4) by blast
    note o = sound_origin [OF so(1) l] and t = sound_lifetime [OF so(1) l]
    obtain rq0 m0 where "origin f = Upstream rq0 m0" using o by (auto simp: from_upstream_def)
    moreover have "5 \<le> uint x" "x = Min (set (lifetimes (fl_msg f)))" if "x \<in> set (lifetimes m)" for x
      using reply_lifetimes [OF so(1) False l] that eq(1) by auto
    ultimately show ?thesis using o t so(2) f(2) eq same_records_trans by auto
  qed
qed

text \<open>
  C8: an answer cannot be passed around for ever by replicas that hold it. However they
  probe each other, let \<open>L\<close> be the least lifetime, in seconds, of the upstream's answer that a
  sibling's reply goes back to. On its way the answer has been passed on at most \<open>L - 5\<close>
  times after a replica had held it for a second or more. If \<open>L\<close> is below \<open>2^24\<close>, about half
  a year, it has been passed on at most \<open>L - 5\<close> times after it had been held for any time at
  all, that is, later than the clock reading at which it was stored, and has spent at most
  \<open>L - 5\<close> seconds in the stores. Passes made at that same clock reading are not bounded.
\<close>

theorem answers_do_not_circulate:
  assumes "cache_ok (ops E)" "set_rcode_ok (setRcode E)" "reach (cl_init E) (cl_step E) c"
    and f: "f \<in> set (cl_net c)" "\<not> from_upstream f" "lifetimes (fl_msg f) \<noteq> []"
    and L: "L = uint (Min (set (lifetimes (fl_msg (origin f)))))"
  shows "int (hops second f) \<le> L - 5 \<and>
    (L < 2 ^ 24 \<longrightarrow> int (hops 1 f) \<le> L - 5 \<and> held_for f \<le> (L - 5) * second)"
proof -
  have inv: "cl_ok E c" using replicas.reachable_invar [OF assms(3)] assms(1,2) by blast
  then have so: "sound E f" using f(1) by (auto simp: cl_ok_def net_ok_def)
  have "5 \<le> uint (Min (set (lifetimes (fl_msg f))))"
    using reply_lifetimes(1) [OF so f(2,3)] f(3) by simp
  then show ?thesis using sound_lifetime [OF so f(3)] L by (auto simp: second_def)
qed

text \<open>Two replicas: the first resolves a name, and ten seconds later the second takes its answer.\<close>

definition sample_cluster :: "(64 word \<rightharpoonup> entry) cluster" where
  "sample_cluster =
     \<lparr>cl_now = 0, cl_store = (\<lambda>_. newStore sample_store_env storeCapacity \<lparr>h_cell = (\<lambda>_. new_msg), h_next = 0\<rparr>),
      cl_net = [], cl_held = (\<lambda>_ _. Upstream (sample_query ''a.'') new_msg), cl_sent = []\<rparr>"

abbreviation sample_origin :: flight where
  "sample_origin \<equiv> Upstream (sample_query ''a.'') sample_answer"

lemma sample_q_simps [simp]:
  "qy_env sample_q = sample_store_env" "qy_state sample_q = sample_query ''a.''" "qy_now sample_q = 0"
  "qy_time sample_q = 0" "lw_write (qy_w sample_q) m = None"
  by (simp_all add: sample_q_def)

text \<open>The first replica holds the answer and has sent it to its client.\<close>

lemma sample_resolved:
  obtains c x where "reach (cl_init sample_store_env) (cl_step sample_store_env) c" "cl_now c = 0"
    "sample_origin \<in> set (cl_net c)" "cl_held c 0 (key sample_store_env (sample_query ''a.'')) = sample_origin"
    "race_body sample_q None sample_up = Return x" "cl_store c 0 = snd (snd (x (cl_store sample_cluster 0)))"
proof -
  let ?E = sample_store_env and ?x = "race_won sample_q sample_up"
  let ?c = "sample_cluster\<lparr>cl_net := [sample_origin]\<rparr>"
  obtain sv counts s where x: "?x (cl_store ?c 0) = (sv, counts, s)" by (cases "?x (cl_store ?c 0)") auto
  have b: "race_body sample_q None sample_up = Return ?x" using sample_up_useful by (rule peer_contest.body_useful)
  have "cl_init ?E sample_cluster" by (simp add: cl_init_def sample_cluster_def newStore_def)
  then have "reach (cl_init ?E) (cl_step ?E) sample_cluster" by (rule reach_init)
  moreover have "cl_step ?E sample_cluster ?c"
    using cl_resolved [of ?E sample_cluster "sample_query ''a.''" sample_answer] by (simp add: sample_cluster_def)
  ultimately have "reach (cl_init ?E) (cl_step ?E) ?c" by (rule reach_step)
  moreover have "leg_from (cl_net ?c) sample_q sample_origin sample_up"
    by (auto simp: leg_from_def same_question_def from_upstream_def intro!: exI [of _ 0] exI [of _ None] exI [of _ "[]"])
  then have "cl_step ?E ?c (finish (?c\<lparr>cl_held := remembered ?E ?c 0 sample_q sample_origin\<rparr>) 0 sample_q sample_origin sv s)"
    by (intro cl_won [OF _ _ _ b x]) (simp_all add: sample_cluster_def)
  ultimately have "reach (cl_init ?E) (cl_step ?E) (finish (?c\<lparr>cl_held := remembered ?E ?c 0 sample_q sample_origin\<rparr>) 0 sample_q sample_origin sv s)"
    by (rule reach_step)
  then show thesis
    by (rule that [OF _ _ _ _ b])
      (use x sample_accepts [of 0 "''a.''"] in \<open>simp_all add: finish_def remembered_def sample_cluster_def\<close>)
qed

text \<open>Ten seconds later the listener of the first replica serves the probe of the second.\<close>

abbreviation sample_sibling :: PeerCache where
  "sample_sibling \<equiv> \<lparr>selector = ''x'', port = 8053, peers = Some [''10.0.0.2:8053'']\<rparr>"

abbreviation sample_asker :: live_writer where
  "sample_asker \<equiv> \<lparr>lw_local = ''l'', lw_remote = ''10.0.0.2:4000'', lw_write = (\<lambda>_. None)\<rparr>"

lemma sample_probed:
  obtains c m where "reach (cl_init sample_store_env) (cl_step sample_store_env) c" "cl_now c = 10 * second"
    "Reply (sample_query ''a.'') m sample_origin (10 * second) \<in> set (cl_net c)" "pc_useful (Some m)" "lifetimes m \<noteq> []"
proof -
  let ?E = sample_store_env and ?rq = "sample_query ''a.''" and ?now = "10 * second"
  obtain c x where c: "reach (cl_init ?E) (cl_step ?E) c" "cl_now c = 0" "cl_held c 0 (key ?E ?rq) = sample_origin"
    and x: "race_body sample_q None sample_up = Return x" "cl_store c 0 = snd (snd (x (cl_store sample_cluster 0)))"
    by (rule sample_resolved)
  let ?c = "c\<lparr>cl_now := ?now\<rparr>" and ?s = "cl_store c 0" and ?g = "get ?E ?now ?rq (cl_store c 0)"
  have c': "reach (cl_init ?E) (cl_step ?E) ?c" using reach_step [OF c(1) cl_tick [of c ?now ?E]] c(2) by (simp add: second_def)
  have up: "pl_msg sample_up = Some sample_answer" by (simp add: upstream_leg_def)
  have L: "Min (set (lifetimes sample_answer)) = 300" "lifetimes sample_answer \<noteq> []"
    by (simp_all add: sample_answer_def lifetimes_def TypeOPT_def new_msg_def)
  have rq: "\<not> req_Do ?rq" "\<not> CheckingDisabled (req_Req ?rq)" "length (Question (req_Req ?rq)) = 1"
    by (simp_all add: sample_query_def new_msg_def)
  have now: "qy_now sample_q \<le> ?now" "minServeTTL \<le> uint (Min (set (lifetimes sample_answer))) * second - (?now - qy_now sample_q)"
    by (simp_all add: L(1) second_def minServeTTL_def)
  obtain p ttl where g: "fst ?g = Some p" "rebased sample_answer (req_Req ?rq) ttl (h_cell (s_heap (snd ?g)) p)"
    unfolding x(2) using winner_stored [of sample_q sample_up sample_answer None x ?rq ?now "cl_store sample_cluster 0",
        OF _ _ up x(1) _ _ rq(1,2) _ now] sample_ok sample_accepts [of 0 "''a.''"]
    by (simp only: sample_q_simps simp_thms) blast
  define m where "m = h_cell (s_heap (snd ?g)) p"
  have wf: "store_wf ?E (cl_store sample_cluster 0)" using new_store(1) [OF sample_ok(1)] by (simp add: sample_cluster_def)
  note kept = won_kept [of sample_q "cl_store sample_cluster 0" None sample_up x, OF _ _ x(1) up, folded x(2), unfolded sample_q_simps, OF sample_ok(1) wf]
  obtain e where e: "c_Get (ops ?E) (s_c ?s) (key ?E ?rq) = Some e"
    using get_kept [OF sample_ok, of ?s ?now ?rq] g(1) kept by auto
  then have "holds ?E ?s (key ?E ?rq) (h_cell (s_heap ?s) (e_msg e)) (e_stored e)" by (auto simp: holds_def)
  then have "e_stored e = 0" using kept sample_accepts [of 0 "''a.''"] by auto
  moreover have peer: "isPeer sample_sibling (lw_remote sample_asker)" by code_simp
  ultimately have st: "stamp ?E ?c 0 sample_sibling sample_asker ?rq m = Reply ?rq m sample_origin ?now"
    using g(1) e rq(3) c(3) by (simp add: stamp_def)
  have "fst (serveProbe ?E sample_sibling sample_asker ?rq ?now 0 ?s) = [m]"
    using peer rq(3) g(1) by (simp add: serveProbe_decides send_def m_def)
  then obtain counts s where "serveProbe ?E sample_sibling sample_asker ?rq (cl_now ?c) 0 (cl_store ?c 0) = ([m], counts, s)"
    by (cases "serveProbe ?E sample_sibling sample_asker ?rq ?now 0 ?s") auto
  then have "cl_step ?E ?c (?c\<lparr>cl_store := (cl_store ?c)(0 := s), cl_net := map (stamp ?E ?c 0 sample_sibling sample_asker ?rq) [m] @ cl_net ?c\<rparr>)"
    by (rule cl_probed)
  with c' have r: "reach (cl_init ?E) (cl_step ?E)
      (?c\<lparr>cl_store := (cl_store ?c)(0 := s), cl_net := map (stamp ?E ?c 0 sample_sibling sample_asker ?rq) [m] @ cl_net ?c\<rparr>)"
    by (rule reach_step)
  have "pc_useful (Some sample_answer)" using sample_up_useful up by simp
  then have "pc_useful (Some m)" "lifetimes m \<noteq> []"
    using rebased_useful [OF g(2)] rebased_lifetimes [OF g(2)] L(2) by (simp_all add: m_def)
  then show thesis by (rule that [OF r, rotated 2]) (use st in simp_all)
qed

lemma sample_shared:
  obtains c m f where "reach (cl_init sample_store_env) (cl_step sample_store_env) c" "(sample_query ''a.'', m, f) \<in> set (cl_sent c)"
    "f \<in> set (cl_net c)" "\<not> from_upstream f" "lifetimes (fl_msg f) \<noteq> []" "origin f = sample_origin" "held_for f = 10 * second" "hops 1 f = 1" "hops second f = 1"
proof -
  let ?E = sample_store_env and ?rq = "sample_query ''a.''" and ?q = "sample_q\<lparr>qy_now := 10 * second\<rparr>"
  obtain c m where c: "reach (cl_init ?E) (cl_step ?E) c" "cl_now c = 10 * second"
    "Reply ?rq m sample_origin (10 * second) \<in> set (cl_net c)" "pc_useful (Some m)" "lifetimes m \<noteq> []"
    by (rule sample_probed)
  let ?f = "Reply ?rq m sample_origin (10 * second)" and ?res = "fst (probe (Some m, None) 0)"
  have res: "pl_msg ?res = Some m" "pl_err ?res = None" using probe_outcome [of "Some m" None 0] by simp_all
  have leg: "leg_from (cl_net c) ?q ?f ?res" using c(3) by (auto simp: leg_from_def from_upstream_def same_question_def)
  have b: "race_body ?q None ?res = Return (race_won ?q ?res)"
    by (rule peer_contest.body_useful) (use c(4) res in simp)
  obtain sv counts s where x: "race_won ?q ?res (cl_store c 1) = (sv, counts, s)" by (cases "race_won ?q ?res (cl_store c 1)") auto
  have "sv_written sv \<noteq> []" using race_body_served [OF b res(1), of "cl_store c 1"] x by (simp add: Let_def)
  then obtain m' where m': "m' \<in> set (sv_written sv)" by (cases "sv_written sv") auto
  have "cl_step ?E c (finish (c\<lparr>cl_held := remembered ?E c 1 ?q ?f\<rparr>) 1 ?q ?f sv s)"
    by (rule cl_won [OF _ _ leg b x]) (simp_all add: c(2))
  with c(1) have "reach (cl_init ?E) (cl_step ?E) (finish (c\<lparr>cl_held := remembered ?E c 1 ?q ?f\<rparr>) 1 ?q ?f sv s)"
    by (rule reach_step)
  then show thesis
    by (rule that [of _ m' ?f]) (use m' c(3,5) in \<open>simp_all add: finish_def from_upstream_def second_def\<close>)
qed

theorem cluster_provenance_witness:
  "\<exists>c m f. reach (cl_init sample_store_env) (cl_step sample_store_env) c \<and> (sample_query ''a.'', m, f) \<in> set (cl_sent c) \<and> hops 1 f = 1 \<and> same_records m sample_answer \<and>
     (\<forall>x \<in> set (lifetimes m). uint x \<le> 290)"
proof -
  obtain c m f where c: "reach (cl_init sample_store_env) (cl_step sample_store_env) c" "(sample_query ''a.'', m, f) \<in> set (cl_sent c)"
    "\<not> from_upstream f" "origin f = sample_origin" "held_for f = 10 * second" "hops 1 f = 1" "hops second f = 1"
    by (rule sample_shared)
  have "Min (set (lifetimes sample_answer)) = 300" by (simp add: sample_answer_def lifetimes_def TypeOPT_def new_msg_def)
  then have "same_records m sample_answer" "\<forall>x \<in> set (lifetimes m). uint x \<le> 290"
    using cluster_provenance [OF sample_ok c(1,2)] c(3-5) by (auto simp: second_def)
  then show ?thesis using c(1,2,6) by blast
qed

theorem answers_do_not_circulate_witness:
  "\<exists>c f. reach (cl_init sample_store_env) (cl_step sample_store_env) c \<and> f \<in> set (cl_net c) \<and>
     hops second f = 1 \<and> int (hops second f) \<le> 295 \<and> hops 1 f = 1 \<and> int (hops 1 f) \<le> 295 \<and> held_for f \<le> 295 * second"
proof -
  obtain c f where c: "reach (cl_init sample_store_env) (cl_step sample_store_env) c" "f \<in> set (cl_net c)"
    "\<not> from_upstream f" "lifetimes (fl_msg f) \<noteq> []" "origin f = sample_origin" "hops 1 f = 1" "hops second f = 1"
    by (rule sample_shared)
  have "300 = uint (Min (set (lifetimes (fl_msg (origin f)))))"
    by (simp add: c(5) sample_answer_def lifetimes_def TypeOPT_def new_msg_def)
  from answers_do_not_circulate [OF sample_ok c(1-4) this]
  have "int (hops second f) \<le> 295" "int (hops 1 f) \<le> 295" "held_for f \<le> 295 * second" by simp_all
  then show ?thesis using c(1,2,6,7) by blast
qed

end
