(* ===== verification/Loadgen.thy ===== *)
theory Loadgen
  imports Parse Dns_Types Go_Time "HOL-Library.Multiset"
begin

text \<open>
  The load generator (\<open>scripts/loadgen/main.go\<close>): reading the names, the workers that share
  one queue, their tallies, the report and the exit code. The response-code tables of the
  DNS library and the texts of errors are parameters (the record \<open>lg_lib\<close>); what the
  network does is the record \<open>lg_net\<close>.
\<close>

record lg_lib =
  StringToRcode :: "string \<Rightarrow> int option"
  RcodeToString :: "int \<Rightarrow> string"
  err_text :: "goerr option \<Rightarrow> string"

subsection \<open>The names\<close>

datatype names_error = OpenFailed string | ScanFailed parse_error

text \<open>
  The scan loop: the names, and after how many lines the loop was left because of the
  limit (if it was).
\<close>

fun names_loop :: "int \<Rightarrow> string list \<Rightarrow> string list \<Rightarrow> nat \<Rightarrow> string list \<times> nat option" where
  "names_loop limit [] names k = (names, None)"
| "names_loop limit (l # ls) names k =
     (let name = trim_space l
      in if name = [] \<or> has_prefix name ''#'' then names_loop limit ls names (k + 1)
         else let names' = names @ [name]
              in if 0 < limit \<and> limit \<le> int (length names') then (names', Some (k + 1))
                 else names_loop limit ls names' (k + 1))"

text \<open>
  The scanner reads ahead, so a read error may already be noted when the limit stops the
  loop; \<open>noted k\<close> says whether it is after \<open>k\<close> lines.
\<close>

definition readNames ::
  "(string, reader) result \<Rightarrow> (nat \<Rightarrow> bool) \<Rightarrow> int \<Rightarrow> (names_error, string list) result" where
  "readNames file noted limit =
     (case file of
        Err e \<Rightarrow> Err (OpenFailed e)
      | Ok f \<Rightarrow>
          (case scan_lines maxTokenSize (rd_data f) of
             (ls, too_long) \<Rightarrow>
               (case names_loop limit ls [] 0 of
                  (names, Some k) \<Rightarrow>
                    (case rd_err f of
                       Some e \<Rightarrow> if noted k then Err (ScanFailed (ReadError e)) else Ok names
                     | None \<Rightarrow> Ok names)
                | (names, None) \<Rightarrow>
                    if too_long then Err (ScanFailed ErrTooLong)
                    else case rd_err f of Some e \<Rightarrow> Err (ScanFailed (ReadError e)) | None \<Rightarrow> Ok names)))"

subsection \<open>Tallies\<close>

text \<open>
  What a worker counts, and what \<open>results\<close> collects of all of them. A map from codes to
  counts is an association list; it is only read by key, and in the order of the keys.
\<close>

record tally =
  latencies :: "int list"
  rcodes :: "(int \<times> nat) list"
  errs :: nat
  samples :: "string list"
  unexpected :: "string list"

record results = tally +
  mismatches :: int
  elapsed :: int

definition no_tally :: tally where
  "no_tally = \<lparr>latencies = [], rcodes = [], errs = 0, samples = [], unexpected = []\<rparr>"

definition no_results :: results where
  "no_results = \<lparr>latencies = [], rcodes = [], errs = 0, samples = [], unexpected = [], mismatches = 0, elapsed = 0\<rparr>"

fun code_count :: "(int \<times> nat) list \<Rightarrow> int \<Rightarrow> nat" where
  "code_count [] c = 0"
| "code_count ((d, k) # m) c = (if c = d then k else code_count m c)"

fun code_add :: "int \<Rightarrow> nat \<Rightarrow> (int \<times> nat) list \<Rightarrow> (int \<times> nat) list" where
  "code_add c n [] = [(c, n)]"
| "code_add c n ((d, k) # m) = (if c = d then (d, k + n) # m else (d, k) # code_add c n m)"

text \<open>One exchange as the network answers it, and the reconnect that may follow.\<close>

record exchange_result =
  ex_write :: "goerr option"
  ex_read :: "msg option \<times> goerr option"
  ex_took :: int
  ex_redial :: bool

text \<open>The body of the worker's loop, and whether the loop goes on.\<close>

definition worker_query :: "lg_lib \<Rightarrow> int \<Rightarrow> string \<Rightarrow> exchange_result \<Rightarrow> tally \<Rightarrow> tally \<times> bool" where
  "worker_query L wantRcode name x t =
     (let (resp, err) = (case ex_write x of None \<Rightarrow> ex_read x | Some e \<Rightarrow> (None, Some e))
      in case (err, resp) of
           (None, Some m) \<Rightarrow>
             (let t = t\<lparr>latencies := latencies t @ [ex_took x], rcodes := code_add (Rcode m) 1 (rcodes t)\<rparr>
              in (if 0 \<le> wantRcode \<and> Rcode m \<noteq> wantRcode \<and> length (unexpected t) < 10
                  then t\<lparr>unexpected := unexpected t @ [name @ '' -> '' @ RcodeToString L (Rcode m)]\<rparr>
                  else t, True))
         | _ \<Rightarrow>
             (t\<lparr>errs := errs t + 1,
                samples := if length (samples t) < 5 then samples t @ [name @ '': '' @ err_text L err]
                           else samples t\<rparr>,
              ex_redial x))"

text \<open>The end of a worker, under the mutex.\<close>

definition worker_merge :: "tally \<Rightarrow> results \<Rightarrow> results" where
  "worker_merge t r =
     r\<lparr>latencies := latencies r @ latencies t,
       rcodes := fold (\<lambda>(c, n). code_add c n) (rcodes t) (rcodes r),
       errs := errs r + errs t, samples := samples r @ samples t,
       unexpected := unexpected r @ unexpected t\<rparr>"

subsection \<open>The workers and their queue\<close>

text \<open>
  A worker dials, takes names, merges its tally and ends. \<open>lg_log\<close> (every name taken, with
  the response code it was answered with) and \<open>lg_failed\<close> (the workers that never had a
  connection) are histories.
\<close>

datatype worker_pc = WDial | WLoop tally | WMerge tally | WEnd

record lg_state =
  lg_names :: "string list"
  lg_queue :: "string list"
  lg_closed :: bool
  lg_ws :: "worker_pc list"
  lg_r :: results
  lg_done :: bool
  lg_log :: "(string \<times> int option) list"
  lg_failed :: nat

record lg_net =
  net_dial :: "bool \<Rightarrow> bool"
  net_query :: "string \<Rightarrow> exchange_result \<Rightarrow> bool"

definition answer_code :: "exchange_result \<Rightarrow> int option" where
  "answer_code x =
     (case (ex_write x, ex_read x) of (None, Some m, None) \<Rightarrow> Some (Rcode m) | _ \<Rightarrow> None)"

definition lg_start :: "string list \<Rightarrow> nat \<Rightarrow> lg_state" where
  "lg_start names workers =
     \<lparr>lg_names = names, lg_queue = [], lg_closed = False, lg_ws = replicate workers WDial,
      lg_r = no_results, lg_done = False, lg_log = [], lg_failed = 0\<rparr>"

text \<open>
  \<open>run\<close>: the queue holds four names per worker, a send waits for room in it, and the
  function returns when the queue is closed and every worker has ended.
\<close>

inductive lg_step :: "lg_lib \<Rightarrow> int \<Rightarrow> lg_net \<Rightarrow> nat \<Rightarrow> lg_state \<Rightarrow> lg_state \<Rightarrow> bool"
  for L wantRcode N workers where
  send_name:
    "lg_names s = n # ns \<Longrightarrow> length (lg_queue s) < workers * 4 \<Longrightarrow>
     lg_step L wantRcode N workers s (s\<lparr>lg_names := ns, lg_queue := lg_queue s @ [n]\<rparr>)"
| close_queue:
    "lg_names s = [] \<Longrightarrow> \<not> lg_closed s \<Longrightarrow> lg_step L wantRcode N workers s (s\<lparr>lg_closed := True\<rparr>)"
| dial_ok:
    "i < length (lg_ws s) \<Longrightarrow> lg_ws s ! i = WDial \<Longrightarrow> net_dial N True \<Longrightarrow>
     lg_step L wantRcode N workers s (s\<lparr>lg_ws := (lg_ws s)[i := WLoop no_tally]\<rparr>)"
| dial_fails:
    "i < length (lg_ws s) \<Longrightarrow> lg_ws s ! i = WDial \<Longrightarrow> net_dial N False \<Longrightarrow>
     lg_step L wantRcode N workers s
       (s\<lparr>lg_ws := (lg_ws s)[i := WEnd], lg_r := (lg_r s)\<lparr>errs := errs (lg_r s) + 1\<rparr>,
          lg_failed := lg_failed s + 1\<rparr>)"
| take_name:
    "i < length (lg_ws s) \<Longrightarrow> lg_ws s ! i = WLoop t \<Longrightarrow> lg_queue s = n # q \<Longrightarrow> net_query N n x \<Longrightarrow>
     worker_query L wantRcode n x t = (t', goes_on) \<Longrightarrow>
     lg_step L wantRcode N workers s
       (s\<lparr>lg_queue := q, lg_ws := (lg_ws s)[i := if goes_on then WLoop t' else WMerge t'],
          lg_log := lg_log s @ [(n, answer_code x)]\<rparr>)"
| queue_drained:
    "i < length (lg_ws s) \<Longrightarrow> lg_ws s ! i = WLoop t \<Longrightarrow> lg_queue s = [] \<Longrightarrow> lg_closed s \<Longrightarrow>
     lg_step L wantRcode N workers s (s\<lparr>lg_ws := (lg_ws s)[i := WMerge t]\<rparr>)"
| merge_tally:
    "i < length (lg_ws s) \<Longrightarrow> lg_ws s ! i = WMerge t \<Longrightarrow>
     lg_step L wantRcode N workers s (s\<lparr>lg_ws := (lg_ws s)[i := WEnd], lg_r := worker_merge t (lg_r s)\<rparr>)"
| all_ended:
    "lg_closed s \<Longrightarrow> list_all (\<lambda>w. w = WEnd) (lg_ws s) \<Longrightarrow> \<not> lg_done s \<Longrightarrow> 0 \<le> d \<Longrightarrow>
     lg_step L wantRcode N workers s (s\<lparr>lg_done := True, lg_r := (lg_r s)\<lparr>elapsed := d\<rparr>\<rparr>)"

inductive_simps lg_step_simps [step_simps]: "lg_step L wantRcode N workers s t"

subsection \<open>The report\<close>

text \<open>\<open>Duration.Round\<close>.\<close>

definition duration_Round :: "int \<Rightarrow> int \<Rightarrow> int" where
  "duration_Round d m =
     (if m \<le> 0 then d
      else if d < 0 then
        (let r = (- d) mod m
         in if r + r < m then d + r else let d1 = wrap64 (d - m + r) in if d1 < d then d1 else minDuration)
      else
        (let r = d mod m
         in if r + r < m then d - r else let d1 = wrap64 (d + m - r) in if d < d1 then d1 else maxDuration))"

definition lg_round :: "int \<Rightarrow> int" where
  "lg_round d = (if d < 1000000 then duration_Round d 1000 else duration_Round d (10 * 1000))"

text \<open>The product of two non-negative \<open>float64\<close> values.\<close>

definition fl_mul :: "int \<Rightarrow> int \<Rightarrow> int" where
  "fl_mul x y = fl (x * y) (2 ^ 1074 * 2 ^ 1074)"

text \<open>The value at a quantile; \<open>None\<close> is the panic of an index out of range.\<close>

definition pct :: "int list \<Rightarrow> int \<Rightarrow> int option" where
  "pct ds p =
     (let i = fl_trunc (fl_mul (fl (int (length ds) - 1) 1) p)
      in if 0 \<le> i \<and> i < int (length ds) then Some (ds ! nat i) else None)"

text \<open>
  The figures that are printed, before formatting. \<open>rp_latency\<close> is absent when nothing was
  answered; the throughput is a \<open>float64\<close>, absent when no time has passed.
\<close>

record report_figures =
  rp_sent :: nat
  rp_answered :: nat
  rp_errors :: nat
  rp_throughput :: "int option"
  rp_latency :: "int option list option"
  rp_rcodes :: "(string \<times> nat) list"
  rp_mismatch :: "(int \<times> string list) option"
  rp_samples :: "string list"

definition report :: "lg_lib \<Rightarrow> nat \<Rightarrow> int \<Rightarrow> results \<Rightarrow> results \<times> report_figures" where
  "report L queries wantRcode r =
     (let answered = length (latencies r);
          secs = Seconds (elapsed r);
          thr = (if 0 < secs then Some (fl (fl (int answered) 1) secs) else None);
          r1 = (if 0 < answered then r\<lparr>latencies := sort (latencies r)\<rparr> else r);
          lat = (if 0 < answered
                 then Some [map_option lg_round (pct (latencies r1) (fl 1 2)),
                            map_option lg_round (pct (latencies r1) (fl 9 10)),
                            map_option lg_round (pct (latencies r1) (fl 99 100)),
                            Some (lg_round (latencies r1 ! (answered - 1)))]
                 else None);
          codes = sort (map fst (rcodes r1));
          parts = map (\<lambda>c. (RcodeToString L c, code_count (rcodes r1) c)) codes;
          r2 = (if 0 \<le> wantRcode
                then r1\<lparr>mismatches := int answered - int (code_count (rcodes r1) wantRcode)\<rparr> else r1);
          mm = (if 0 \<le> wantRcode \<and> 0 < mismatches r2
                then Some (mismatches r2, take 10 (unexpected r2)) else None)
      in (r2, \<lparr>rp_sent = queries, rp_answered = answered, rp_errors = errs r, rp_throughput = thr,
               rp_latency = lat, rp_rcodes = parts, rp_mismatch = mm, rp_samples = samples r2\<rparr>))"

subsection \<open>The command\<close>

record lg_flags =
  fl_server :: string
  fl_file :: string
  fl_workers :: int
  fl_expect :: string
  fl_limit :: int
  fl_timeout :: int

definition default_flags :: lg_flags where
  "default_flags =
     \<lparr>fl_server = ''127.0.0.1:1053'', fl_file = [], fl_workers = 32, fl_expect = [], fl_limit = 0,
      fl_timeout = 2 * second\<rparr>"

text \<open>\<open>strings.ToUpper\<close>, with the mapping of the non-ASCII runes as a parameter.\<close>

definition upper_byte :: "char \<Rightarrow> char" where
  "upper_byte c = (if CHR ''a'' \<le> c \<and> c \<le> CHR ''z'' then char_of (byte c - 32) else c)"

definition to_upper :: "(nat \<Rightarrow> nat) \<Rightarrow> string \<Rightarrow> string" where
  "to_upper uu s =
     (if is_ascii s then map upper_byte s
      else concat (map (\<lambda>(r, _). encode_rune
             (if r < 128 then (if 97 \<le> r \<and> r \<le> 122 then r - 32 else r) else uu r)) (runes s)))"

text \<open>Up to the run: the exit code of an early exit, or the names and the wanted code.\<close>

definition main_prepare ::
  "lg_lib \<Rightarrow> (nat \<Rightarrow> nat) \<Rightarrow> (string \<Rightarrow> (string, reader) result) \<Rightarrow> (nat \<Rightarrow> bool) \<Rightarrow> lg_flags \<Rightarrow>
   (nat, string list \<times> int) result" where
  "main_prepare L uu open_file noted f =
     (if fl_file f = [] then Err 2
      else case readNames (open_file (fl_file f)) noted (fl_limit f) of
        Err e \<Rightarrow> Err 1
      | Ok names \<Rightarrow>
          if length names = 0 then Err 1
          else if fl_expect f \<noteq> [] then
            (case StringToRcode L (to_upper uu (fl_expect f)) of
               None \<Rightarrow> Err 2
             | Some code \<Rightarrow> Ok (names, code))
          else Ok (names, - 1))"

text \<open>After the run: the exit code.\<close>

definition main_exit :: "int \<Rightarrow> results \<Rightarrow> nat" where
  "main_exit wantRcode r =
     (if 0 \<le> wantRcode \<and> 0 < mismatches r then 1 else if 0 < errs r then 1 else 0)"

lemmas loadgen_defs [go_eval] =
  readNames_def no_tally_def no_results_def worker_query_def worker_merge_def answer_code_def
  report_def main_prepare_def main_exit_def lg_start_def

subsection \<open>Facts on tallies\<close>

lemma code_count_add [simp]: "code_count (code_add c n m) d = code_count m d + (if c = d then n else 0)"
  by (induction c n m rule: code_add.induct) auto

lemma code_add_keys: "fst ` set (code_add c n m) = insert c (fst ` set m)"
  by (induction c n m rule: code_add.induct) auto

lemma code_add_distinct [simp]: "distinct (map fst (code_add c n m)) = distinct (map fst m)"
  by (induction c n m rule: code_add.induct) (auto simp: code_add_keys)

lemma code_count_absent: "c \<notin> fst ` set m \<Longrightarrow> code_count m c = 0"
  by (induction m c rule: code_count.induct) auto

lemma code_count_merge:
  "distinct (map fst w) \<Longrightarrow>
   code_count (fold (\<lambda>(c, n). code_add c n) w m) d = code_count m d + code_count w d"
proof (induction w arbitrary: m)
  case (Cons e w)
  obtain c n where e: "e = (c, n)" by (cases e)
  have "code_count w c = 0" using Cons.prems e by (intro code_count_absent) auto
  then show ?case using Cons e by auto
qed simp

lemma worker_query_counts:
  assumes "worker_query L wantRcode n x t = (t', g)"
  shows "code_count (rcodes t') c = code_count (rcodes t) c + (if answer_code x = Some c then 1 else 0)"
    "length (latencies t') = length (latencies t) + (if answer_code x = None then 0 else 1)"
    "errs t' = errs t + (if answer_code x = None then 1 else 0)"
    "distinct (map fst (rcodes t')) = distinct (map fst (rcodes t))"
    "\<not> g \<Longrightarrow> answer_code x = None" "\<not> g \<Longrightarrow> \<not> ex_redial x"
  using assms
  by (auto simp: worker_query_def answer_code_def Let_def split: option.splits prod.splits if_splits)

lemma worker_merge_counts:
  assumes "distinct (map fst (rcodes t))"
  shows "code_count (rcodes (worker_merge t r)) c = code_count (rcodes r) c + code_count (rcodes t) c"
  using assms by (simp add: worker_merge_def code_count_merge)

lemma worker_merge_sums [simp]:
  "errs (worker_merge t r) = errs r + errs t"
  "length (latencies (worker_merge t r)) = length (latencies r) + length (latencies t)"
  by (simp_all add: worker_merge_def)

subsection \<open>Facts on the names and the report\<close>

abbreviation query_names :: "string list \<Rightarrow> string list" where
  "query_names ls \<equiv> filter (\<lambda>n. n \<noteq> [] \<and> \<not> has_prefix n ''#'') (map trim_space ls)"

lemma names_loop_all: "limit \<le> 0 \<Longrightarrow> names_loop limit ls names k = (names @ query_names ls, None)"
  by (induction limit ls names k rule: names_loop.induct) (auto simp: Let_def)

lemma names_loop_limit:
  "0 < limit \<Longrightarrow> int (length names) < limit \<Longrightarrow>
   fst (names_loop limit ls names k) = take (nat limit) (names @ query_names ls)"
proof (induction limit ls names k rule: names_loop.induct)
  case (2 limit l ls names k)
  let ?n = "trim_space l"
  consider (skip) "?n = [] \<or> has_prefix ?n ''#''"
    | (stop) "?n \<noteq> []" "\<not> has_prefix ?n ''#''" "limit \<le> int (length names) + 1"
    | (more) "?n \<noteq> []" "\<not> has_prefix ?n ''#''" "int (length names) + 1 < limit"
    by linarith
  then show ?case
  proof cases
    case stop
    then have "nat limit = Suc (length names)" using 2 by linarith
    then show ?thesis using stop 2 by simp
  qed (use 2 in \<open>auto simp: Let_def\<close>)
qed simp

text \<open>The names read from a file that can be read in full.\<close>

lemma readNames_all:
  assumes "scan_lines maxTokenSize (rd_data f) = (ls, False)" "rd_err f = None"
  shows "readNames (Ok f) noted limit =
    Ok (if limit \<le> 0 then query_names ls else take (nat limit) (query_names ls))"
  using assms names_loop_all [of limit ls "[]" 0] names_loop_limit [of limit "[]" ls 0]
  by (auto simp: readNames_def split: prod.splits option.splits)

text \<open>The index of a quantile is in range, so that the report never panics.\<close>

lemma pct_in_range:
  assumes "ds \<noteq> []" "length ds \<le> 2 ^ 53" "0 \<le> p" "p \<le> 2 ^ 1074"
  shows "\<exists>i < length ds. pct ds p = Some (ds ! i)"
proof -
  let ?U = "2 ^ 1074 :: int" and ?n = "int (length ds) - 1"
  define x where "x = fl ?n 1"
  have n: "0 \<le> ?n" "?n < 1 * 2 ^ 53"
    using assms(1,2) by (cases ds, simp_all)
  have x: "0 \<le> x" "x \<le> ?n * ?U"
    using fl_integer_bounds(1) [OF zero_less_one n(2), of 0] fl_integer_bounds(2) [OF zero_less_one n(2), of ?n] n(1)
    by (simp_all add: x_def)
  have hi: "x * p \<le> ?n * (?U * ?U)"
  proof -
    have "x * p \<le> (?n * ?U) * ?U" using x n(1) assms(3,4) by (intro mult_mono) auto
    then show ?thesis by (simp only: mult.assoc)
  qed
  have lt: "x * p < ?U * ?U * 2 ^ 53"
  proof -
    have "?n * (?U * ?U) < 2 ^ 53 * (?U * ?U)" using n(2) by (intro mult_strict_right_mono) auto
    then show ?thesis using hi by (simp only: mult.commute)
  qed
  have U: "0 < ?U * ?U" by simp
  have "0 * ?U \<le> fl_mul x p" unfolding fl_mul_def
    by (rule fl_integer_bounds(1) [OF U lt]) (use x assms(3) in simp)
  moreover have "fl_mul x p \<le> ?n * ?U" unfolding fl_mul_def
    by (rule fl_integer_bounds(2) [OF U lt hi])
  ultimately have "0 \<le> fl_trunc (fl_mul x p)" "fl_trunc (fl_mul x p) \<le> ?n"
    using zdiv_mono1 [of "fl_mul x p" "?n * ?U" ?U] by (simp_all add: fl_trunc_def)
  then show ?thesis
    by (intro exI [of _ "nat (fl_trunc (fl_mul x p))"]) (auto simp: pct_def Let_def x_def)
qed

lemma report_latency:
  assumes "latencies r \<noteq> []" "length (latencies r) \<le> 2 ^ 53"
  shows "\<exists>a b c d. rp_latency (snd (report L total_queries wantRcode r)) =
    Some [Some (lg_round a), Some (lg_round b), Some (lg_round c), Some (lg_round d)] \<and>
    {a, b, c, d} \<subseteq> set (latencies r) \<and> list_all (\<lambda>e. e \<le> d) (latencies r)"
proof -
  let ?l = "sort (latencies r)"
  have l: "?l \<noteq> []" "length ?l \<le> 2 ^ 53" "0 < length (latencies r)"     using assms by (simp_all flip: length_greater_0_conv)
  have p: "\<exists>a \<in> set ?l. pct ?l p = Some a" if "0 \<le> p" "p \<le> 2 ^ 1074" for p
    using pct_in_range [OF l(1,2) that] nth_mem by blast
  obtain a where a: "a \<in> set ?l" "pct ?l (fl 1 2) = Some a" using p fl_fraction [of 1 2] by auto
  obtain b where b: "b \<in> set ?l" "pct ?l (fl 9 10) = Some b" using p fl_fraction [of 9 10] by auto
  obtain c where c: "c \<in> set ?l" "pct ?l (fl 99 100) = Some c" using p fl_fraction [of 99 100] by auto
  define d where "d = ?l ! (length (latencies r) - 1)"
  have d: "d \<in> set ?l" unfolding d_def using l(3) by (intro nth_mem) simp
  have "e \<le> d" if "e \<in> set ?l" for e
  proof -
    obtain i where "i < length ?l" "?l ! i = e" using \<open>e \<in> set ?l\<close> unfolding in_set_conv_nth by blast
    then show ?thesis unfolding d_def by (auto intro!: sorted_nth_mono)
  qed
  moreover have "rp_latency (snd (report L total_queries wantRcode r)) =
      Some [Some (lg_round a), Some (lg_round b), Some (lg_round c), Some (lg_round d)]"
    using l(3) a b c by (simp add: report_def Let_def d_def)
  ultimately show ?thesis using a b c d
    by (intro exI [of _ a] exI [of _ b] exI [of _ c] exI [of _ d]) (simp add: list_all_iff)
qed

text \<open>Rounding for the report moves a duration by at most half its unit.\<close>

lemma duration_Round_near:
  assumes "0 \<le> d" "0 < m" "d + m \<le> maxDuration"
  shows "2 * \<bar>duration_Round d m - d\<bar> \<le> m"
proof -
  have r: "0 \<le> d mod m" "d mod m < m" using assms(2) by simp_all
  have "minDuration \<le> 0" by (simp add: minDuration_def)
  then have "wrap64 (d + m - d mod m) = d + m - d mod m" using r assms by (intro wrap64_id) linarith+
  then show ?thesis using assms r by (auto simp: duration_Round_def Let_def)
qed

lemma lg_round_near: "0 \<le> d \<Longrightarrow> d + 10000 \<le> maxDuration \<Longrightarrow> \<bar>lg_round d - d\<bar> \<le> 5000"
  using duration_Round_near [of d 1000] duration_Round_near [of d 10000] by (auto simp: lg_round_def)

subsection \<open>The invariant of a run\<close>

fun held :: "(tally \<Rightarrow> nat) \<Rightarrow> worker_pc \<Rightarrow> nat" where
  "held f (WLoop t) = f t"
| "held f (WMerge t) = f t"
| "held f _ = 0"

abbreviation held_sum :: "(tally \<Rightarrow> nat) \<Rightarrow> worker_pc list \<Rightarrow> nat" where
  "held_sum f ws \<equiv> sum_list (map (held f) ws)"

abbreviation logged :: "(int option \<Rightarrow> bool) \<Rightarrow> lg_state \<Rightarrow> nat" where
  "logged P s \<equiv> length (filter (P \<circ> snd) (lg_log s))"

text \<open>What has been merged and what the workers still hold is what the log says.\<close>

definition lg_counts :: "lg_state \<Rightarrow> bool" where
  "lg_counts s \<longleftrightarrow>
     errs (lg_r s) + held_sum errs (lg_ws s) = lg_failed s + logged (\<lambda>a. a = None) s \<and>
     length (latencies (lg_r s)) + held_sum (\<lambda>t. length (latencies t)) (lg_ws s) = logged (\<lambda>a. a \<noteq> None) s \<and>
     (\<forall>c. code_count (rcodes (lg_r s)) c + held_sum (\<lambda>t. code_count (rcodes t) c) (lg_ws s) =
        logged (\<lambda>a. a = Some c) s) \<and>
     (\<forall>w \<in> set (lg_ws s). \<forall>t. w = WLoop t \<or> w = WMerge t \<longrightarrow> distinct (map fst (rcodes t)))"

text \<open>No name is lost or asked twice.\<close>

definition lg_conserves :: "string list \<Rightarrow> nat \<Rightarrow> lg_state \<Rightarrow> bool" where
  "lg_conserves names workers s \<longleftrightarrow>
     mset names = mset (map fst (lg_log s)) + mset (lg_queue s) + mset (lg_names s) \<and>
     (lg_closed s \<longrightarrow> lg_names s = []) \<and> length (lg_queue s) \<le> workers * 4 \<and> length (lg_ws s) = workers"

text \<open>A worker leaves with an error or because the closed queue is empty.\<close>

definition lg_leaves :: "lg_state \<Rightarrow> bool" where
  "lg_leaves s \<longleftrightarrow>
     (\<forall>w \<in> set (lg_ws s).
        (w = WEnd \<longrightarrow> 0 < errs (lg_r s) \<or> lg_closed s \<and> lg_names s = [] \<and> lg_queue s = []) \<and>
        (\<forall>t. w = WMerge t \<longrightarrow> 0 < errs t \<or> lg_closed s \<and> lg_names s = [] \<and> lg_queue s = [])) \<and>
     (lg_done s \<longrightarrow> lg_closed s \<and> list_all (\<lambda>w. w = WEnd) (lg_ws s))"

definition lg_invar :: "string list \<Rightarrow> nat \<Rightarrow> lg_state \<Rightarrow> bool" where
  "lg_invar names workers s \<longleftrightarrow> lg_counts s \<and> lg_conserves names workers s \<and> lg_leaves s"

lemma ball_update:
  "i < length xs \<Longrightarrow> (\<forall>x \<in> set xs. P x) \<Longrightarrow> P y \<Longrightarrow> \<forall>x \<in> set (xs[i := y]). P x"
  using set_update_subset_insert [of xs i y] by blast

lemma held_sum_update:
  "i < length ws \<Longrightarrow> held_sum f (ws[i := w]) + held f (ws ! i) = held_sum f ws + held f w"
  by (rule sum_list_map_update)

lemma lg_conserves_step:
  assumes "lg_conserves names workers s" "lg_step L wantRcode N workers s t"
  shows "lg_conserves names workers t"
  using assms(2) by cases (use assms(1) in \<open>auto simp: lg_conserves_def\<close>)

lemma lg_counts_worker:
  assumes inv: "lg_counts s" and i: "i < length (lg_ws s)"
    and e: "errs r' + held errs w = errs (lg_r s) + held errs (lg_ws s ! i) + f + length (filter (\<lambda>a. snd a = None) l)"
    and a: "length (latencies r') + held (\<lambda>t. length (latencies t)) w =
        length (latencies (lg_r s)) + held (\<lambda>t. length (latencies t)) (lg_ws s ! i) + length (filter (\<lambda>a. snd a \<noteq> None) l)"
    and c: "\<And>c. code_count (rcodes r') c + held (\<lambda>t. code_count (rcodes t) c) w =
        code_count (rcodes (lg_r s)) c + held (\<lambda>t. code_count (rcodes t) c) (lg_ws s ! i) + length (filter (\<lambda>a. snd a = Some c) l)"
    and d: "\<And>t. w = WLoop t \<or> w = WMerge t \<Longrightarrow> distinct (map fst (rcodes t))"
  shows "lg_counts (s\<lparr>lg_queue := q, lg_ws := (lg_ws s)[i := w], lg_r := r', lg_log := lg_log s @ l, lg_failed := lg_failed s + f\<rparr>)"
proof -
  note u = held_sum_update [OF i]
  have "\<forall>x \<in> set ((lg_ws s)[i := w]). \<forall>t. x = WLoop t \<or> x = WMerge t \<longrightarrow> distinct (map fst (rcodes t))"
    using i inv d by (intro ball_update) (auto simp: lg_counts_def)
  moreover have "errs r' + held_sum errs ((lg_ws s)[i := w]) = lg_failed s + f + length (filter (\<lambda>a. snd a = None) (lg_log s @ l))"
    using inv u [of errs w] e by (simp add: lg_counts_def comp_def)
  moreover have "length (latencies r') + held_sum (\<lambda>t. length (latencies t)) ((lg_ws s)[i := w]) =
      length (filter (\<lambda>a. snd a \<noteq> None) (lg_log s @ l))"
    using inv u [of "\<lambda>t. length (latencies t)" w] a by (simp add: lg_counts_def comp_def)
  moreover have "code_count (rcodes r') c + held_sum (\<lambda>t. code_count (rcodes t) c) ((lg_ws s)[i := w]) =
      length (filter (\<lambda>a. snd a = Some c) (lg_log s @ l))" for c
  proof -
    have "code_count (rcodes (lg_r s)) c + held_sum (\<lambda>t. code_count (rcodes t) c) (lg_ws s) =
        length (filter (\<lambda>a. snd a = Some c) (lg_log s))" using inv by (simp add: lg_counts_def comp_def)
    then show ?thesis using u [of "\<lambda>t. code_count (rcodes t) c" w] c [of c] by simp
  qed
  ultimately show ?thesis by (simp add: lg_counts_def comp_def)
qed

lemma lg_counts_step:
  assumes inv: "lg_counts s" and st: "lg_step L wantRcode N workers s t"
  shows "lg_counts t"
  using st
proof cases
  case (dial_ok i)
  then show ?thesis
    using lg_counts_worker [OF inv, of i "lg_r s" "WLoop no_tally" 0 "[]" "lg_queue s"] by (simp add: no_tally_def)
next
  case (dial_fails i)
  then show ?thesis
    using lg_counts_worker [OF inv, of i "(lg_r s)\<lparr>errs := errs (lg_r s) + 1\<rparr>" WEnd 1 "[]" "lg_queue s"] by simp
next
  case (take_name i w n q x w' g)
  have "lg_ws s ! i \<in> set (lg_ws s)" using take_name(2) by simp
  then have d: "distinct (map fst (rcodes w))" using inv take_name(3) by (auto simp: lg_counts_def)
  show ?thesis
    using lg_counts_worker [OF inv take_name(2), of "lg_r s" "if g then WLoop w' else WMerge w'" 0 "[(n, answer_code x)]" q]
      worker_query_counts [OF take_name(6)] take_name(1,3) d
    by (auto split: if_splits)
next
  case (queue_drained i w)
  have "lg_ws s ! i \<in> set (lg_ws s)" using queue_drained(2) by simp
  then have d: "distinct (map fst (rcodes w))" using inv queue_drained(3) by (auto simp: lg_counts_def)
  show ?thesis
    using lg_counts_worker [OF inv queue_drained(2), of "lg_r s" "WMerge w" 0 "[]" "lg_queue s"] queue_drained(1,3) d by simp
next
  case (merge_tally i w)
  have "lg_ws s ! i \<in> set (lg_ws s)" using merge_tally(2) by simp
  then have d: "distinct (map fst (rcodes w))" using inv merge_tally(3) by (auto simp: lg_counts_def)
  show ?thesis
    using lg_counts_worker [OF inv merge_tally(2), of "worker_merge w (lg_r s)" WEnd 0 "[]" "lg_queue s"] merge_tally(1,3)
    by (simp add: worker_merge_counts [OF d])
qed (use inv in \<open>simp_all add: lg_counts_def\<close>)

lemma lg_leaves_running:
  assumes "lg_leaves s" "i < length (lg_ws s)" "lg_ws s ! i \<noteq> WEnd"
  shows "\<not> lg_done s"
  using assms nth_mem [OF assms(2)] by (auto simp: lg_leaves_def list_all_iff)

lemma lg_leaves_step:
  assumes inv: "lg_leaves s" and con: "lg_conserves names workers s" and st: "lg_step L wantRcode N workers s t"
  shows "lg_leaves t"
  using st
proof cases
  case (send_name n ns)
  then show ?thesis using inv con by (auto simp: lg_leaves_def lg_conserves_def)
next
  case (close_queue)
  then show ?thesis using inv by (auto simp: lg_leaves_def)
next
  case (dial_ok i)
  then show ?thesis using inv lg_leaves_running [OF inv, of i]
    by (auto simp: lg_leaves_def dest!: set_update_subset_insert [THEN subsetD])
next
  case (dial_fails i)
  then show ?thesis using inv by (auto simp: lg_leaves_def list_all_iff dest!: set_update_subset_insert [THEN subsetD])
next
  case (take_name i w n q x w' g)
  have "\<not> g \<Longrightarrow> 0 < errs w'" using worker_query_counts(3,5) [OF take_name(6)] by simp
  moreover have "\<not> lg_done s" using lg_leaves_running [OF inv take_name(2)] take_name(3) by simp
  ultimately show ?thesis using inv take_name
    by (auto simp: lg_leaves_def dest!: set_update_subset_insert [THEN subsetD] split: if_splits)
next
  case (queue_drained i w)
  then show ?thesis using inv con lg_leaves_running [OF inv, of i]
    by (auto simp: lg_leaves_def lg_conserves_def list_all_iff dest!: set_update_subset_insert [THEN subsetD])
next
  case (merge_tally i w)
  then have "0 < errs w \<or> lg_closed s \<and> lg_names s = [] \<and> lg_queue s = []"
    using inv nth_mem [OF merge_tally(2)] by (auto simp: lg_leaves_def)
  then show ?thesis using inv merge_tally
    by (auto simp: lg_leaves_def list_all_iff dest!: set_update_subset_insert [THEN subsetD])
next
  case (all_ended d)
  then show ?thesis using inv by (auto simp: lg_leaves_def)
qed

interpretation lg_run: inductive_invariant "\<lambda>s. s = lg_start names workers" "lg_step L wantRcode N workers"
  "lg_invar names workers" for names workers L wantRcode N
proof
  fix s
  show "lg_invar names workers s" if "s = lg_start names workers"
    using that by (auto simp: lg_invar_def lg_counts_def lg_conserves_def lg_leaves_def lg_start_def no_results_def sum_list_replicate)
  fix t
  show "lg_invar names workers t" if "lg_invar names workers s" "lg_step L wantRcode N workers s t"
    using that lg_counts_step lg_conserves_step lg_leaves_step unfolding lg_invar_def by blast
qed

subsection \<open>Every run ends\<close>

fun pc_weight :: "worker_pc \<Rightarrow> nat" where
  "pc_weight WDial = 3"
| "pc_weight (WLoop t) = 2"
| "pc_weight (WMerge t) = 1"
| "pc_weight WEnd = 0"

definition lg_measure :: "lg_state \<Rightarrow> nat" where
  "lg_measure s = 2 * length (lg_names s) + length (lg_queue s) + sum_list (map pc_weight (lg_ws s)) +
     (if lg_closed s then 0 else 1) + (if lg_done s then 0 else 1)"

lemma lg_step_measure:
  assumes "lg_step L wantRcode N workers s t"
  shows "lg_measure t < lg_measure s"
  using assms
proof cases
  case (dial_ok i)
  then show ?thesis using sum_list_map_update [of i "lg_ws s" pc_weight "WLoop no_tally"] by (simp add: lg_measure_def)
next
  case (dial_fails i)
  then show ?thesis using sum_list_map_update [of i "lg_ws s" pc_weight WEnd] by (simp add: lg_measure_def)
next
  case (take_name i w n q x w' g)
  then show ?thesis using sum_list_map_update [of i "lg_ws s" pc_weight "if g then WLoop w' else WMerge w'"]
    by (auto simp: lg_measure_def split: if_splits)
next
  case (queue_drained i w)
  then show ?thesis using sum_list_map_update [of i "lg_ws s" pc_weight "WMerge w"] by (simp add: lg_measure_def)
next
  case (merge_tally i w)
  then show ?thesis using sum_list_map_update [of i "lg_ws s" pc_weight WEnd] by (simp add: lg_measure_def)
qed (simp_all add: lg_measure_def)

lemma lg_step_terminates: "wfp (\<lambda>t s. lg_step L wantRcode N workers s t)"
  by (rule wfp_if_convertible_to_nat [where f = lg_measure]) (rule lg_step_measure)

text \<open>What the network always does: a dial ends, and so does every exchange.\<close>

definition net_answers :: "lg_net \<Rightarrow> bool" where
  "net_answers N \<longleftrightarrow> (\<exists>b. net_dial N b) \<and> (\<forall>n. \<exists>x. net_query N n x)"

lemma lg_stuck_workers:
  assumes "net_answers N" "\<nexists>t. lg_step L wantRcode N workers s t" "w \<in> set (lg_ws s)"
  shows "w = WEnd \<or> (\<exists>t. w = WLoop t) \<and> lg_queue s = [] \<and> \<not> lg_closed s"
proof -
  obtain i where i: "i < length (lg_ws s)" "lg_ws s ! i = w" using assms(3) by (auto simp: in_set_conv_nth)
  obtain b where b: "net_dial N b" using assms(1) by (auto simp: net_answers_def)
  show ?thesis
  proof (cases w)
    case WDial
    then show ?thesis
      using assms(2) i b dial_ok [of i s N L wantRcode workers] dial_fails [of i s N L wantRcode workers]
      by (cases b) auto
  next
    case (WLoop t)
    show ?thesis
    proof (cases "lg_queue s")
      case Nil
      then show ?thesis using assms(2) i WLoop queue_drained [of i s t] by blast
    next
      case (Cons n q)
      obtain x where "net_query N n x" using assms(1) by (auto simp: net_answers_def)
      moreover obtain t' g where "worker_query L wantRcode n x t = (t', g)" by fastforce
      ultimately show ?thesis using assms(2) i WLoop Cons take_name [of i s t n q N x L wantRcode t' g] by blast
    qed
  next
    case (WMerge t)
    then show ?thesis using assms(2) i merge_tally [of i s t] by blast
  qed simp
qed

lemma lg_stuck:
  assumes "net_answers N" "\<nexists>t. lg_step L wantRcode N workers s t" "lg_invar names workers s" "0 < workers"
  shows "lg_done s \<or>
    list_all (\<lambda>w. w = WEnd) (lg_ws s) \<and> lg_names s \<noteq> [] \<and> length (lg_queue s) = workers * 4 \<and> 0 < errs (lg_r s)"
proof (cases "lg_names s")
  case Nil
  then have closed: "lg_closed s" using assms(2) close_queue [of s] by blast
  then have "list_all (\<lambda>w. w = WEnd) (lg_ws s)"
    using lg_stuck_workers [OF assms(1,2)] by (auto simp: list_all_iff)
  then show ?thesis using assms(2) all_ended [OF closed, of 0] by blast
next
  case (Cons n ns)
  have inv: "length (lg_queue s) \<le> workers * 4" "length (lg_ws s) = workers" "lg_leaves s"
    using assms(3) by (auto simp: lg_invar_def lg_conserves_def)
  have full: "length (lg_queue s) = workers * 4"
    using assms(2) send_name [OF Cons, of workers] inv(1) by (meson le_neq_implies_less)
  then have "lg_queue s \<noteq> []" using assms(4) by auto
  then have ended: "list_all (\<lambda>w. w = WEnd) (lg_ws s)"
    using lg_stuck_workers [OF assms(1,2)] by (auto simp: list_all_iff)
  moreover obtain w where "w \<in> set (lg_ws s)" using assms(4) inv(2) by (cases "lg_ws s") auto
  ultimately have "0 < errs (lg_r s)" using inv(3) Cons by (auto simp: lg_leaves_def list_all_iff)
  then show ?thesis using full ended Cons by simp
qed

text \<open>While dialling works no worker ever leaves early.\<close>

definition net_stays :: "lg_net \<Rightarrow> bool" where
  "net_stays N \<longleftrightarrow> \<not> net_dial N False \<and> (\<forall>n x. net_query N n x \<longrightarrow> ex_redial x)"

definition lg_patient :: "lg_state \<Rightarrow> bool" where
  "lg_patient s \<longleftrightarrow> (lg_names s = [] \<or> list_all (\<lambda>w. w = WDial \<or> (\<exists>t. w = WLoop t)) (lg_ws s)) \<and>
     (lg_closed s \<longrightarrow> lg_names s = [])"

lemma lg_patient_step:
  assumes "net_stays N" "lg_patient s" "lg_step L wantRcode N workers s t"
  shows "lg_patient t"
  using assms(3)
proof cases
  case (take_name i w n q x w' g)
  then have g using assms(1) worker_query_counts(6) [OF take_name(6)] by (auto simp: net_stays_def)
  then show ?thesis using take_name assms(2)
    by (auto simp: lg_patient_def list_all_iff dest!: set_update_subset_insert [THEN subsetD])
next
  case (merge_tally i w)
  then have "lg_names s = []" using assms(2) nth_mem [OF merge_tally(2)] by (auto simp: lg_patient_def list_all_iff)
  then show ?thesis using merge_tally by (simp add: lg_patient_def)
qed (use assms(1,2) in \<open>auto simp: lg_patient_def net_stays_def list_all_iff dest!: set_update_subset_insert [THEN subsetD]\<close>)

lemma lg_patient_reach:
  assumes "net_stays N"
  shows "reach (\<lambda>s. s = lg_start names workers) (lg_step L wantRcode N workers) s \<Longrightarrow> lg_patient s"
proof (induction rule: reach.induct)
  case (reach_init s)
  then show ?case by (auto simp: lg_start_def lg_patient_def list_all_iff)
qed (rule lg_patient_step [OF assms])

subsection \<open>A run in which every dial fails\<close>

definition hang_state :: "string list \<Rightarrow> nat \<Rightarrow> nat \<Rightarrow> nat \<Rightarrow> lg_state" where
  "hang_state names workers k j =
     \<lparr>lg_names = drop k names, lg_queue = take k names, lg_closed = False,
      lg_ws = replicate j WEnd @ replicate (workers - j) WDial,
      lg_r = no_results\<lparr>errs := j\<rparr>, lg_done = False, lg_log = [], lg_failed = j\<rparr>"

lemma hang_send:
  assumes "k < length names" "k < workers * 4"
  shows "lg_step L wantRcode N workers (hang_state names workers k j) (hang_state names workers (Suc k) j)"
proof -
  have "drop k names = names ! k # drop (Suc k) names" "take (Suc k) names = take k names @ [names ! k]"
    using assms(1) by (simp_all add: Cons_nth_drop_Suc take_Suc_conv_app_nth)
  then show ?thesis
    using send_name [of "hang_state names workers k j" "names ! k" "drop (Suc k) names" workers L wantRcode N] assms
    by (simp add: hang_state_def)
qed

lemma hang_dial:
  assumes "j < workers" "net_dial N False"
  shows "lg_step L wantRcode N workers (hang_state names workers k j) (hang_state names workers k (Suc j))"
proof -
  obtain m where m: "workers = j + Suc m" using less_imp_Suc_add [OF assms(1)] by auto
  have shift: "replicate j WEnd @ WEnd # replicate m WDial = WEnd # replicate j WEnd @ replicate m WDial"
    by (induction j) simp_all
  then show ?thesis
    using dial_fails [of j "hang_state names workers k j" N L wantRcode workers] assms m
    by (simp add: hang_state_def nth_append list_update_append shift)
qed

lemma hang_reach:
  assumes "net_dial N False" "workers * 4 < length names"
  shows "reach (\<lambda>s. s = lg_start names workers) (lg_step L wantRcode N workers) (hang_state names workers (workers * 4) workers)"
proof -
  have "k \<le> workers * 4 \<Longrightarrow> reach (\<lambda>s. s = lg_start names workers) (lg_step L wantRcode N workers) (hang_state names workers k 0)" for k
  proof (induction k)
    case 0
    show ?case by (rule reach_init) (simp add: hang_state_def lg_start_def no_results_def)
  next
    case (Suc k)
    then show ?case using assms(2) reach_step [OF Suc.IH hang_send] by simp
  qed
  then have sent: "reach (\<lambda>s. s = lg_start names workers) (lg_step L wantRcode N workers) (hang_state names workers (workers * 4) 0)"
    by simp
  have "j \<le> workers \<Longrightarrow> reach (\<lambda>s. s = lg_start names workers) (lg_step L wantRcode N workers) (hang_state names workers (workers * 4) j)" for j
  proof (induction j)
    case 0
    show ?case by (rule sent)
  next
    case (Suc j)
    then show ?case using assms(1) reach_step [OF Suc.IH hang_dial] by simp
  qed
  then show ?thesis by simp
qed

lemma hang_stuck:
  assumes "workers * 4 < length names"
  shows "\<not> lg_step L wantRcode N workers (hang_state names workers (workers * 4) workers) t"
proof
  assume "lg_step L wantRcode N workers (hang_state names workers (workers * 4) workers) t"
  then show False by cases (use assms in \<open>auto simp: hang_state_def\<close>)
qed

subsection \<open>Properties\<close>


text \<open>A server that answers every query with success, and one that cannot be reached.\<close>

definition sample_lg_lib :: lg_lib where
  "sample_lg_lib = \<lparr>StringToRcode = (\<lambda>c. if c = ''NOERROR'' then Some 0 else None),
     RcodeToString = (\<lambda>c. ''NOERROR''), err_text = (\<lambda>e. ''error'')\<rparr>"

definition sample_success :: exchange_result where
  "sample_success = \<lparr>ex_write = None, ex_read = (Some new_msg, None), ex_took = 5000, ex_redial = True\<rparr>"

definition sample_net :: lg_net where
  "sample_net = \<lparr>net_dial = (\<lambda>b. b), net_query = (\<lambda>n x. x = sample_success)\<rparr>"

definition dead_net :: lg_net where
  "dead_net = \<lparr>net_dial = (\<lambda>b. \<not> b), net_query = (\<lambda>n x. x = sample_success\<lparr>ex_read := (None, None), ex_redial := False\<rparr>)\<rparr>"



text \<open>
  C36: every run of the load generator is finite, and when it can go no further it has
  returned, or every worker has left after an error with the queue full and names still to
  be sent. The second case cannot arise while dialling works.
\<close>

theorem loadgen_run_ends:
  assumes "net_answers N" "0 < workers"
  shows "wfp (\<lambda>t s. lg_step L wantRcode N workers s t) \<and>
    (\<forall>s. reach (\<lambda>s. s = lg_start names workers) (lg_step L wantRcode N workers) s \<and>
       (\<nexists>t. lg_step L wantRcode N workers s t) \<longrightarrow>
       lg_done s \<or>
       \<not> net_stays N \<and> list_all (\<lambda>w. w = WEnd) (lg_ws s) \<and> lg_names s \<noteq> [] \<and>
         length (lg_queue s) = workers * 4 \<and> 0 < errs (lg_r s))"
proof (intro conjI allI impI lg_step_terminates)
  fix s
  assume s: "reach (\<lambda>s. s = lg_start names workers) (lg_step L wantRcode N workers) s \<and> (\<nexists>t. lg_step L wantRcode N workers s t)"
  from lg_run.reachable_invar [OF conjunct1 [OF s]] have inv: "lg_invar names workers s" .
  have "lg_names s = []" if "net_stays N" "list_all (\<lambda>w. w = WEnd) (lg_ws s)"
  proof -
    have "lg_patient s" using lg_patient_reach [OF that(1) conjunct1 [OF s]] .
    moreover obtain w ws where "lg_ws s = w # ws"
      using inv assms(2) by (cases "lg_ws s") (auto simp: lg_invar_def lg_conserves_def)
    ultimately show ?thesis using that(2) by (auto simp: lg_patient_def)
  qed
  with lg_stuck [OF assms(1) conjunct2 [OF s] inv assms(2)]
  show "lg_done s \<or> \<not> net_stays N \<and> list_all (\<lambda>w. w = WEnd) (lg_ws s) \<and> lg_names s \<noteq> [] \<and>
      length (lg_queue s) = workers * 4 \<and> 0 < errs (lg_r s)" by blast
qed

theorem loadgen_run_ends_witness:
  "\<nexists>s. reach (\<lambda>s. s = lg_start [''a''] 2) (lg_step sample_lg_lib 0 sample_net 2) s \<and>
     (\<nexists>t. lg_step sample_lg_lib 0 sample_net 2 s t) \<and> \<not> lg_done s"
proof -
  have "net_answers sample_net" by (auto simp: net_answers_def sample_net_def)
  from loadgen_run_ends [OF this, of 2 sample_lg_lib 0 "[''a'']"] show ?thesis
    by (force simp: net_stays_def sample_net_def sample_success_def)
qed

text \<open>
  C37: when dialling fails and there are more names than the queue holds, the load generator
  can reach a state in which it neither returns nor does anything else: every worker has
  left and the send of the next name waits for room that nobody makes.
\<close>

theorem loadgen_can_hang:
  assumes "net_dial N False" "workers * 4 < length names"
  shows "\<exists>s. reach (\<lambda>s. s = lg_start names workers) (lg_step L wantRcode N workers) s \<and> \<not> lg_done s \<and>
    (\<nexists>t. lg_step L wantRcode N workers s t) \<and> lg_queue s = take (workers * 4) names \<and> errs (lg_r s) = workers"
  using hang_reach [OF assms] hang_stuck [OF assms(2)]
  by (intro exI [of _ "hang_state names workers (workers * 4) workers"]) (auto simp: hang_state_def)

theorem loadgen_can_hang_witness:
  "\<exists>s. reach (\<lambda>s. s = lg_start (replicate 5 ''example.org'') 1) (lg_step sample_lg_lib 0 dead_net 1) s \<and> \<not> lg_done s \<and>
     (\<nexists>t. lg_step sample_lg_lib 0 dead_net 1 s t)"
  using loadgen_can_hang [of dead_net 1 "replicate 5 ''example.org''" sample_lg_lib 0] by (auto simp: dead_net_def)

end
