(* ===== verification/Spec2Isabelle.thy ===== *)
theory Spec2Isabelle
  imports Homedns_Prelude Go_Strings Go_Netip Matcher Parse Dns_Types Source Blocklist
    Go_Time Store Leg_Race Race Peercache Siblings Peer_Life Distribution
    Go_Duration Go_Url Corefile Blocklist_Setup Race_Setup Server Cluster Loadgen
begin

text \<open>
  A verification of homedns, a CoreDNS distribution for a home network: three plugins, the
  code that puts them into the plugin chain, and the load generator of its test scripts.

  \<^bold>\<open>The program.\<close> A query enters the chain of plugins. \<^verbatim>\<open>blocklist\<close> answers a name in the
  subtree of a listed domain with NXDOMAIN and passes every other query on; it downloads its
  lists in the background and publishes a new matcher atomically. \<^verbatim>\<open>peercache\<close> asks the
  sibling replicas of the deployment and the rest of the chain at once and takes the first
  useful answer; every answer that wins is kept in a store from which a listener serves the
  probes of the siblings. \<^verbatim>\<open>race\<close> is the end of the chain: it asks every upstream at once
  and takes the first useful reply. A replica is therefore both a client and a server of
  its siblings, and the theorem \<open>sibling_roundtrip\<close> below follows one answer through
  the whole path.

  \<^bold>\<open>Foundations.\<close> \<open>Homedns_Prelude\<close> holds the lemma collections, the result type of fallible
  functions, reachability and the interface of an inductive invariant. \<open>Go_Strings\<close>,
  \<open>Go_Netip\<close>, \<open>Go_Time\<close>, \<open>Go_Duration\<close> and \<open>Go_Url\<close> model what the program uses of Go's
  standard library: byte strings with UTF-8 decoding, trimming, fields and binary search;
  IP literals and \<^verbatim>\<open>host:port\<close>; durations, their 64-bit wrap-around and \<^verbatim>\<open>float64\<close> rounding;
  \<^verbatim>\<open>time.ParseDuration\<close>; the part of \<^verbatim>\<open>url.Parse\<close> that decides scheme and host. \<open>Dns_Types\<close>
  has messages, errors as chains, the message heap (messages are shared by pointer and
  changed in place) and \<^verbatim>\<open>internal/detached/writer.go\<close>; \<open>Corefile\<close> the occurrences of a
  directive as the setup functions read them.

  \<^bold>\<open>blocklist\<close> (\<^verbatim>\<open>plugin/blocklist\<close>). \<open>Matcher\<close> models \<^verbatim>\<open>matcher.go\<close>: the sorted, pruned name
  set, the in-place deduplication on an array, and the walk up the labels by binary search.
  It is shown to decide membership in the subtrees of the listed names
  (\<open>newNameSet_covers_subtrees\<close>, \<open>blocked_iff\<close>). \<open>Parse\<close> models \<^verbatim>\<open>parse.go\<close>, with the scanner and its
  line limit; lists in any mix of the supported formats are read back exactly, and errors
  never yield a partial list. \<open>Source\<close> models \<^verbatim>\<open>source.go\<close>: the rotation over the bootstrap
  servers with its wrapping counter, and \<^verbatim>\<open>fetch\<close> on the outcome of the HTTP request.
  \<open>Blocklist\<close> models \<^verbatim>\<open>blocklist.go\<close> and its metrics: the handler, the reload with the last
  good list of every source, and the goroutines (refresh, fail-open timer, shutdown) as the
  relation \<open>life_step\<close> whose steps are the single accesses to shared state. The metrics
  belong to the package: \<open>life_move\<close> adds the changes other instances make to them, and an
  instance may start on any value of the gauge (\<open>life_safety\<close>, \<open>gauge_of_lone_instance\<close>,
  \<open>timer_outlives_shutdown\<close>). \<open>reload_as_steps\<close> ties the steps to \<open>reload\<close>. \<open>Blocklist_Setup\<close>
  models the configuration, which establishes the initial state of that relation.

  \<^bold>\<open>peercache\<close> (\<^verbatim>\<open>plugin/peercache\<close>). \<open>Store\<close> models \<^verbatim>\<open>store.go\<close> on the message heap: \<open>put\<close>
  copies, \<open>get\<close> copies again, readdresses and rewrites the TTLs. Under any interleaving with
  callers that change their own messages, what is served is what was put, with a
  lifetime between five seconds and what is left (\<open>served_answer_was_put\<close>). \<open>Leg_Race\<close> is
  the pattern both races share, one goroutine per leg with a buffered channel and a
  collector, with the locale \<open>first_useful\<close> as the contract of the collector's body; \<open>Peercache\<close>
  instantiates it for \<^verbatim>\<open>peercache.go\<close>, \<open>Race\<close> for \<^verbatim>\<open>race.go\<close>. \<open>Siblings\<close> models the setup, the
  publication of the discovered pods and the listener; \<open>Peer_Life\<close> the goroutines of the
  plugin from \<^verbatim>\<open>start\<close> to \<^verbatim>\<open>shutdown\<close>.

  \<^bold>\<open>race\<close> (\<^verbatim>\<open>plugin/race\<close>). \<open>Race\<close> has the handler, a leg with its bounded retries over dead
  pooled connections, and the dispatcher, as a function of the results it receives and as a
  step relation with its goroutines: no leg blocks, every run ends, and with one good
  upstream the client gets exactly one useful reply (\<open>dispatch_answers\<close>). \<open>Race_Setup\<close>
  models the configuration, \<^verbatim>\<open>start\<close> and \<^verbatim>\<open>stop\<close>.

  \<^bold>\<open>The chain.\<close> \<open>Server\<close> composes the three handlers through their \<^verbatim>\<open>Next\<close> fields and states
  what a client is promised (\<open>home_spec\<close>): exactly one message, an authoritative NXDOMAIN for
  an unwanted name and a usable answer for every other one. \<open>server_refines_home_spec\<close> shows
  that every returning run of the chain keeps the promise as soon as one upstream is
  good, and that there is such a run. \<open>Distribution\<close> models \<^verbatim>\<open>directives.go\<close> (the splicing of the plugins
  into CoreDNS's list of directives, and the order in which a query meets them) and
  \<^verbatim>\<open>buildinfo.go\<close>.

  \<^bold>\<open>The deployment.\<close> \<open>Cluster\<close> puts any number of replicas beside each other: each runs the
  peercache handler for its clients and the listener for its siblings, over a network that
  delays, repeats and loses messages. Every answer carries its history, and the invariant
  ties each store to it: no record is invented or mixed up however often it is passed on
  (\<open>cluster_provenance\<close>). A store serves what is left of a lifetime, truncated to seconds
  and never below five, so every pass after a full second in a store costs at least one
  second of the lifetime, and the number of such passes is bounded
  (\<open>answers_do_not_circulate\<close>). For lifetimes below \<open>2^24\<close> seconds, where
  \<^verbatim>\<open>Duration.Seconds\<close> is precise enough (\<open>Go_Time\<close>), this holds for every pass after any
  positive time. Passes at one and the same clock reading cost nothing and are not bounded. \<open>race_run_is_step\<close> says that the races of \<open>Peercache\<close>,
  with all their interleavings, are steps of the deployment.

  \<^bold>\<open>The load generator.\<close> \<open>Loadgen\<close> models \<^verbatim>\<open>scripts/loadgen/main.go\<close>: the workers and
  their queue, the figures of the report and the exit code.

  \<^bold>\<open>Parameters.\<close> Code outside the repository is an argument of the definitions: the cache,
  the response classification and the hash of the store (\<open>store_env\<close>, with the laws
  \<open>cache_ok\<close>), \<^verbatim>\<open>Msg.SetRcode\<close> (\<open>set_rcode_ok\<close>), \<^verbatim>\<open>request.Match\<close>, the proxies'
  \<^verbatim>\<open>Connect\<close>, the exchange of a probe, the address and zone parsers of CoreDNS
  (\<open>race_lib\<close>), the label-selector parser, the lister of pods, the tables of response codes
  (\<open>lg_lib\<close>) and Unicode's case mapping outside ASCII. What the network does is a
  relation or an argument, so that the theorems hold for all its behaviours.

  \<^bold>\<open>Loops.\<close> No fuel is used: every loop is a total function. The loops over upstreams, legs
  and attempts are bounded by the code itself (ten attempts of a leg, twenty of the
  listener's bind), and the goroutines are step relations whose runs are shown finite by a
  measure where the code is meant to end.

  \<^bold>\<open>Not modelled.\<close> The registration of the plugins and of the metrics in \<^verbatim>\<open>init\<close> functions and
  \<^verbatim>\<open>main.go\<close> are calls of CoreDNS, and the order in which it runs setup functions and
  callbacks is its own. The HTTP exchange, the informer and the DNS server behind the
  listener are library code, of which only what the plugin does with them appears; other
  plugins between ours in a server block are not part of the composed chain. Logging has
  no effect on the modelled state and is left out, except for the warning of the race
  setup. The formatting of the load generator's figures, the shell scripts, charts,
  dashboards and tests are outside.
\<close>

section \<open>Across the components\<close>

text \<open>
  C9: an answer travels from the replica that resolved it to a client of a sibling. Replica
  A has answered its own client and recorded the answer; a sibling B, listed as a peer of
  A, asks A for the same name, type and class while at least five seconds of the answer's
  lifetime are left. Then A's listener sends exactly one message, B's probe leg for it wins
  the race of B's query, and the client of B gets exactly one reply, under its own
  identifier and question, with the code and the records A received, all with the same
  remaining lifetime: at least five seconds and never more than is left, rounded up.
\<close>

theorem sibling_roundtrip:
  assumes params: "cache_ok (ops (qy_env qA))" "set_rcode_ok (setRcode (qy_env qA))" "set_rcode_ok (setRcode (qy_env qB))"
    and resolved: "pl_msg res = Some m" "race_body qA uA res = Return xA" "put_accepts (qy_env qA) (qy_time qA) (qy_state qA) m"
    and peer: "isPeer pA (lw_remote w)" "length (Question (req_Req rq)) = 1" "\<not> req_Do rq" "\<not> CheckingDisabled (req_Req rq)"
    and same: "req_Name rq = req_Name (qy_state qA)" "req_QType rq = req_QType (qy_state qA)" "req_QClass rq = req_QClass (qy_state qA)"
    and writes: "\<And>m. lw_write (qy_w qA) m = None" "\<And>m. lw_write w m = None" "\<And>m. lw_write (qy_w qB) m = None"
    and now: "qy_now qA \<le> now" "minServeTTL \<le> uint (Min (set (lifetimes m))) * second - (now - qy_now qA)"
  shows "\<exists>reply xB m' ttl.
     fst (serveProbe (qy_env qA) pA w rq now spent (snd (snd (xA sA)))) = [reply] \<and>
     race_body qB uB (fst (probe (Some reply, None) took)) = Return xB \<and>
     fst (xB sB) = \<lparr>sv_rcode = RcodeSuccess, sv_err = None, sv_written = [m']\<rparr> \<and>
     rebased m (req_Req (qy_state qB)) ttl m' \<and> 5 \<le> uint ttl \<and>
     uint ttl * second < uint (Min (set (lifetimes m))) * second - (now - qy_now qA) + second"
proof -
  let ?g = "get (qy_env qA) now rq (snd (snd (xA sA)))"
  obtain p ttl where g: "fst ?g = Some p" "rebased m (req_Req rq) ttl (h_cell (s_heap (snd ?g)) p)"
    and lo: "(uint (Min (set (lifetimes m))) * second - (now - qy_now qA)) div second \<le> uint ttl"
    and hi: "uint ttl * second < uint (Min (set (lifetimes m))) * second - (now - qy_now qA) + second"
    by (rule winner_stored [OF params(1,2) resolved writes(1) peer(3,4) key_same_question [OF same] now])
  define reply where "reply = h_cell (s_heap (snd ?g)) p"
  have sent: "fst (serveProbe (qy_env qA) pA w rq now spent (snd (snd (xA sA)))) = [reply]"
    using peer(1,2) g(1) writes(2) by (simp add: serveProbe_decides send_def reply_def)
  let ?leg = "fst (probe (Some reply, None) took)"
  have leg: "pl_msg ?leg = Some reply" "pl_err ?leg = None" using probe_outcome [of "Some reply" None took] by simp_all
  have "pc_useful (pl_msg ?leg)"
    using rebased_useful [OF g(2)] race_body_Return_useful [OF resolved(2)] resolved(1) leg(1) by (simp add: reply_def)
  then have xB: "race_body qB uB ?leg = Return (race_won qB ?leg)" by (rule peer_contest.body_useful)
  let ?m = "setRcode (qy_env qB) reply (req_Req (qy_state qB)) (Rcode reply)"
  have "fst (race_won qB ?leg sB) = \<lparr>sv_rcode = RcodeSuccess, sv_err = None, sv_written = [?m]\<rparr>"
    using race_body_served [OF xB leg(1)] writes(3) leg(2) by (simp add: Let_def)
  moreover have "rebased m (req_Req (qy_state qB)) ttl ?m"
    using g(2) set_rcode_okD [OF params(3)] by (simp add: rebased_def reply_def)
  moreover have "5 \<le> uint ttl"
    using lo zdiv_mono1 [OF now(2), of second] by (simp add: minServeTTL_def second_def)
  ultimately show ?thesis using sent xB hi by blast
qed

text \<open>Replica A at \<open>10.0.0.1\<close> knows the sibling at \<open>10.0.0.2\<close>, which asks ten seconds later.\<close>

theorem sibling_roundtrip_witness:
  "\<exists>reply xB m' ttl.
     fst (serveProbe sample_store_env \<lparr>selector = ''x'', port = 8053, peers = Some [''10.0.0.2:8053'']\<rparr>
        \<lparr>lw_local = ''l'', lw_remote = ''10.0.0.2:4000'', lw_write = (\<lambda>_. None)\<rparr>
        (sample_query ''a.'') (10 * second) 0 (snd (snd (sample_won (sy_store sample_sys))))) = [reply] \<and>
     race_body sample_q None (fst (probe (Some reply, None) 0)) = Return xB \<and>
     fst (xB (sy_store sample_sys)) = \<lparr>sv_rcode = RcodeSuccess, sv_err = None, sv_written = [m']\<rparr> \<and>
     rebased sample_answer (req_Req (sample_query ''a.'')) ttl m' \<and> 5 \<le> uint ttl \<and> uint ttl < 291"
proof -
  have min: "Min (set (lifetimes sample_answer)) = 300"
    by (simp add: sample_answer_def lifetimes_def TypeOPT_def new_msg_def)
  have peer: "isPeer \<lparr>selector = ''x'', port = 8053, peers = Some [''10.0.0.2:8053'']\<rparr> ''10.0.0.2:4000''" by code_simp
  have q: "qy_env sample_q = sample_store_env" "qy_state sample_q = sample_query ''a.''" "qy_now sample_q = 0"
    "qy_time sample_q = 0" "\<And>m. lw_write (qy_w sample_q) m = None"
    by (simp_all add: sample_q_def)
  have rq: "length (Question (req_Req (sample_query ''a.''))) = 1" "\<not> req_Do (sample_query ''a.'')"
    "\<not> CheckingDisabled (req_Req (sample_query ''a.''))"
    by (simp_all add: sample_query_def new_msg_def)
  have "pl_msg sample_peer_leg = Some sample_answer" by (simp add: sample_peer_leg_def)
  with sibling_roundtrip [of sample_q sample_q sample_peer_leg sample_answer None sample_won
      "\<lparr>selector = ''x'', port = 8053, peers = Some [''10.0.0.2:8053'']\<rparr>"
      "\<lparr>lw_local = ''l'', lw_remote = ''10.0.0.2:4000'', lw_write = (\<lambda>_. None)\<rparr>" "sample_query ''a.''" "10 * second"
      0 "sy_store sample_sys" None 0 "sy_store sample_sys"]
    sample_ok sample_body [of None] sample_accepts [of 0 "''a.''"] min peer q rq
  show ?thesis by (simp add: second_def minServeTTL_def)
qed

end
